(* ===== verification/Prelude.thy ===== *)
theory Prelude
  imports Main "HOL-Library.Word" "HOL-Library.List_Lexorder"
begin

text \<open>
  Shared vocabulary of the development: errors as values, machine integers,
  ternary comparison, and the two interfaces (\<open>ternary\<close> comparison functions and
  prefix \<open>codec\<close>s) against which the components are verified.

  The C++ code leaves a function in one of three abnormal ways. An exception
  (\<open>THROW_ERROR_EXCEPTION\<close>, \<open>throw TSimpleException\<close>) is \<open>Thrown\<close>, a failed
  \<open>YT_VERIFY\<close> or \<open>YT_ABORT\<close> is \<open>Fatal\<close>, and a read outside the memory that the caller
  handed over is \<open>Undefined\<close>. A computation is a value of \<open>yt_error + 'a\<close>.
\<close>

section \<open>Errors as values\<close>

datatype yt_error = Thrown string | Fatal string | Undefined string

type_synonym 'a res = "yt_error + 'a"

type_synonym byte = "8 word"
type_synonym u16 = "16 word"
type_synonym u32 = "32 word"
type_synonym u64 = "64 word"

definition rbind :: "'a res \<Rightarrow> ('a \<Rightarrow> 'b res) \<Rightarrow> 'b res" where
  "rbind m f = (case m of Inl e \<Rightarrow> Inl e | Inr x \<Rightarrow> f x)"

definition verify :: "bool \<Rightarrow> string \<Rightarrow> unit res" where
  "verify b msg = (if b then Inr () else Inl (Fatal msg))"

definition throw_if :: "bool \<Rightarrow> string \<Rightarrow> unit res" where
  "throw_if b msg = (if b then Inl (Thrown msg) else Inr ())"

named_theorems res_simps \<open>evaluation of the result monad\<close>

lemma rbind_Inl [simp, res_simps]: "rbind (Inl e) f = Inl e"
  by (simp add: rbind_def)

lemma rbind_Inr [simp, res_simps]: "rbind (Inr x) f = f x"
  by (simp add: rbind_def)

lemma rbind_eq_Inr [simp]:
  "rbind m f = Inr y \<longleftrightarrow> (\<exists>x. m = Inr x \<and> f x = Inr y)"
  by (cases m) simp_all

lemma rbind_assoc: "rbind (rbind m f) g = rbind m (\<lambda>x. rbind (f x) g)"
  by (cases m) simp_all

lemma rbind_cong [fundef_cong]:
  "m = m' \<Longrightarrow> (\<And>x. m' = Inr x \<Longrightarrow> f x = g x) \<Longrightarrow> rbind m f = rbind m' g"
  by (cases m') simp_all

lemma verify_simps [simp, res_simps]:
  "verify True msg = Inr ()" "verify False msg = Inl (Fatal msg)"
  by (simp_all add: verify_def)

lemma throw_if_simps [simp, res_simps]:
  "throw_if False msg = Inr ()" "throw_if True msg = Inl (Thrown msg)"
  by (simp_all add: throw_if_def)

lemma verify_eq_Inr [simp]: "verify b msg = Inr u \<longleftrightarrow> b"
  by (simp add: verify_def)

lemma throw_if_eq_Inr [simp]: "throw_if b msg = Inr u \<longleftrightarrow> \<not> b"
  by (simp add: throw_if_def)

text \<open>Running a fallible check over a list stops at the first error.\<close>

fun check_all :: "('a \<Rightarrow> unit res) \<Rightarrow> 'a list \<Rightarrow> unit res" where
  "check_all f [] = Inr ()"
| "check_all f (x # xs) = rbind (f x) (\<lambda>_. check_all f xs)"

lemma check_all_eq_Inr [simp]: "check_all f xs = Inr u \<longleftrightarrow> (\<forall>x\<in>set xs. f x = Inr ())"
  by (induction xs) auto

lemma unat_u32_less: "unat (w :: u32) < 2 ^ 32"
  using unsigned_less [of w, where ?'a = nat] by simp

section \<open>Ternary comparison\<close>

text \<open>
  \<open>TernaryCompare\<close> of \<open>library/cpp/yt/misc/compare-inl.h\<close>, for every type whose \<open>==\<close> and
  \<open>\<less>\<close> are those of a linear order.
\<close>

definition TernaryCompare :: "'a::linorder \<Rightarrow> 'a \<Rightarrow> int" where
  "TernaryCompare lhs rhs = (if lhs = rhs then 0 else if lhs < rhs then -1 else 1)"

lemma TernaryCompare_refl [simp]: "TernaryCompare x x = 0"
  by (simp add: TernaryCompare_def)

lemma TernaryCompare_antisym: "TernaryCompare y x = - TernaryCompare x y"
  by (auto simp: TernaryCompare_def)

lemma TernaryCompare_eq_0 [simp]: "TernaryCompare x y = 0 \<longleftrightarrow> x = y"
  by (simp add: TernaryCompare_def)

lemma TernaryCompare_less_0 [simp]: "TernaryCompare x y < 0 \<longleftrightarrow> x < y"
  by (simp add: TernaryCompare_def)

lemma TernaryCompare_greater_0 [simp]: "0 < TernaryCompare x y \<longleftrightarrow> y < x"
  by (auto simp: TernaryCompare_def)

lemma TernaryCompare_le_0 [simp]: "TernaryCompare x y \<le> 0 \<longleftrightarrow> x \<le> y"
  by (auto simp: TernaryCompare_def)

lemma TernaryCompare_ge_0 [simp]: "0 \<le> TernaryCompare x y \<longleftrightarrow> y \<le> x"
  by (auto simp: TernaryCompare_def)

lemma TernaryCompare_range: "TernaryCompare x y \<in> {-1, 0, 1}"
  by (simp add: TernaryCompare_def)

lemma TernaryCompare_sgn [simp]: "sgn (TernaryCompare x y) = TernaryCompare x y"
  by (simp add: TernaryCompare_def)

text \<open>
  The contract of a ternary comparison function on a domain: its sign is that of a total
  preorder. Only signs are promised, because several routines of the code return the
  index of the first difference as the magnitude.
\<close>

locale ternary =
  fixes cmp :: "'a \<Rightarrow> 'a \<Rightarrow> int"
    and dom :: "'a \<Rightarrow> bool"
  assumes cmp_refl: "dom x \<Longrightarrow> cmp x x = 0"
    and cmp_antisym: "dom x \<Longrightarrow> dom y \<Longrightarrow> sgn (cmp y x) = - sgn (cmp x y)"
    and cmp_le_trans: "dom x \<Longrightarrow> dom y \<Longrightarrow> dom z \<Longrightarrow>
      cmp x y \<le> 0 \<Longrightarrow> cmp y z \<le> 0 \<Longrightarrow> cmp x z \<le> 0"
begin

lemma cmp_swap:
  assumes "dom x" "dom y"
  shows "cmp y x < 0 \<longleftrightarrow> 0 < cmp x y" "cmp y x = 0 \<longleftrightarrow> cmp x y = 0"
    "cmp y x \<le> 0 \<longleftrightarrow> 0 \<le> cmp x y"
  using cmp_antisym [OF assms] by (auto simp: sgn_if split: if_splits)

lemma cmp_less_le_trans:
  assumes "dom x" "dom y" "dom z" and "cmp x y < 0" "cmp y z \<le> 0"
  shows "cmp x z < 0"
proof (rule ccontr)
  assume "\<not> cmp x z < 0"
  then have "cmp z x \<le> 0" using cmp_swap(3) [of x z] assms(1,3) by simp
  with assms have "cmp y x \<le> 0" by (blast intro: cmp_le_trans)
  with assms(1,2,4) show False using cmp_swap(3) [of x y] by simp
qed

lemma cmp_le_less_trans:
  assumes "dom x" "dom y" "dom z" and "cmp x y \<le> 0" "cmp y z < 0"
  shows "cmp x z < 0"
proof (rule ccontr)
  assume "\<not> cmp x z < 0"
  then have "cmp z x \<le> 0" using cmp_swap(3) [of x z] assms(1,3) by simp
  with assms have "cmp z y \<le> 0" by (blast intro: cmp_le_trans)
  with assms(2,3,5) show False using cmp_swap(3) [of y z] by simp
qed

lemma cmp_eq_trans:
  assumes "dom x" "dom y" "dom z" and "cmp x y = 0" "cmp y z = 0"
  shows "cmp x z = 0"
proof (rule antisym)
  from assms show "cmp x z \<le> 0" by (intro cmp_le_trans [of x y z]) simp_all
  from assms have "cmp z x \<le> 0"
    by (intro cmp_le_trans [of z y x]) (simp_all add: cmp_swap)
  with assms(1,3) show "0 \<le> cmp x z" by (simp add: cmp_swap)
qed

end

interpretation linorder_ternary: ternary "TernaryCompare" "\<lambda>_. True"
  by unfold_locales (auto simp: TernaryCompare_def split: if_splits)

section \<open>Lists\<close>

lemma list_less_Cons [simp]:
  "(x # xs < y # ys) \<longleftrightarrow> (x::'a::order) < y \<or> x = y \<and> xs < ys"
  by (auto simp: list_less_def)

lemma TernaryCompare_Cons:
  "TernaryCompare (x # xs) (y # ys) =
     (if x = y then TernaryCompare xs ys else TernaryCompare x (y::'a::linorder))"
  by (auto simp: TernaryCompare_def)

lemma TernaryCompare_Nil [simp]:
  "TernaryCompare [] (y # ys) = -1" "TernaryCompare (y # ys) [] = (1::int)"
  by (simp_all add: TernaryCompare_def list_less_def)

lemma TernaryCompare_append_same [simp]:
  "TernaryCompare (xs @ ys) (xs @ zs) = TernaryCompare ys (zs :: 'a::linorder list)"
  by (induction xs) (simp_all add: TernaryCompare_Cons)

section \<open>Prefix codecs\<close>

text \<open>
  A codec writes a value as a byte string that a reader recognises in front of any
  continuation. The reader returns the value and the number of bytes that it consumed,
  which is how the C++ readers report progress.
\<close>

type_synonym 'a reader = "byte list \<Rightarrow> ('a \<times> nat) res"

locale codec =
  fixes enc :: "'a \<Rightarrow> byte list"
    and dec :: "'a reader"
    and valid :: "'a \<Rightarrow> bool"
  assumes dec_enc: "valid x \<Longrightarrow> dec (enc x @ rest) = Inr (x, length (enc x))"
begin

lemma dec_enc_alone: "valid x \<Longrightarrow> dec (enc x) = Inr (x, length (enc x))"
  using dec_enc [of x "[]"] by simp

lemma enc_inj: "valid x \<Longrightarrow> valid y \<Longrightarrow> enc x = enc y \<Longrightarrow> x = y"
  by (metis Inr_inject dec_enc_alone prod.inject)

lemma enc_prefix_free:
  assumes "valid x" "valid y" "enc x @ r = enc y @ s"
  shows "x = y \<and> r = s"
proof -
  have "Inr (x, length (enc x)) = dec (enc y @ s)"
    using dec_enc [OF assms(1), of r] unfolding assms(3) by (rule sym)
  also have "\<dots> = Inr (y, length (enc y))"
    by (rule dec_enc [OF assms(2)])
  finally have "x = y" by simp
  with assms(3) show ?thesis by simp
qed

end

text \<open>Reading \<open>n\<close> items one after another, as the row readers do.\<close>

fun read_many :: "'a reader \<Rightarrow> nat \<Rightarrow> 'a list reader" where
  "read_many rd 0 bs = Inr ([], 0)"
| "read_many rd (Suc n) bs =
     rbind (rd bs) (\<lambda>(x, k). rbind (read_many rd n (drop k bs)) (\<lambda>(xs, m). Inr (x # xs, k + m)))"

context codec begin

lemma read_many_enc:
  "(\<And>x. x \<in> set xs \<Longrightarrow> valid x) \<Longrightarrow>
   read_many dec (length xs) (concat (map enc xs) @ rest) =
     Inr (xs, length (concat (map enc xs)))"
  by (induction xs) (simp_all add: dec_enc)

end

section \<open>Transition systems\<close>

text \<open>What holds at the start and is kept by every step holds in every reachable state.\<close>

locale invariant_system =
  fixes start :: 's and step :: "'s \<Rightarrow> 's \<Rightarrow> bool" and inv :: "'s \<Rightarrow> bool"
  assumes start_inv: "inv start"
    and step_inv: "inv s \<Longrightarrow> step s t \<Longrightarrow> inv t"
begin

lemma reachable_inv: "step\<^sup>*\<^sup>* start s \<Longrightarrow> inv s"
  by (induction rule: rtranclp_induct) (auto intro: start_inv step_inv)

lemma steps_inv: "step\<^sup>*\<^sup>* s t \<Longrightarrow> inv s \<Longrightarrow> inv t"
  by (induction rule: rtranclp_induct) (auto intro: step_inv)

end

end
