(* ===== verification/Coding.thy ===== *)
theory Coding
  imports Prelude
begin

text \<open>
  Variable-length integers: \<open>library/cpp/yt/coding/zig_zag-inl.h\<close> and
  \<open>library/cpp/yt/coding/varint-inl.h\<close>. A write into a \<open>char*\<close> or a stream is the list of
  bytes that it stores, the number of bytes written is its length. A read from a bare
  \<open>char*\<close> sees the bytes that follow the pointer; looking past them is \<open>Undefined\<close>. Both
  signed and unsigned C++ integers are words, read with \<open>sint\<close> and \<open>uint\<close>.
\<close>

unbundle bit_operations_syntax

section \<open>Zig-zag\<close>

definition ZigZagEncode32 :: "u32 \<Rightarrow> u32" where
  "ZigZagEncode32 n = push_bit 1 n XOR signed_drop_bit 31 n"

definition ZigZagDecode32 :: "u32 \<Rightarrow> u32" where
  "ZigZagDecode32 n = drop_bit 1 n XOR (NOT (n AND 1) + 1)"

definition ZigZagEncode64 :: "u64 \<Rightarrow> u64" where
  "ZigZagEncode64 n = push_bit 1 n XOR signed_drop_bit 63 n"

definition ZigZagDecode64 :: "u64 \<Rightarrow> u64" where
  "ZigZagDecode64 n = drop_bit 1 n XOR (NOT (n AND 1) + 1)"

section \<open>Writing varints\<close>

definition MaxVarUint64Size :: nat where
  "MaxVarUint64Size = (8 * 8 - 1) div 7 + 1"

definition MaxVarUint32Size :: nat where
  "MaxVarUint32Size = (8 * 4 - 1) div 7 + 1"

lemma unat_drop_bit_7: "unat (drop_bit 7 (v::u64)) = unat v div 128"
  by (simp add: drop_bit_eq_div unat_div_distrib)

text \<open>The do-while loop; \<open>output\<close> holds the \<open>count\<close> bytes stored so far.\<close>

function WriteVarUint64_loop :: "byte list \<Rightarrow> u64 \<Rightarrow> byte list" where
  "WriteVarUint64_loop output value =
     (let output1 = butlast output @ [last output OR 0x80];
          value1 = drop_bit 7 value;
          output2 = output1 @ [ucast value1]
      in if value1 \<ge> 0x80 then WriteVarUint64_loop output2 value1 else output2)"
  by pat_completeness auto

termination
proof (relation "measure (\<lambda>(output, value). unat value)")
  show "wf (measure (\<lambda>(output::byte list, value::u64). unat value))" by simp
next
  fix out0 out1 out2 :: "byte list" and v w :: u64
  assume "w = drop_bit 7 v" "0x80 \<le> w"
  then have "unat w = unat v div 128" "128 \<le> unat w"
    by (simp_all add: unat_drop_bit_7 word_le_nat_alt)
  then have "unat w < unat v" by simp
  then show "((out2, w), (out0, v)) \<in> measure (\<lambda>(output, value). unat value)" by simp
qed

definition WriteVarUint64 :: "u64 \<Rightarrow> byte list" where
  "WriteVarUint64 value =
     (let output0 = ucast value
      in if value < 0x80 then [output0]
         else let output0 = output0 OR 0x80;
                  value = drop_bit 7 value;
                  output1 = ucast value
              in if value < 0x80 then [output0, output1]
                 else WriteVarUint64_loop [output0, output1] value)"

definition WriteVarUint32 :: "u32 \<Rightarrow> byte list" where
  "WriteVarUint32 value = WriteVarUint64 (ucast value)"

definition WriteVarInt32 :: "u32 \<Rightarrow> byte list" where
  "WriteVarInt32 value = WriteVarUint64 (ucast (ZigZagEncode32 value))"

definition WriteVarInt64 :: "u64 \<Rightarrow> byte list" where
  "WriteVarInt64 value = WriteVarUint64 (ZigZagEncode64 value)"

section \<open>Reading varints\<close>

definition ReadVarUintKnownSize :: "nat \<Rightarrow> byte list \<Rightarrow> u64" where
  "ReadVarUintKnownSize N buffer =
     foldl (\<lambda>result i. result + push_bit (7 * i) (ucast (buffer ! i) - 0x80))
       (push_bit (7 * (N - 1)) (ucast (buffer ! (N - 1)))) [0..<N - 1]"

text \<open>A chain of \<open>READ_VARUINT_STEP(type, size, bound)\<close> that ends in a throw.\<close>

fun READ_VARUINT_STEPS :: "(nat \<times> nat) list \<Rightarrow> string \<Rightarrow> u64 reader" where
  "READ_VARUINT_STEPS [] msg input = Inl (Thrown msg)"
| "READ_VARUINT_STEPS ((sz, bound) # steps) msg input =
     (if length input < sz then Inl (Undefined ''read past the input'')
      else if unat (input ! (sz - 1)) < bound
      then Inr (ReadVarUintKnownSize sz input, sz)
      else READ_VARUINT_STEPS steps msg input)"

definition ReadVarUint32 :: "u32 reader" where
  "ReadVarUint32 input =
     rbind (READ_VARUINT_STEPS [(1, 0x80), (2, 0x80), (3, 0x80), (4, 0x80), (5, 0x10)]
       ''Value is too big for varuint32'' input)
     (\<lambda>(value, sz). Inr (ucast value, sz))"

definition ReadVarUint64 :: "u64 reader" where
  "ReadVarUint64 input =
     READ_VARUINT_STEPS
       [(1, 0x80), (2, 0x80), (3, 0x80), (4, 0x80), (5, 0x80), (6, 0x80), (7, 0x80),
        (8, 0x80), (9, 0x80), (10, 0x02)]
       ''Value is too big for varuint64'' input"

text \<open>
  The reader over \<open>readNextByte\<close>; \<open>eof\<close> is the message that \<open>readNextByte\<close> throws when
  there are no bytes left.
\<close>

fun ReadVarUint64_next :: "string \<Rightarrow> nat \<Rightarrow> u64 \<Rightarrow> u64 reader" where
  "ReadVarUint64_next eof count result [] = Inl (Thrown eof)"
| "ReadVarUint64_next eof count result (b # rest) =
     (let result = result OR push_bit (7 * count) (ucast (b AND 0x7F));
          count = count + 1
      in if count > MaxVarUint64Size then Inl (Thrown ''Value is too big for varuint64'')
         else if b AND 0x80 \<noteq> 0 then ReadVarUint64_next eof count result rest
         else Inr (result, count))"

definition ReadVarUint64Fallback :: "u64 reader" where
  "ReadVarUint64Fallback =
     ReadVarUint64_next ''Premature end of data while reading varuint64'' 0 0"

definition ReadVarUint64_stream :: "u64 reader" where
  "ReadVarUint64_stream =
     ReadVarUint64_next ''Premature end of stream while reading varuint64'' 0 0"

definition ReadVarUint64_bounded :: "u64 reader" where
  "ReadVarUint64_bounded input =
     (if length input \<ge> MaxVarUint64Size then ReadVarUint64 input
      else ReadVarUint64Fallback input)"

definition ReadVarUint32Impl :: "u64 reader \<Rightarrow> u32 reader" where
  "ReadVarUint32Impl rd input =
     rbind (rd input) (\<lambda>(varInt, bytesRead).
       if varInt > 0xFFFFFFFF then Inl (Thrown ''Value is too big for varuint32'')
       else Inr (ucast varInt, bytesRead))"

definition ReadVarInt32Impl :: "u64 reader \<Rightarrow> u32 reader" where
  "ReadVarInt32Impl rd input =
     rbind (rd input) (\<lambda>(varInt, bytesRead).
       if varInt > 0xFFFFFFFF then Inl (Thrown ''Value is too big for varint32'')
       else Inr (ZigZagDecode32 (ucast varInt), bytesRead))"

definition ReadVarInt64Impl :: "u64 reader \<Rightarrow> u64 reader" where
  "ReadVarInt64Impl rd input =
     rbind (rd input) (\<lambda>(varInt, bytesRead). Inr (ZigZagDecode64 varInt, bytesRead))"

definition ReadVarInt32 :: "u32 reader" where
  "ReadVarInt32 = ReadVarInt32Impl ReadVarUint64"

definition ReadVarInt64 :: "u64 reader" where
  "ReadVarInt64 = ReadVarInt64Impl ReadVarUint64"

section \<open>Zig-zag is a bijection onto small numbers\<close>

text \<open>Both widths at once: \<open>k\<close> is the index of the sign bit.\<close>

lemma zigzag_encode_cases:
  fixes n :: "'a::len word"
  assumes "LENGTH('a) = Suc k"
  shows "push_bit 1 n XOR signed_drop_bit k n =
    (if bit n k then NOT (push_bit 1 n) else push_bit 1 n)"
proof (cases "bit n k")
  case True
  have "signed_drop_bit k n = -1"
    by (rule bit_word_eqI) (use assms True in \<open>auto simp: bit_signed_drop_bit_iff Suc_le_eq\<close>)
  with True show ?thesis by simp
next
  case False
  have "signed_drop_bit k n = 0"
    by (rule bit_word_eqI)
      (use assms False in \<open>auto simp: bit_signed_drop_bit_iff Suc_le_eq split: if_splits\<close>)
  with False show ?thesis by simp
qed

lemma zigzag_decode_cases:
  fixes n :: "'a::len word"
  shows "drop_bit 1 n XOR (NOT (n AND 1) + 1) =
    (if bit n 0 then NOT (drop_bit 1 n) else drop_bit 1 n)"
proof -
  have *: "n AND 1 = of_bool (bit n 0)" by (simp add: and_one_eq mod_2_eq_odd bit_0)
  have "NOT (1::'a word) + 1 = -1" "NOT (0::'a word) + 1 = 0"
    by (simp_all only: minus_eq_not_plus_1 [symmetric]) simp
  then show ?thesis unfolding * by (cases "bit n 0") simp_all
qed

lemma zigzag_roundtrip:
  fixes n :: "'a::len word"
  assumes "LENGTH('a) = Suc k"
  defines "e \<equiv> push_bit 1 n XOR signed_drop_bit k n"
  shows "drop_bit 1 e XOR (NOT (e AND 1) + 1) = n"
proof -
  have e: "e = (if bit n k then NOT (push_bit 1 n) else push_bit 1 n)"
    unfolding e_def by (rule zigzag_encode_cases [OF assms(1)])
  have b0: "bit e 0 = bit n k"
    by (simp add: e bit_not_iff bit_push_bit_iff del: push_bit_Suc)
  show ?thesis
    unfolding zigzag_decode_cases
  proof (rule bit_word_eqI)
    fix i assume "i < LENGTH('a)"
    with assms(1) have "i < k \<or> i = k" by linarith
    then show "bit (if bit e 0 then NOT (drop_bit 1 e) else drop_bit 1 e) i = bit n i"
      unfolding b0 using assms(1)
      by (auto simp: e bit_not_iff bit_drop_bit_eq bit_push_bit_iff simp del: push_bit_Suc
          dest: bit_imp_le_length)
  qed
qed

lemma uint_zigzag:
  fixes n :: "'a::len word"
  assumes "LENGTH('a) = Suc k"
  shows "uint (push_bit 1 n XOR signed_drop_bit k n) =
    (if 0 \<le> sint n then 2 * sint n else - 2 * sint n - 1)"
proof -
  define s where "s = sint n"
  have n: "n = of_int s" by (simp add: s_def)
  have s: "- (2 ^ k) \<le> s" "s < 2 ^ k"
    using sint_greater_eq [of n] sint_less [of n] assms by (simp_all add: s_def)
  have sgn: "bit n k \<longleftrightarrow> s < 0"
    using assms bit_last_iff [of n] by (simp add: s_def)
  have p: "push_bit 1 n = of_int (2 * s)" by (simp add: n)
  have u: "uint (of_int x :: 'a word) = x" if "0 \<le> x" "x < 2 ^ Suc k" for x
    using that assms by (simp add: unsigned_of_int take_bit_int_eq_self)
  have nn: "NOT (of_int (2 * s) :: 'a word) = of_int (- 2 * s - 1)"
    by (simp only: of_int_not_eq [symmetric] not_eq_complement) simp
  show ?thesis
  proof (cases "0 \<le> s")
    case True
    then have "uint (of_int (2 * s) :: 'a word) = 2 * s" using s by (intro u) simp_all
    with True show ?thesis
      unfolding zigzag_encode_cases [OF assms] unfolding sgn p by (simp add: s_def)
  next
    case False
    then have "uint (of_int (- 2 * s - 1) :: 'a word) = - 2 * s - 1"
      using s by (intro u) simp_all
    with False show ?thesis
      unfolding zigzag_encode_cases [OF assms] unfolding sgn p nn by (simp add: s_def [symmetric])
  qed
qed

lemma ZigZagDecode64_Encode64 [simp]: "ZigZagDecode64 (ZigZagEncode64 n) = n"
  unfolding ZigZagDecode64_def ZigZagEncode64_def by (rule zigzag_roundtrip) simp

lemma uint_ZigZagEncode64:
  "uint (ZigZagEncode64 n) = (if 0 \<le> sint n then 2 * sint n else - 2 * sint n - 1)"
  unfolding ZigZagEncode64_def by (rule uint_zigzag) simp

lemma ZigZagDecode32_Encode32 [simp]: "ZigZagDecode32 (ZigZagEncode32 n) = n"
  unfolding ZigZagDecode32_def ZigZagEncode32_def by (rule zigzag_roundtrip) simp

section \<open>Varints as base-128 numbers\<close>

fun varint :: "nat \<Rightarrow> byte list" where
  "varint n = (if n < 128 then [of_nat n] else of_nat (n mod 128 + 128) # varint (n div 128))"

declare varint.simps [simp del] WriteVarUint64_loop.simps [simp del]

lemma byte_and_127: "(b::byte) AND 127 = of_nat (unat b mod 128)"
proof -
  have "(b::byte) AND 127 = take_bit 7 b"
    by (simp add: take_bit_eq_mask mask_numeral)
  also have "\<dots> = of_nat (unat b mod 128)"
    by (simp add: take_bit_eq_mod word_arith_nat_mod)
  finally show ?thesis .
qed

lemma ex_pow_128: "\<exists>k. k = 7 \<and> (128::byte) = 2 ^ k"
  by simp

lemma byte_or_128: "(b::byte) OR 128 = of_nat (unat b mod 128 + 128)"
proof -
  obtain k where k: "k = 7" "(128::byte) = 2 ^ k" using ex_pow_128 by blast
  then have ge: "\<not> k < 7" "k < 8" by simp_all
  have "take_bit 7 b + 128 = take_bit 7 b OR 128"
    unfolding k(2)
    by (rule disjunctive_add_eq_or, rule bit_word_eqI) (auto simp: ge bit_simps)
  also have "\<dots> = b OR 128"
    unfolding k(2)
  proof (rule bit_word_eqI)
    fix n assume "n < LENGTH(8)"
    with k(1) have "n = k \<or> n < 7 \<and> n \<noteq> k" by auto
    then show "bit (take_bit 7 b OR 2 ^ k) n = bit (b OR 2 ^ k) n"
      by (auto simp: bit_or_iff bit_take_bit_iff bit_exp_iff ge)
  qed
  finally have "b OR 128 = take_bit 7 b + 128" ..
  then show ?thesis by (simp add: take_bit_eq_mod word_arith_nat_mod)
qed

lemma byte_and_128: "(b::byte) AND 128 = 0 \<longleftrightarrow> unat b < 128"
proof -
  obtain k where k: "k = 7" "(128::byte) = 2 ^ k" using ex_pow_128 by blast
  have "(b::byte) AND 128 = 0 \<longleftrightarrow> \<not> bit b k"
    unfolding k(2) by (rule and_exp_eq_0_iff_not_bit)
  also have "\<dots> \<longleftrightarrow> unat b < 128"
  proof -
    have "unat b < 256" using unsigned_less [of b] by simp
    have "bit b k = bit (unat b) k" by (simp add: bit_unsigned_iff)
    also have "\<dots> = odd (unat b div 128)" by (simp add: bit_iff_odd k(1))
    finally have "bit b k = odd (unat b div 128)" .
    moreover have "unat b div 128 = 0 \<or> unat b div 128 = 1"
      using \<open>unat b < 256\<close> by linarith
    ultimately show ?thesis by auto
  qed
  finally show ?thesis .
qed

lemma varint_not_Nil [simp]: "varint n \<noteq> []"
  by (subst varint.simps) simp

lemma ucast_or_128: "(ucast (v::u64) :: byte) OR 128 = of_nat (unat v mod 128 + 128)"
  by (simp add: byte_or_128 unsigned_ucast_eq take_bit_eq_mod mod_mod_cancel)

lemma ucast_small: "unat (v::u64) < 128 \<Longrightarrow> (ucast v :: byte) = of_nat (unat v)"
  by (simp add: unsigned_of_nat word_of_nat_eq_iff)

lemma le_128: "(128::u64) \<le> w \<longleftrightarrow> 128 \<le> unat w" "w < (128::u64) \<longleftrightarrow> unat w < 128"
  by (simp_all add: word_le_nat_alt word_less_nat_alt)

lemma WriteVarUint64_loop_snoc:
  "WriteVarUint64_loop (xs @ [b]) v =
     (if 128 \<le> unat (drop_bit 7 v)
      then WriteVarUint64_loop ((xs @ [b OR 128]) @ [ucast (drop_bit 7 v)]) (drop_bit 7 v)
      else xs @ [b OR 128, ucast (drop_bit 7 v)])"
  by (subst WriteVarUint64_loop.simps)
    (simp only: Let_def le_128 butlast_snoc last_snoc append_assoc append_Cons append_Nil)

lemma varint_step:
  "128 \<le> unat v \<Longrightarrow>
   varint (unat v) = (ucast (v::u64) OR 128) # varint (unat (drop_bit 7 v))"
  by (subst varint.simps) (simp only: unat_drop_bit_7 ucast_or_128 if_not_P not_less [symmetric] not_not if_False)

lemma varint_small: "unat v < 128 \<Longrightarrow> varint (unat v) = [ucast (v::u64)]"
  by (subst varint.simps) (simp only: ucast_small if_True)

lemma WriteVarUint64_loop_eq:
  "128 \<le> unat v \<Longrightarrow>
   WriteVarUint64_loop (xs @ [ucast v]) v = xs @ varint (unat v)"
proof (induction "unat v" arbitrary: v xs rule: less_induct)
  case less
  let ?w = "drop_bit 7 v"
  show ?case
  proof (cases "128 \<le> unat ?w")
    case True
    then have "unat ?w < unat v" by (simp add: unat_drop_bit_7 del: drop_bit_numeral_bit1)
    from less.hyps [OF this True, of "xs @ [ucast v OR 128]"] show ?thesis
      by (subst WriteVarUint64_loop_snoc)
        (simp only: True if_True varint_step [OF less.prems]
          append_assoc append_Cons append_Nil)
  next
    case False
    then have "varint (unat ?w) = [ucast ?w]"
      by (intro varint_small) (simp only: not_le)
    then show ?thesis
      by (subst WriteVarUint64_loop_snoc) (simp only: False if_False varint_step [OF less.prems])
  qed
qed

lemma WriteVarUint64_eq_varint: "WriteVarUint64 v = varint (unat v)"
proof (cases "unat v < 128")
  case True
  then show ?thesis
    by (simp only: WriteVarUint64_def Let_def le_128 if_True varint_small)
next
  case False
  then have ge: "128 \<le> unat v" by simp
  let ?w = "drop_bit 7 v"
  show ?thesis
  proof (cases "unat ?w < 128")
    case True
    then show ?thesis
      by (simp only: WriteVarUint64_def Let_def le_128 False if_False if_True varint_step [OF ge]
          varint_small [OF True])
  next
    case False2: False
    then have "128 \<le> unat ?w" by (simp only: not_less)
    from WriteVarUint64_loop_eq [OF this, of "[ucast v OR 0x80]"] show ?thesis
      by (simp only: WriteVarUint64_def Let_def le_128 False False2 if_False varint_step [OF ge]
          append_Cons append_Nil)
  qed
qed

text \<open>The number that a byte string denotes, and the strings that are varints.\<close>

fun vval :: "byte list \<Rightarrow> nat" where
  "vval [] = 0"
| "vval (b # bs) = unat b mod 128 + 128 * vval bs"

definition is_varint :: "byte list \<Rightarrow> bool" where
  "is_varint bs \<longleftrightarrow>
     bs \<noteq> [] \<and> (\<forall>b\<in>set (butlast bs). 128 \<le> unat b) \<and> unat (last bs) < 128"

lemma is_varint_Cons:
  "is_varint (b # bs) \<longleftrightarrow> (if bs = [] then unat b < 128 else 128 \<le> unat b \<and> is_varint bs)"
  by (auto simp: is_varint_def)

lemma unat_of_nat_byte: "n < 256 \<Longrightarrow> unat (of_nat n :: byte) = n"
  by (simp add: unsigned_of_nat take_bit_eq_mod)

lemma varint_facts: "is_varint (varint n) \<and> vval (varint n) = n"
proof (induction n rule: varint.induct)
  case (1 n)
  show ?case
  proof (cases "n < 128")
    case True
    then show ?thesis
      by (simp add: varint.simps [of n] is_varint_Cons unat_of_nat_byte)
  next
    case False
    have "unat (of_nat (n mod 128 + 128) :: byte) = n mod 128 + 128"
      by (rule unat_of_nat_byte) (use mod_less_divisor [of 128 n] in linarith)
    with False 1 show ?thesis
      by (simp add: varint.simps [of n] is_varint_Cons)
  qed
qed

lemma length_varint: "0 < k \<Longrightarrow> n < 128 ^ k \<Longrightarrow> length (varint n) \<le> k"
proof (induction k arbitrary: n)
  case (Suc k)
  show ?case
  proof (cases "n < 128")
    case True
    then show ?thesis by (simp add: varint.simps [of n])
  next
    case False
    with Suc.prems have "k \<noteq> 0" by (cases k) auto
    moreover have "n div 128 < 128 ^ k" using Suc.prems by (simp add: less_mult_imp_div_less mult.commute)
    ultimately show ?thesis using Suc.IH [of "n div 128"] False by (simp add: varint.simps [of n])
  qed
qed simp

lemma last_varint: "unat (last (varint n)) = n div 128 ^ (length (varint n) - 1)"
proof (induction n rule: varint.induct)
  case (1 n)
  show ?case
  proof (cases "n < 128")
    case True
    then show ?thesis by (simp add: varint.simps [of n] unat_of_nat_byte)
  next
    case False
    have "length (varint (n div 128)) \<noteq> 0" by simp
    then obtain l where l: "length (varint (n div 128)) = Suc l" by (cases "length (varint (n div 128))") auto
    from False 1 have "unat (last (varint (n div 128))) = n div 128 div 128 ^ l" by (simp add: l)
    with False show ?thesis
      by (simp add: varint.simps [of n] l div_mult2_eq)
  qed
qed

lemma vval_sum: "vval bs = (\<Sum>i<length bs. unat (bs ! i) mod 128 * 128 ^ i)"
proof (induction bs)
  case (Cons b bs)
  then show ?case
    by (simp add: sum.lessThan_Suc_shift sum_distrib_left ac_simps del: sum.lessThan_Suc)
qed simp

lemma foldl_plus: "foldl (\<lambda>r i. r + f i) (a::'a::comm_monoid_add) xs = a + sum_list (map f xs)"
  by (induction xs arbitrary: a) (simp_all add: ac_simps)

lemma nth_last_append: "bs \<noteq> [] \<Longrightarrow> (bs @ rest) ! (length bs - 1) = last bs"
  by (cases bs rule: rev_cases) simp_all

lemma is_varint_last: "is_varint bs \<Longrightarrow> bs \<noteq> [] \<and> unat (last bs) < 128"
  by (simp add: is_varint_def)

lemma ReadVarUintKnownSize_eq:
  assumes "is_varint bs"
  shows "ReadVarUintKnownSize (length bs) (bs @ rest) = of_nat (vval bs)"
proof -
  obtain n where n: "length bs = Suc n" using assms by (cases bs) (auto simp: is_varint_def)
  have push: "push_bit (7 * i) (x::u64) = x * of_nat (128 ^ i)" for i x
    by (simp add: push_bit_eq_mult power_mult)
  have hi: "128 \<le> unat (bs ! i)" if "i < n" for i
  proof -
    have "butlast bs ! i \<in> set (butlast bs)" using that n by (intro nth_mem) simp
    with that n assms show ?thesis by (simp add: nth_butlast is_varint_def)
  qed
  have lo: "unat (bs ! n) < 128"
    using is_varint_last [OF assms] n nth_last_append [of bs "[]"] by simp
  have el: "(ucast (bs ! i) - 0x80 :: u64) = of_nat (unat (bs ! i) mod 128)" if "i < n" for i
  proof -
    have "unat (bs ! i) < 256" using unsigned_less [of "bs ! i"] by simp
    then have "unat (bs ! i) mod 128 = unat (bs ! i) - 128" using hi [OF that]
      by (simp add: mod_if)
    then show ?thesis using hi [OF that] by (simp add: of_nat_diff unsigned_of_nat)
  qed
  have "ReadVarUintKnownSize (length bs) (bs @ rest) =
      ucast (bs ! n) * of_nat (128 ^ n) +
      (\<Sum>i\<leftarrow>[0..<n]. (ucast (bs ! i) - 0x80) * of_nat (128 ^ i))"
    unfolding ReadVarUintKnownSize_def foldl_plus push
    by (auto simp: n nth_append intro!: arg_cong [where f = sum_list] map_cong)
  also have "(\<Sum>i\<leftarrow>[0..<n]. (ucast (bs ! i) - 0x80) * of_nat (128 ^ i)) =
      (\<Sum>i\<leftarrow>[0..<n]. of_nat (unat (bs ! i) mod 128 * 128 ^ i) :: u64)"
    by (rule arg_cong [where f = sum_list], rule map_cong) (simp_all add: el)
  also have "\<dots> = of_nat (\<Sum>i<n. unat (bs ! i) mod 128 * 128 ^ i)"
    by (simp add: interv_sum_list_conv_sum_set_nat atLeast0LessThan)
  also have "(ucast (bs ! n) :: u64) = of_nat (unat (bs ! n) mod 128)"
    using lo by simp
  finally show ?thesis
    by (simp add: vval_sum n ac_simps)
qed

lemma READ_VARUINT_STEPS_7:
  assumes "is_varint bs" "k \<le> length bs" "0 < k"
  shows "READ_VARUINT_STEPS (map (\<lambda>s. (s, 0x80)) [k..<k + d] @ tail) msg (bs @ rest) =
     (if length bs < k + d then Inr (of_nat (vval bs), length bs)
      else READ_VARUINT_STEPS tail msg (bs @ rest))"
  using assms(2,3)
proof (induction d arbitrary: k)
  case (Suc d)
  have *: "[k..<k + Suc d] = k # [Suc k..<Suc k + d]"
    by (subst upt_conv_Cons) simp_all
  show ?case
  proof (cases "length bs = k")
    case True
    have "unat ((bs @ rest) ! (k - 1)) < 128"
      using is_varint_last [OF assms(1)] nth_last_append [of bs rest] True by simp
    with True ReadVarUintKnownSize_eq [OF assms(1), of rest] show ?thesis
      unfolding * by (simp del: upt_Suc)
  next
    case False
    with Suc.prems have lt: "k < length bs" by simp
    have "butlast bs ! (k - 1) \<in> set (butlast bs)"
      using lt \<open>0 < k\<close> by (intro nth_mem) auto
    then have "\<not> unat ((bs @ rest) ! (k - 1)) < 128"
      using assms(1) lt \<open>0 < k\<close> by (auto simp: nth_append nth_butlast is_varint_def)
    with lt Suc.IH [of "Suc k"] show ?thesis
      unfolding * by (simp del: upt_Suc)
  qed
qed simp

lemma ReadVarUint64_steps:
  "ReadVarUint64 input =
     READ_VARUINT_STEPS (map (\<lambda>s. (s, 0x80)) [1..<1 + 9] @ [(10, 2)])
       ''Value is too big for varuint64'' input"
  by (simp add: ReadVarUint64_def upt_conv_Cons eval_nat_numeral del: READ_VARUINT_STEPS.simps)

lemma READ_VARUINT_STEPS_last:
  assumes "is_varint bs" "length bs = sz"
  shows "READ_VARUINT_STEPS [(sz, bound)] msg (bs @ rest) =
     (if unat (last bs) < bound then Inr (of_nat (vval bs), length bs) else Inl (Thrown msg))"
proof -
  have "bs \<noteq> []" using assms(1) by (simp add: is_varint_def)
  then have "(bs @ rest) ! (sz - 1) = last bs"
    using assms(2) nth_last_append by blast
  then show ?thesis
    using ReadVarUintKnownSize_eq [OF assms(1), of rest] assms(2) by simp
qed

lemma length_WriteVarUint64:
  "1 \<le> length (WriteVarUint64 v)" "length (WriteVarUint64 v) \<le> 10"
proof -
  show "1 \<le> length (WriteVarUint64 v)"
    by (simp add: WriteVarUint64_eq_varint Suc_le_eq)
  have "unat v < 2 ^ 64" using unsigned_less [of v] by simp
  then have "unat v < 128 ^ 10" by simp
  then show "length (WriteVarUint64 v) \<le> 10"
    by (simp add: WriteVarUint64_eq_varint length_varint)
qed

lemma ReadVarUint64_Write:
  "ReadVarUint64 (WriteVarUint64 v @ rest) = Inr (v, length (WriteVarUint64 v))"
proof -
  let ?bs = "varint (unat v)"
  have bs: "is_varint ?bs" "vval ?bs = unat v" using varint_facts by blast+
  have len: "1 \<le> length ?bs" "length ?bs \<le> 10"
    using length_WriteVarUint64 [of v] by (simp_all add: WriteVarUint64_eq_varint)
  have eq: "ReadVarUint64 (?bs @ rest) =
      (if length ?bs < 10 then Inr (v, length ?bs)
       else READ_VARUINT_STEPS [(10, 2)] ''Value is too big for varuint64'' (?bs @ rest))"
    using READ_VARUINT_STEPS_7 [OF bs(1) len(1), of 9 "[(10, 2)]" _ rest]
    unfolding ReadVarUint64_steps by (simp only: bs(2)) simp
  show ?thesis
  proof (cases "length ?bs < 10")
    case True
    then show ?thesis by (simp only: eq if_True WriteVarUint64_eq_varint)
  next
    case False
    with len have l10: "length ?bs = 10" by simp
    have "unat v < 2 ^ 64" using unsigned_less [of v] by simp
    then have lt2: "unat (last ?bs) < 2"
      by (simp add: last_varint l10 less_mult_imp_div_less)
    have "READ_VARUINT_STEPS [(10, 2)] msg (?bs @ rest) = Inr (v, length ?bs)" for msg
      using READ_VARUINT_STEPS_last [OF bs(1) l10, of 2 msg rest] lt2
      by (simp only: if_True bs(2)) simp
    with False show ?thesis by (simp only: eq if_False WriteVarUint64_eq_varint)
  qed
qed

text \<open>The byte-wise reader.\<close>

lemma or_push_bit:
  assumes "r < 128 ^ c"
  shows "(of_nat r :: u64) OR push_bit (7 * c) (of_nat x) = of_nat (r + 128 ^ c * x)"
proof -
  have p: "(128::nat) ^ c = 2 ^ (7 * c)" by (simp add: power_mult)
  have "(of_nat r :: u64) = take_bit (7 * c) (of_nat r)"
    using assms unfolding p by (metis of_nat_take_bit take_bit_nat_eq_self)
  then have "(of_nat r :: u64) AND push_bit (7 * c) (of_nat x) =
      take_bit (7 * c) (of_nat r) AND push_bit (7 * c) (of_nat x)" by simp
  also have "\<dots> = 0"
    by (rule bit_word_eqI) (auto simp: bit_and_iff bit_take_bit_iff bit_push_bit_iff)
  finally have "of_nat r OR push_bit (7 * c) (of_nat x) =
      (of_nat r :: u64) + push_bit (7 * c) (of_nat x)"
    by (simp add: disjunctive_add_eq_or)
  moreover have "push_bit (7 * c) (of_nat x :: u64) = of_nat (128 ^ c * x)"
    by (simp add: push_bit_eq_mult p)
  ultimately show ?thesis by simp
qed

lemma ucast_and_127: "(ucast ((b::byte) AND 127) :: u64) = of_nat (unat b mod 128)"
proof -
  have "unat (b AND 127) = unat b mod 128"
    unfolding byte_and_127 by (rule unat_of_nat_byte) (use mod_less_divisor [of 128 "unat b"] in linarith)
  then show ?thesis by (metis of_nat_unat)
qed

lemma ReadVarUint64_next_eq:
  assumes "is_varint bs" "r < 128 ^ c" "c + length bs \<le> 10"
  shows "ReadVarUint64_next eof c (of_nat r) (bs @ rest) =
    Inr (of_nat (r + 128 ^ c * vval bs), c + length bs)"
  using assms
proof (induction bs arbitrary: r c)
  case Nil
  then show ?case by (simp add: is_varint_def)
next
  case (Cons b bs)
  let ?r = "r + 128 ^ c * (unat b mod 128)"
  have "128 ^ c * (unat b mod 128) \<le> 128 ^ c * 127"
    by (intro mult_le_mono2) (use mod_less_divisor [of 128 "unat b"] in linarith)
  then have r: "?r < 128 ^ Suc c" using Cons.prems(2) by (simp only: power_Suc)
  have e: "(of_nat r :: u64) OR push_bit (7 * c) (ucast (b AND 127)) = of_nat ?r"
    unfolding ucast_and_127 by (rule or_push_bit [OF Cons.prems(2)])
  show ?case
  proof (cases "bs = []")
    case True
    with Cons.prems show ?thesis
      by (simp add: e MaxVarUint64Size_def is_varint_Cons byte_and_128 Let_def del: of_nat_add)
  next
    case False
    with Cons.prems have b: "\<not> unat b < 128" "is_varint bs" "Suc c + length bs \<le> 10"
      by (simp_all add: is_varint_Cons)
    have "ReadVarUint64_next eof c (of_nat r) ((b # bs) @ rest) =
        ReadVarUint64_next eof (Suc c) (of_nat ?r) (bs @ rest)"
      using b by (simp add: e MaxVarUint64Size_def byte_and_128 Let_def del: of_nat_add)
    also have "\<dots> = Inr (of_nat (?r + 128 ^ Suc c * vval bs), Suc c + length bs)"
      by (rule Cons.IH [OF b(2) r b(3)])
    finally show ?thesis by (simp add: algebra_simps)
  qed
qed

lemma ReadVarUint64_next_Write:
  "ReadVarUint64_next eof 0 0 (WriteVarUint64 v @ rest) = Inr (v, length (WriteVarUint64 v))"
  using ReadVarUint64_next_eq [of "varint (unat v)" 0 0 eof rest] varint_facts [of "unat v"]
    length_WriteVarUint64 [of v]
  by (simp add: WriteVarUint64_eq_varint)

lemma is_varint_take:
  assumes "0 < k" "k \<le> length input" "\<forall>i<k - 1. 128 \<le> unat (input ! i)"
    and "unat (input ! (k - 1)) < 128"
  shows "is_varint (take k input)"
proof -
  have "last (take k input) = input ! (k - 1)"
    using assms(1,2) by (subst last_conv_nth) auto
  then show ?thesis
    using assms by (auto simp: is_varint_def butlast_take in_set_conv_nth)
qed

lemma ReadVarUintKnownSize_take:
  assumes "is_varint (take k input)" "k \<le> length input"
  shows "\<exists>bs rest. input = bs @ rest \<and> is_varint bs \<and> length bs = k \<and>
    ReadVarUintKnownSize k input = of_nat (vval bs)"
  using ReadVarUintKnownSize_eq [of "take k input" "drop k input"] assms
  by (intro exI [of _ "take k input"] exI [of _ "drop k input"]) simp

lemma READ_VARUINT_STEPS_inv:
  assumes "READ_VARUINT_STEPS (map (\<lambda>s. (s, 0x80)) [k..<k + d] @ [(k + d, b)]) msg input = Inr (v, n)"
    and "b \<le> 128" "0 < k" "\<forall>i<k - 1. 128 \<le> unat (input ! i)"
  shows "\<exists>bs rest. input = bs @ rest \<and> is_varint bs \<and> length bs = n \<and> n \<le> k + d \<and> v = of_nat (vval bs)"
  using assms
proof (induction d arbitrary: k)
  case 0
  from 0 have "k \<le> length input" "unat (input ! (k - 1)) < 128"
    and v: "n = k" "v = ReadVarUintKnownSize k input"
    by (auto split: if_splits)
  with 0 show ?case
    using ReadVarUintKnownSize_take [of k input] is_varint_take [of k input] by auto
next
  case (Suc d)
  have *: "[k..<k + Suc d] = k # [Suc k..<Suc k + d]"
    by (subst upt_conv_Cons) simp_all
  show ?case
  proof (cases "unat (input ! (k - 1)) < 128")
    case True
    with Suc.prems(1) have "k \<le> length input" "n = k" "v = ReadVarUintKnownSize k input"
      unfolding * by (auto split: if_splits simp del: upt_Suc)
    with True Suc.prems show ?thesis
      using ReadVarUintKnownSize_take [of k input] is_varint_take [of k input] by auto
  next
    case False
    have "\<forall>i<Suc k - 1. 128 \<le> unat (input ! i)"
    proof (intro allI impI)
      fix i assume "i < Suc k - 1"
      then have "i < k - 1 \<or> i = k - 1" using Suc.prems(3) by linarith
      then show "128 \<le> unat (input ! i)" using Suc.prems(4) False by auto
    qed
    moreover from Suc.prems(1) False
    have "READ_VARUINT_STEPS (map (\<lambda>s. (s, 0x80)) [Suc k..<Suc k + d] @ [(Suc k + d, b)])
        msg input = Inr (v, n)"
      unfolding * by (auto split: if_splits simp del: upt_Suc)
    ultimately show ?thesis
      using Suc.IH [of "Suc k"] Suc.prems(2) by simp
  qed
qed

lemma ReadVarUint64_inv:
  assumes "ReadVarUint64 input = Inr (v, n)"
  shows "\<exists>bs rest. input = bs @ rest \<and> is_varint bs \<and> length bs = n \<and> n \<le> 10 \<and> v = of_nat (vval bs)"
  using READ_VARUINT_STEPS_inv [of 1 9 2 _ input v n] assms unfolding ReadVarUint64_steps
  by (simp del: READ_VARUINT_STEPS.simps)

lemma ReadVarUint64_imp_next:
  assumes "ReadVarUint64 input = Inr (v, n)"
  shows "ReadVarUint64_next eof 0 0 input = Inr (v, n)"
proof -
  from ReadVarUint64_inv [OF assms] obtain bs rest where
    "input = bs @ rest" "is_varint bs" "length bs = n" "n \<le> 10" "v = of_nat (vval bs)" by blast
  with ReadVarUint64_next_eq [of bs 0 0 eof rest] show ?thesis by simp
qed

lemma ReadVarUint32_steps:
  "ReadVarUint32 input =
     rbind (READ_VARUINT_STEPS (map (\<lambda>s. (s, 0x80)) [1..<1 + 4] @ [(5, 0x10)])
       ''Value is too big for varuint32'' input) (\<lambda>(v, sz). Inr (ucast v, sz))"
  by (simp add: ReadVarUint32_def upt_conv_Cons eval_nat_numeral del: READ_VARUINT_STEPS.simps)

lemma length_WriteVarUint32:
  "1 \<le> length (WriteVarUint32 v)" "length (WriteVarUint32 v) \<le> 5"
proof -
  show "1 \<le> length (WriteVarUint32 v)"
    by (simp add: WriteVarUint32_def WriteVarUint64_eq_varint Suc_le_eq)
  have "unat v < 2 ^ 32" using unsigned_less [of v] by simp
  then have "unat (ucast v :: u64) < 128 ^ 5" by (simp add: unsigned_ucast_eq take_bit_nat_eq_self)
  then show "length (WriteVarUint32 v) \<le> 5"
    by (simp add: WriteVarUint32_def WriteVarUint64_eq_varint length_varint)
qed

lemma ReadVarUint32_Write:
  "ReadVarUint32 (WriteVarUint32 v @ rest) = Inr (v, length (WriteVarUint32 v))"
proof -
  let ?w = "ucast v :: u64"
  let ?bs = "varint (unat ?w)"
  have v32: "unat v < 2 ^ 32" using unsigned_less [of v] by simp
  then have uw: "unat ?w = unat v" by (simp add: unsigned_ucast_eq take_bit_nat_eq_self)
  have bs: "is_varint ?bs" "vval ?bs = unat v" using varint_facts [of "unat ?w"] uw by simp_all
  have castback: "ucast (of_nat (unat v) :: u64) = v"
    by (rule bit_word_eqI) (simp add: bit_unsigned_iff)
  have W: "WriteVarUint32 v = ?bs" by (simp add: WriteVarUint32_def WriteVarUint64_eq_varint)
  have len: "1 \<le> length ?bs" "length ?bs \<le> 5"
    using length_WriteVarUint32 [of v] by (simp_all only: W)
  have eq: "READ_VARUINT_STEPS (map (\<lambda>s. (s, 0x80)) [1..<1 + 4] @ [(5, 0x10)]) msg (?bs @ rest) =
      (if length ?bs < 5 then Inr (of_nat (unat v), length ?bs)
       else READ_VARUINT_STEPS [(5, 0x10)] msg (?bs @ rest))" for msg
    using READ_VARUINT_STEPS_7 [OF bs(1) len(1), of 4 "[(5, 0x10)]" msg rest]
    by (simp only: bs(2)) simp
  show ?thesis
  proof (cases "length ?bs < 5")
    case True
    then show ?thesis
      by (simp only: ReadVarUint32_steps W eq if_True rbind_Inr prod.case castback)
  next
    case False
    with len have l5: "length ?bs = 5" by simp
    have lt: "unat (last ?bs) < 16"
      unfolding last_varint unfolding l5 unfolding uw using v32 by (simp add: less_mult_imp_div_less)
    show ?thesis
      by (simp only: ReadVarUint32_steps W eq False if_False if_True rbind_Inr prod.case castback
          READ_VARUINT_STEPS_last [OF bs(1) l5] lt bs(2))
  qed
qed

section \<open>The varint codecs\<close>

interpretation varuint64: codec WriteVarUint64 ReadVarUint64 "\<lambda>_. True"
  by unfold_locales (rule ReadVarUint64_Write)

interpretation varuint64_stream: codec WriteVarUint64 ReadVarUint64_stream "\<lambda>_. True"
  by unfold_locales (simp add: ReadVarUint64_stream_def ReadVarUint64_next_Write)

lemma ReadVarUint64_bounded_Write:
  "ReadVarUint64_bounded (WriteVarUint64 v @ rest) = Inr (v, length (WriteVarUint64 v))"
  by (simp add: ReadVarUint64_bounded_def ReadVarUint64_Write ReadVarUint64Fallback_def
      ReadVarUint64_next_Write)

interpretation varuint64_bounded: codec WriteVarUint64 ReadVarUint64_bounded "\<lambda>_. True"
  by unfold_locales (rule ReadVarUint64_bounded_Write)

interpretation varuint32: codec WriteVarUint32 ReadVarUint32 "\<lambda>_. True"
  by unfold_locales (rule ReadVarUint32_Write)

text \<open>A zig-zag codec over any of the 64-bit readers.\<close>

lemma ReadVarInt64Impl_Write:
  "(\<And>u. rd (WriteVarUint64 u @ rest) = Inr (u, length (WriteVarUint64 u))) \<Longrightarrow>
   ReadVarInt64Impl rd (WriteVarInt64 v @ rest) = Inr (v, length (WriteVarInt64 v))"
  by (simp add: ReadVarInt64Impl_def WriteVarInt64_def)

lemma ucast_le_max: "\<not> (0xFFFFFFFF :: u64) < ucast (v::u32)"
proof -
  have v: "unat v < 2 ^ 32" using unsigned_less [of v] by simp
  then have "unat (ucast v :: u64) = unat v"
    by (simp add: unsigned_ucast_eq take_bit_nat_eq_self)
  with v show ?thesis by (simp add: word_less_nat_alt)
qed

lemma ucast_ucast_u32: "ucast (ucast (v::u32) :: u64) = v"
  by (rule bit_word_eqI) (simp add: bit_unsigned_iff)

lemma ReadVarInt32Impl_Write:
  "(\<And>u. rd (WriteVarUint64 u @ rest) = Inr (u, length (WriteVarUint64 u))) \<Longrightarrow>
   ReadVarInt32Impl rd (WriteVarInt32 v @ rest) = Inr (v, length (WriteVarInt32 v))"
  by (simp add: ReadVarInt32Impl_def WriteVarInt32_def ucast_le_max ucast_ucast_u32)

interpretation varint64: codec WriteVarInt64 ReadVarInt64 "\<lambda>_. True"
  by unfold_locales (simp add: ReadVarInt64_def ReadVarInt64Impl_Write ReadVarUint64_Write)

interpretation varint32: codec WriteVarInt32 ReadVarInt32 "\<lambda>_. True"
  by unfold_locales (simp add: ReadVarInt32_def ReadVarInt32Impl_Write ReadVarUint64_Write)

section \<open>Properties\<close>

text \<open>C25. Every reader of a 64-bit varint (the unrolled one over a pointer, the byte-wise one
  over a stream, the bounded one over a pointer pair) returns exactly the written value and
  the written length, whatever bytes follow; a varint takes between one and ten bytes.\<close>

theorem varuint64_roundtrip:
  "ReadVarUint64 (WriteVarUint64 v @ rest) = Inr (v, length (WriteVarUint64 v)) \<and>
   ReadVarUint64_stream (WriteVarUint64 v @ rest) = Inr (v, length (WriteVarUint64 v)) \<and>
   ReadVarUint64_bounded (WriteVarUint64 v @ rest) = Inr (v, length (WriteVarUint64 v)) \<and>
   length (WriteVarUint64 v) \<in> {1..MaxVarUint64Size}"
  using length_WriteVarUint64 [of v]
  by (simp add: varuint64.dec_enc varuint64_stream.dec_enc varuint64_bounded.dec_enc
      MaxVarUint64Size_def)

text \<open>The unrolled fast path is an optimisation of the byte-wise reader: whenever it
  accepts, the byte-wise reader accepts with the same value and the same length.\<close>

theorem varuint64_fast_path_agrees:
  assumes "ReadVarUint64 input = Inr (v, n)"
  shows "ReadVarUint64_stream input = Inr (v, n) \<and> n \<le> length input"
  using ReadVarUint64_imp_next [OF assms] ReadVarUint64_inv [OF assms]
  by (auto simp: ReadVarUint64_stream_def)

theorem varuint64_fast_path_agrees_witness:
  "ReadVarUint64 [0xAC, 0x02, 0x07] = Inr (300, 2) \<and>
   ReadVarUint64_stream [0xAC, 0x02, 0x07] = Inr (300, 2)"
proof -
  have h: "ReadVarUint64 [0xAC, 0x02, 0x07] = Inr (300, 2)"
    by (simp add: ReadVarUint64_def ReadVarUintKnownSize_def)
  from varuint64_fast_path_agrees [OF h] h show ?thesis by simp
qed

text \<open>The converse fails: a ten-byte input whose last byte carries bits beyond the 64th is
  rejected by the pointer reader but accepted by the stream reader, which drops those bits.\<close>

theorem varuint64_stream_accepts_overflow:
  "ReadVarUint64 (replicate 9 0x80 @ [0x02]) = Inl (Thrown ''Value is too big for varuint64'') \<and>
   ReadVarUint64_stream (replicate 9 0x80 @ [0x02]) = Inr (0, 10)"
  by code_simp

text \<open>Zig-zag coding maps a signed integer to an unsigned one at most twice its absolute
  value, and decoding inverts it; so a signed varint is read back unchanged.\<close>

theorem zigzag64_small_and_invertible:
  "0 \<le> uint (ZigZagEncode64 n) \<and> uint (ZigZagEncode64 n) \<le> 2 * \<bar>sint n\<bar> \<and>
   ZigZagDecode64 (ZigZagEncode64 n) = n \<and>
   ReadVarInt64 (WriteVarInt64 n @ rest) = Inr (n, length (WriteVarInt64 n)) \<and>
   ReadVarInt32 (WriteVarInt32 m @ rest) = Inr (m, length (WriteVarInt32 m))"
  by (auto simp: uint_ZigZagEncode64 varint64.dec_enc varint32.dec_enc)

end
