(* ===== verification/YsonSyntax.thy ===== *)
theory YsonSyntax
  imports Prelude
begin

text \<open>
  The YSON syntax checker: \<open>TYsonSyntaxChecker\<close> of \<open>yt/yt/core/yson/syntax_checker.h\<close>,
  \<open>syntax_checker-inl.h\<close> and \<open>syntax_checker.cpp\<close>, a pushdown automaton that the pull parser
  and the checked token writer feed with one call per token.

  The second half gives the grammar of YSON as an inductive relation between trees and
  token sequences, and shows that the automaton accepts exactly the token sequences of
  trees whose nesting stays below the limit, for each of the three stream kinds.
\<close>

section \<open>States\<close>

datatype EYsonItemType =
    EndOfStream | BeginMap | EndMap | BeginAttributes | EndAttributes | BeginList | EndList
  | EntityValue | BooleanValue | Int64Value | Uint64Value | DoubleValue | StringValue

datatype EYsonType = Node | ListFragment | MapFragment

datatype EYsonState =
    Terminated | ExpectValue | ExpectAttributelessValue
  | InsideListFragmentExpectAttributelessValue | InsideListFragmentExpectValue
  | InsideListFragmentExpectSeparator
  | InsideMapFragmentExpectKey | InsideMapFragmentExpectEquality
  | InsideMapFragmentExpectAttributelessValue | InsideMapFragmentExpectValue
  | InsideMapFragmentExpectSeparator
  | InsideMapExpectKey | InsideMapExpectEquality | InsideMapExpectAttributelessValue
  | InsideMapExpectValue | InsideMapExpectSeparator
  | InsideAttributeMapExpectKey | InsideAttributeMapExpectEquality
  | InsideAttributeMapExpectAttributelessValue | InsideAttributeMapExpectValue
  | InsideAttributeMapExpectSeparator
  | InsideListExpectAttributelessValue | InsideListExpectValue | InsideListExpectSeparator

text \<open>The head of \<open>StateStack\<close> (the member \<open>StateStack_\<close>) is the \<open>back()\<close> of the vector.\<close>

record TYsonSyntaxChecker =
  StateStack :: "EYsonState list"
  NestingLevel :: u32
  NestingLevelLimit :: u32

definition mk_TYsonSyntaxChecker :: "EYsonType \<Rightarrow> u32 \<Rightarrow> TYsonSyntaxChecker" where
  "mk_TYsonSyntaxChecker ysonType nestingLevelLimit =
     \<lparr>StateStack =
        (case ysonType of
           Node \<Rightarrow> [ExpectValue, Terminated]
         | ListFragment \<Rightarrow> [InsideListFragmentExpectValue, Terminated]
         | MapFragment \<Rightarrow> [InsideMapFragmentExpectKey, Terminated]),
      NestingLevel = 0, NestingLevelLimit = nestingLevelLimit\<rparr>"

fun StateExpectationString :: "EYsonState \<Rightarrow> string" where
  "StateExpectationString Terminated = ''no further tokens (yson is completed)''"
| "StateExpectationString ExpectValue = ''value''"
| "StateExpectationString ExpectAttributelessValue = ''value''"
| "StateExpectationString InsideListFragmentExpectAttributelessValue = ''value''"
| "StateExpectationString InsideListFragmentExpectValue = ''value''"
| "StateExpectationString InsideMapFragmentExpectAttributelessValue = ''value''"
| "StateExpectationString InsideMapFragmentExpectValue = ''value''"
| "StateExpectationString InsideMapExpectAttributelessValue = ''value''"
| "StateExpectationString InsideMapExpectValue = ''value''"
| "StateExpectationString InsideAttributeMapExpectAttributelessValue = ''value''"
| "StateExpectationString InsideAttributeMapExpectValue = ''value''"
| "StateExpectationString InsideListExpectAttributelessValue = ''value''"
| "StateExpectationString InsideListExpectValue = ''value''"
| "StateExpectationString InsideMapFragmentExpectKey = ''key''"
| "StateExpectationString InsideMapExpectKey = ''key''"
| "StateExpectationString InsideAttributeMapExpectKey = ''attribute key''"
| "StateExpectationString InsideMapFragmentExpectEquality = ''=''"
| "StateExpectationString InsideMapExpectEquality = ''=''"
| "StateExpectationString InsideAttributeMapExpectEquality = ''=''"
| "StateExpectationString InsideListFragmentExpectSeparator = '';''"
| "StateExpectationString InsideMapFragmentExpectSeparator = '';''"
| "StateExpectationString InsideMapExpectSeparator = '';''"
| "StateExpectationString InsideListExpectSeparator = '';''"
| "StateExpectationString InsideAttributeMapExpectSeparator = '';''"

definition ThrowUnexpectedToken :: "EYsonState \<Rightarrow> string \<Rightarrow> string \<Rightarrow> 'a res" where
  "ThrowUnexpectedToken state token extraMessage =
     Inl (Thrown (''Unexpected '' @ token @ '', expected '' @ StateExpectationString state @
       extraMessage))"

text \<open>A switch over \<open>StateStack_.back()\<close> whose branches rewrite the stack.\<close>

definition on_back ::
  "TYsonSyntaxChecker \<Rightarrow> (EYsonState \<Rightarrow> EYsonState list \<Rightarrow> EYsonState list res) \<Rightarrow>
   TYsonSyntaxChecker res" where
  "on_back c f =
     (case StateStack c of
        [] \<Rightarrow> Inl (Undefined ''back of an empty state stack'')
      | state # below \<Rightarrow> rbind (f state below) (\<lambda>stack. Inr (c\<lparr>StateStack := stack\<rparr>)))"

section \<open>Operations\<close>

definition IncrementNestingLevel :: "TYsonSyntaxChecker \<Rightarrow> TYsonSyntaxChecker res" where
  "IncrementNestingLevel c =
     (let level = NestingLevel c + 1 in
      if level \<ge> NestingLevelLimit c
      then Inl (Thrown ''Depth limit exceeded while parsing YSON'')
      else Inr (c\<lparr>NestingLevel := level\<rparr>))"

definition DecrementNestingLevel :: "TYsonSyntaxChecker \<Rightarrow> TYsonSyntaxChecker res" where
  "DecrementNestingLevel c =
     rbind (verify (NestingLevel c > 0) ''NestingLevel > 0'')
       (\<lambda>_. Inr (c\<lparr>NestingLevel := NestingLevel c - 1\<rparr>))"

definition OnFinish :: "TYsonSyntaxChecker \<Rightarrow> TYsonSyntaxChecker res" where
  "OnFinish c = on_back c (\<lambda>state below. case state of
       Terminated \<Rightarrow> Inr (state # below)
     | InsideListFragmentExpectValue \<Rightarrow> Inr (state # below)
     | InsideListFragmentExpectSeparator \<Rightarrow> Inr (state # below)
     | InsideMapFragmentExpectKey \<Rightarrow> Inr (state # below)
     | InsideMapFragmentExpectSeparator \<Rightarrow> Inr (state # below)
     | _ \<Rightarrow> ThrowUnexpectedToken state ''finish'' '''')"

definition OnEquality :: "TYsonSyntaxChecker \<Rightarrow> TYsonSyntaxChecker res" where
  "OnEquality c = on_back c (\<lambda>state below. case state of
       InsideMapExpectEquality \<Rightarrow> Inr (InsideMapExpectValue # below)
     | InsideAttributeMapExpectEquality \<Rightarrow> Inr (InsideAttributeMapExpectValue # below)
     | InsideMapFragmentExpectEquality \<Rightarrow> Inr (InsideMapFragmentExpectValue # below)
     | _ \<Rightarrow> ThrowUnexpectedToken state ''='' '''')"

definition OnSeparator :: "TYsonSyntaxChecker \<Rightarrow> TYsonSyntaxChecker res" where
  "OnSeparator c = on_back c (\<lambda>state below. case state of
       InsideMapFragmentExpectSeparator \<Rightarrow> Inr (InsideMapFragmentExpectKey # below)
     | InsideMapExpectSeparator \<Rightarrow> Inr (InsideMapExpectKey # below)
     | InsideAttributeMapExpectSeparator \<Rightarrow> Inr (InsideAttributeMapExpectKey # below)
     | InsideListExpectSeparator \<Rightarrow> Inr (InsideListExpectValue # below)
     | InsideListFragmentExpectSeparator \<Rightarrow> Inr (InsideListFragmentExpectValue # below)
     | Terminated \<Rightarrow>
         ThrowUnexpectedToken state '';'' ''; maybe you should use yson_type = list_fragment''
     | _ \<Rightarrow> ThrowUnexpectedToken state '';'' '''')"

definition OnBeginList :: "TYsonSyntaxChecker \<Rightarrow> TYsonSyntaxChecker res" where
  "OnBeginList c = rbind (on_back c (\<lambda>state below. case state of
       ExpectValue \<Rightarrow> Inr (InsideListExpectValue # below)
     | ExpectAttributelessValue \<Rightarrow> Inr (InsideListExpectValue # below)
     | InsideListFragmentExpectValue \<Rightarrow>
         Inr (InsideListExpectValue # InsideListFragmentExpectSeparator # below)
     | InsideListFragmentExpectAttributelessValue \<Rightarrow>
         Inr (InsideListExpectValue # InsideListFragmentExpectSeparator # below)
     | InsideListExpectValue \<Rightarrow> Inr (InsideListExpectValue # InsideListExpectSeparator # below)
     | InsideListExpectAttributelessValue \<Rightarrow>
         Inr (InsideListExpectValue # InsideListExpectSeparator # below)
     | InsideMapFragmentExpectValue \<Rightarrow>
         Inr (InsideListExpectValue # InsideMapFragmentExpectSeparator # below)
     | InsideMapFragmentExpectAttributelessValue \<Rightarrow>
         Inr (InsideListExpectValue # InsideMapFragmentExpectSeparator # below)
     | InsideMapExpectValue \<Rightarrow> Inr (InsideListExpectValue # InsideMapExpectSeparator # below)
     | InsideMapExpectAttributelessValue \<Rightarrow>
         Inr (InsideListExpectValue # InsideMapExpectSeparator # below)
     | InsideAttributeMapExpectAttributelessValue \<Rightarrow>
         Inr (InsideListExpectValue # InsideAttributeMapExpectSeparator # below)
     | InsideAttributeMapExpectValue \<Rightarrow>
         Inr (InsideListExpectValue # InsideAttributeMapExpectSeparator # below)
     | _ \<Rightarrow> ThrowUnexpectedToken state ''['' '''')) IncrementNestingLevel"

definition OnEndList :: "TYsonSyntaxChecker \<Rightarrow> TYsonSyntaxChecker res" where
  "OnEndList c = rbind (on_back c (\<lambda>state below. case state of
       InsideListExpectValue \<Rightarrow> Inr below
     | InsideListExpectSeparator \<Rightarrow> Inr below
     | _ \<Rightarrow> ThrowUnexpectedToken state '']'' '''')) DecrementNestingLevel"

definition OnBeginMap :: "TYsonSyntaxChecker \<Rightarrow> TYsonSyntaxChecker res" where
  "OnBeginMap c = rbind (on_back c (\<lambda>state below. case state of
       ExpectValue \<Rightarrow> Inr (InsideMapExpectKey # below)
     | ExpectAttributelessValue \<Rightarrow> Inr (InsideMapExpectKey # below)
     | InsideListFragmentExpectValue \<Rightarrow>
         Inr (InsideMapExpectKey # InsideListFragmentExpectSeparator # below)
     | InsideListFragmentExpectAttributelessValue \<Rightarrow>
         Inr (InsideMapExpectKey # InsideListFragmentExpectSeparator # below)
     | InsideListExpectValue \<Rightarrow> Inr (InsideMapExpectKey # InsideListExpectSeparator # below)
     | InsideListExpectAttributelessValue \<Rightarrow>
         Inr (InsideMapExpectKey # InsideListExpectSeparator # below)
     | InsideMapFragmentExpectValue \<Rightarrow>
         Inr (InsideMapExpectKey # InsideMapFragmentExpectSeparator # below)
     | InsideMapFragmentExpectAttributelessValue \<Rightarrow>
         Inr (InsideMapExpectKey # InsideMapFragmentExpectSeparator # below)
     | InsideMapExpectValue \<Rightarrow> Inr (InsideMapExpectKey # InsideMapExpectSeparator # below)
     | InsideMapExpectAttributelessValue \<Rightarrow>
         Inr (InsideMapExpectKey # InsideMapExpectSeparator # below)
     | InsideAttributeMapExpectAttributelessValue \<Rightarrow>
         Inr (InsideMapExpectKey # InsideAttributeMapExpectSeparator # below)
     | InsideAttributeMapExpectValue \<Rightarrow>
         Inr (InsideMapExpectKey # InsideAttributeMapExpectSeparator # below)
     | _ \<Rightarrow> ThrowUnexpectedToken state ''{'' '''')) IncrementNestingLevel"

definition OnEndMap :: "TYsonSyntaxChecker \<Rightarrow> TYsonSyntaxChecker res" where
  "OnEndMap c = rbind (on_back c (\<lambda>state below. case state of
       InsideMapExpectKey \<Rightarrow> Inr below
     | InsideMapExpectSeparator \<Rightarrow> Inr below
     | _ \<Rightarrow> ThrowUnexpectedToken state ''}'' '''')) DecrementNestingLevel"

definition OnAttributesBegin :: "TYsonSyntaxChecker \<Rightarrow> TYsonSyntaxChecker res" where
  "OnAttributesBegin c = rbind (on_back c (\<lambda>state below. case state of
       ExpectValue \<Rightarrow> Inr (InsideAttributeMapExpectKey # ExpectAttributelessValue # below)
     | InsideListFragmentExpectValue \<Rightarrow>
         Inr (InsideAttributeMapExpectKey # InsideListFragmentExpectAttributelessValue # below)
     | InsideMapFragmentExpectValue \<Rightarrow>
         Inr (InsideAttributeMapExpectKey # InsideMapFragmentExpectAttributelessValue # below)
     | InsideMapExpectValue \<Rightarrow>
         Inr (InsideAttributeMapExpectKey # InsideMapExpectAttributelessValue # below)
     | InsideAttributeMapExpectValue \<Rightarrow>
         Inr (InsideAttributeMapExpectKey # InsideAttributeMapExpectAttributelessValue # below)
     | InsideListExpectValue \<Rightarrow>
         Inr (InsideAttributeMapExpectKey # InsideListExpectAttributelessValue # below)
     | InsideListFragmentExpectAttributelessValue \<Rightarrow>
         Inl (Thrown ''Value cannot have several attribute maps'')
     | InsideMapFragmentExpectAttributelessValue \<Rightarrow>
         Inl (Thrown ''Value cannot have several attribute maps'')
     | ExpectAttributelessValue \<Rightarrow> Inl (Thrown ''Value cannot have several attribute maps'')
     | InsideMapExpectAttributelessValue \<Rightarrow>
         Inl (Thrown ''Value cannot have several attribute maps'')
     | InsideListExpectAttributelessValue \<Rightarrow>
         Inl (Thrown ''Value cannot have several attribute maps'')
     | InsideAttributeMapExpectAttributelessValue \<Rightarrow>
         Inl (Thrown ''Value cannot have several attribute maps'')
     | _ \<Rightarrow> ThrowUnexpectedToken state ''<'' '''')) IncrementNestingLevel"

definition OnAttributesEnd :: "TYsonSyntaxChecker \<Rightarrow> TYsonSyntaxChecker res" where
  "OnAttributesEnd c = rbind (on_back c (\<lambda>state below. case state of
       InsideAttributeMapExpectKey \<Rightarrow> Inr below
     | InsideAttributeMapExpectSeparator \<Rightarrow> Inr below
     | _ \<Rightarrow> ThrowUnexpectedToken state ''>'' '''')) DecrementNestingLevel"

definition OnSimple :: "bool \<Rightarrow> TYsonSyntaxChecker \<Rightarrow> TYsonSyntaxChecker res" where
  "OnSimple isString c = on_back c (\<lambda>state below. case state of
       ExpectValue \<Rightarrow> Inr below
     | ExpectAttributelessValue \<Rightarrow> Inr below
     | InsideListFragmentExpectValue \<Rightarrow> Inr (InsideListFragmentExpectSeparator # below)
     | InsideListFragmentExpectAttributelessValue \<Rightarrow>
         Inr (InsideListFragmentExpectSeparator # below)
     | InsideListExpectValue \<Rightarrow> Inr (InsideListExpectSeparator # below)
     | InsideListExpectAttributelessValue \<Rightarrow> Inr (InsideListExpectSeparator # below)
     | InsideMapFragmentExpectKey \<Rightarrow>
         if isString then Inr (InsideMapFragmentExpectEquality # below)
         else Inl (Thrown ''Cannot parse key of map fragment'')
     | InsideMapFragmentExpectValue \<Rightarrow> Inr (InsideMapFragmentExpectSeparator # below)
     | InsideMapFragmentExpectAttributelessValue \<Rightarrow>
         Inr (InsideMapFragmentExpectSeparator # below)
     | InsideMapExpectKey \<Rightarrow>
         if isString then Inr (InsideMapExpectEquality # below)
         else Inl (Thrown ''Cannot parse key of map'')
     | InsideMapExpectValue \<Rightarrow> Inr (InsideMapExpectSeparator # below)
     | InsideMapExpectAttributelessValue \<Rightarrow> Inr (InsideMapExpectSeparator # below)
     | InsideAttributeMapExpectKey \<Rightarrow>
         if isString then Inr (InsideAttributeMapExpectEquality # below)
         else Inl (Thrown ''Cannot parse key of attribute map'')
     | InsideAttributeMapExpectAttributelessValue \<Rightarrow>
         Inr (InsideAttributeMapExpectSeparator # below)
     | InsideAttributeMapExpectValue \<Rightarrow> Inr (InsideAttributeMapExpectSeparator # below)
     | _ \<Rightarrow> ThrowUnexpectedToken state ''value'' '''')"

definition OnSimpleNonstring :: "TYsonSyntaxChecker \<Rightarrow> TYsonSyntaxChecker res" where
  "OnSimpleNonstring c = OnSimple False c"

definition OnString :: "TYsonSyntaxChecker \<Rightarrow> TYsonSyntaxChecker res" where
  "OnString c = OnSimple True c"

definition GetNestingLevel :: "TYsonSyntaxChecker \<Rightarrow> u32" where
  "GetNestingLevel c = NestingLevel c"

definition IsOnValueBoundary :: "TYsonSyntaxChecker \<Rightarrow> u32 \<Rightarrow> bool" where
  "IsOnValueBoundary c nestingLevel =
     (if NestingLevel c \<noteq> nestingLevel then False
      else case StateStack c of
             [] \<Rightarrow> False
           | state # _ \<Rightarrow> (case state of
               Terminated \<Rightarrow> True
             | ExpectValue \<Rightarrow> True
             | InsideListFragmentExpectValue \<Rightarrow> True
             | InsideListFragmentExpectSeparator \<Rightarrow> True
             | InsideMapFragmentExpectEquality \<Rightarrow> True
             | InsideMapFragmentExpectSeparator \<Rightarrow> True
             | InsideMapExpectEquality \<Rightarrow> True
             | InsideMapExpectSeparator \<Rightarrow> True
             | InsideAttributeMapExpectEquality \<Rightarrow> True
             | InsideAttributeMapExpectSeparator \<Rightarrow> True
             | InsideListExpectValue \<Rightarrow> True
             | InsideListExpectSeparator \<Rightarrow> True
             | _ \<Rightarrow> False))"

definition IsOnKey :: "TYsonSyntaxChecker \<Rightarrow> bool" where
  "IsOnKey c =
     (case StateStack c of
        [] \<Rightarrow> False
      | state # _ \<Rightarrow> (case state of
          InsideMapFragmentExpectEquality \<Rightarrow> True
        | InsideMapExpectEquality \<Rightarrow> True
        | InsideAttributeMapExpectEquality \<Rightarrow> True
        | _ \<Rightarrow> False))"

definition IsListSeparator :: "TYsonSyntaxChecker \<Rightarrow> bool" where
  "IsListSeparator c =
     (case StateStack c of
        [] \<Rightarrow> False
      | state # _ \<Rightarrow> (case state of
          InsideListFragmentExpectValue \<Rightarrow> True
        | InsideListExpectValue \<Rightarrow> True
        | _ \<Rightarrow> False))"

section \<open>Tokens and trees\<close>

text \<open>
  The calls that a client makes, one per token, and the trees that token sequences stand
  for. Machine values are kept as bit patterns; keys and strings are byte strings.
\<close>

datatype yson_scalar =
    Entity | Bool bool | I64 u64 | U64 u64 | Dbl u64 | Str "byte list"

datatype yson_token =
    TBeginList | TEndList | TBeginMap | TEndMap | TBeginAttributes | TEndAttributes
  | TScalar yson_scalar | TEquality | TSeparator

datatype yson_node =
    YNode "(byte list \<times> yson_node) list option" yson_body
and yson_body =
    YScalar yson_scalar | YList "yson_node list" | YMap "(byte list \<times> yson_node) list"

fun is_Str :: "yson_scalar \<Rightarrow> bool" where
  "is_Str (Str _) = True"
| "is_Str _ = False"

fun on_token :: "yson_token \<Rightarrow> TYsonSyntaxChecker \<Rightarrow> TYsonSyntaxChecker res" where
  "on_token TBeginList c = OnBeginList c"
| "on_token TEndList c = OnEndList c"
| "on_token TBeginMap c = OnBeginMap c"
| "on_token TEndMap c = OnEndMap c"
| "on_token TBeginAttributes c = OnAttributesBegin c"
| "on_token TEndAttributes c = OnAttributesEnd c"
| "on_token (TScalar s) c = (if is_Str s then OnString c else OnSimpleNonstring c)"
| "on_token TEquality c = OnEquality c"
| "on_token TSeparator c = OnSeparator c"

fun feed :: "TYsonSyntaxChecker \<Rightarrow> yson_token list \<Rightarrow> TYsonSyntaxChecker res" where
  "feed c [] = Inr c"
| "feed c (t # ts) = rbind (on_token t c) (\<lambda>c'. feed c' ts)"

definition finishes :: "TYsonSyntaxChecker \<Rightarrow> yson_token list \<Rightarrow> bool" where
  "finishes c ts = (case rbind (feed c ts) OnFinish of Inl _ \<Rightarrow> False | Inr _ \<Rightarrow> True)"

definition accepts :: "EYsonType \<Rightarrow> u32 \<Rightarrow> yson_token list \<Rightarrow> bool" where
  "accepts ysonType limit ts = finishes (mk_TYsonSyntaxChecker ysonType limit) ts"

text \<open>
  The grammar. The natural number is the nesting depth: the number of lists, maps and
  attribute maps around the innermost token. The separator after the last item is optional.
\<close>

inductive yson_node_tokens :: "yson_node \<Rightarrow> nat \<Rightarrow> yson_token list \<Rightarrow> bool"
  and yson_body_tokens :: "yson_body \<Rightarrow> nat \<Rightarrow> yson_token list \<Rightarrow> bool"
  and yson_list_tokens :: "yson_node list \<Rightarrow> nat \<Rightarrow> yson_token list \<Rightarrow> bool"
  and yson_map_tokens :: "(byte list \<times> yson_node) list \<Rightarrow> nat \<Rightarrow> yson_token list \<Rightarrow> bool"
  where
  node_plain: "yson_body_tokens b d ts \<Longrightarrow> yson_node_tokens (YNode None b) d ts"
| node_attributes: "yson_map_tokens ps d ts \<Longrightarrow> yson_body_tokens b e us \<Longrightarrow>
    yson_node_tokens (YNode (Some ps) b) (max (Suc d) e)
      (TBeginAttributes # ts @ TEndAttributes # us)"
| body_scalar: "yson_body_tokens (YScalar s) 0 [TScalar s]"
| body_list: "yson_list_tokens ns d ts \<Longrightarrow>
    yson_body_tokens (YList ns) (Suc d) (TBeginList # ts @ [TEndList])"
| body_map: "yson_map_tokens ps d ts \<Longrightarrow>
    yson_body_tokens (YMap ps) (Suc d) (TBeginMap # ts @ [TEndMap])"
| list_nil: "yson_list_tokens [] 0 []"
| list_last: "yson_node_tokens n d ts \<Longrightarrow> yson_list_tokens [n] d ts"
| list_cons: "yson_node_tokens n d ts \<Longrightarrow> yson_list_tokens ns e us \<Longrightarrow>
    yson_list_tokens (n # ns) (max d e) (ts @ TSeparator # us)"
| map_nil: "yson_map_tokens [] 0 []"
| map_last: "yson_node_tokens n d ts \<Longrightarrow>
    yson_map_tokens [(k, n)] d (TScalar (Str k) # TEquality # ts)"
| map_cons: "yson_node_tokens n d ts \<Longrightarrow> yson_map_tokens ps e us \<Longrightarrow>
    yson_map_tokens ((k, n) # ps) (max d e) (TScalar (Str k) # TEquality # ts @ TSeparator # us)"

text \<open>Well-formed input of each stream kind, with its nesting depth.\<close>

definition yson_stream :: "EYsonType \<Rightarrow> nat \<Rightarrow> yson_token list \<Rightarrow> bool" where
  "yson_stream ysonType d ts \<longleftrightarrow>
     (case ysonType of
        Node \<Rightarrow> \<exists>n. yson_node_tokens n d ts
      | ListFragment \<Rightarrow> \<exists>ns. yson_list_tokens ns d ts
      | MapFragment \<Rightarrow> \<exists>ps. yson_map_tokens ps d ts)"

section \<open>One step of the automaton\<close>

text \<open>
  The twelve states that await a value behave alike: \<open>value_done\<close> is the stack left once
  the value is complete, \<open>attributeless\<close> the state after its attributes.
\<close>

fun value_done :: "EYsonState \<Rightarrow> EYsonState list \<Rightarrow> EYsonState list option" where
  "value_done ExpectValue r = Some r"
| "value_done ExpectAttributelessValue r = Some r"
| "value_done InsideListFragmentExpectValue r = Some (InsideListFragmentExpectSeparator # r)"
| "value_done InsideListFragmentExpectAttributelessValue r =
     Some (InsideListFragmentExpectSeparator # r)"
| "value_done InsideListExpectValue r = Some (InsideListExpectSeparator # r)"
| "value_done InsideListExpectAttributelessValue r = Some (InsideListExpectSeparator # r)"
| "value_done InsideMapFragmentExpectValue r = Some (InsideMapFragmentExpectSeparator # r)"
| "value_done InsideMapFragmentExpectAttributelessValue r =
     Some (InsideMapFragmentExpectSeparator # r)"
| "value_done InsideMapExpectValue r = Some (InsideMapExpectSeparator # r)"
| "value_done InsideMapExpectAttributelessValue r = Some (InsideMapExpectSeparator # r)"
| "value_done InsideAttributeMapExpectValue r = Some (InsideAttributeMapExpectSeparator # r)"
| "value_done InsideAttributeMapExpectAttributelessValue r =
     Some (InsideAttributeMapExpectSeparator # r)"
| "value_done _ r = None"

fun attributeless :: "EYsonState \<Rightarrow> EYsonState option" where
  "attributeless ExpectValue = Some ExpectAttributelessValue"
| "attributeless InsideListFragmentExpectValue = Some InsideListFragmentExpectAttributelessValue"
| "attributeless InsideListExpectValue = Some InsideListExpectAttributelessValue"
| "attributeless InsideMapFragmentExpectValue = Some InsideMapFragmentExpectAttributelessValue"
| "attributeless InsideMapExpectValue = Some InsideMapExpectAttributelessValue"
| "attributeless InsideAttributeMapExpectValue = Some InsideAttributeMapExpectAttributelessValue"
| "attributeless _ = None"

datatype list_kind = LList | LFragment
datatype map_kind = MMap | MAttributes | MFragment

fun list_value :: "list_kind \<Rightarrow> EYsonState" where
  "list_value LList = InsideListExpectValue"
| "list_value LFragment = InsideListFragmentExpectValue"

fun list_separator :: "list_kind \<Rightarrow> EYsonState" where
  "list_separator LList = InsideListExpectSeparator"
| "list_separator LFragment = InsideListFragmentExpectSeparator"

fun map_key :: "map_kind \<Rightarrow> EYsonState" where
  "map_key MMap = InsideMapExpectKey"
| "map_key MAttributes = InsideAttributeMapExpectKey"
| "map_key MFragment = InsideMapFragmentExpectKey"

fun map_equality :: "map_kind \<Rightarrow> EYsonState" where
  "map_equality MMap = InsideMapExpectEquality"
| "map_equality MAttributes = InsideAttributeMapExpectEquality"
| "map_equality MFragment = InsideMapFragmentExpectEquality"

fun map_value :: "map_kind \<Rightarrow> EYsonState" where
  "map_value MMap = InsideMapExpectValue"
| "map_value MAttributes = InsideAttributeMapExpectValue"
| "map_value MFragment = InsideMapFragmentExpectValue"

fun map_separator :: "map_kind \<Rightarrow> EYsonState" where
  "map_separator MMap = InsideMapExpectSeparator"
| "map_separator MAttributes = InsideAttributeMapExpectSeparator"
| "map_separator MFragment = InsideMapFragmentExpectSeparator"

text \<open>A configuration with stack \<open>S\<close>, nesting level \<open>l\<close> and limit \<open>m\<close>.\<close>

definition chk :: "EYsonState list \<Rightarrow> nat \<Rightarrow> u32 \<Rightarrow> TYsonSyntaxChecker" where
  "chk S l m = \<lparr>StateStack = S, NestingLevel = of_nat l, NestingLevelLimit = m\<rparr>"

lemma chk_sel [simp]:
  "StateStack (chk S l m) = S" "(chk S l m)\<lparr>StateStack := T\<rparr> = chk T l m"
  by (simp_all add: chk_def)

lemma unat_of_nat_u32: "n < unat (m :: u32) \<Longrightarrow> unat (of_nat n :: u32) = n"
  using unat_u32_less [of m] by (simp add: unsigned_of_nat take_bit_eq_mod)

lemma IncrementNestingLevel_chk [simp]:
  assumes "l < unat m"
  shows "IncrementNestingLevel (chk S l m) =
     (if Suc l < unat m then Inr (chk S (Suc l) m)
      else Inl (Thrown ''Depth limit exceeded while parsing YSON''))"
proof -
  have "unat (of_nat l + 1 :: u32) = Suc l"
    using assms unat_u32_less [of m]
    by (simp add: unat_word_ariths(1) unat_of_nat_u32)
  then show ?thesis
    by (auto simp: IncrementNestingLevel_def chk_def Let_def word_le_nat_alt add.commute)
qed

lemma DecrementNestingLevel_chk [simp]:
  assumes "Suc l < unat m"
  shows "DecrementNestingLevel (chk S (Suc l) m) = Inr (chk S l m)"
proof -
  have "(0::u32) < of_nat (Suc l)"
    by (simp only: word_less_nat_alt unat_of_nat_u32 [OF assms]) simp
  then show ?thesis by (simp add: DecrementNestingLevel_def chk_def)
qed

lemma is_Str_iff: "is_Str s \<longleftrightarrow> (\<exists>x. s = Str x)"
  by (cases s) simp_all

lemma scalar_token:
  "(if is_Str s then OnString c else OnSimpleNonstring c) = OnSimple (is_Str s) c"
  by (simp add: OnString_def OnSimpleNonstring_def)

lemmas operation_defs =
  scalar_token
  on_back_def OnFinish_def OnEquality_def OnSeparator_def OnBeginList_def OnEndList_def
  OnBeginMap_def OnEndMap_def OnAttributesBegin_def OnAttributesEnd_def OnSimple_def
  OnSimpleNonstring_def OnString_def ThrowUnexpectedToken_def

lemma value_token:
  assumes "value_done st r = Some r'"
  shows "on_token (TScalar s) (chk (st # r) l m) = Inr (chk r' l m)"
    and "on_token TBeginList (chk (st # r) l m) =
      IncrementNestingLevel (chk (InsideListExpectValue # r') l m)"
    and "on_token TBeginMap (chk (st # r) l m) =
      IncrementNestingLevel (chk (InsideMapExpectKey # r') l m)"
  using assms by (cases st; simp add: operation_defs)+

lemma attributes_token:
  "attributeless st = Some st' \<Longrightarrow> on_token TBeginAttributes (chk (st # r) l m) =
     IncrementNestingLevel (chk (InsideAttributeMapExpectKey # st' # r) l m)"
  "attributeless st = Some st' \<Longrightarrow> value_done st' r = value_done st r"
  by (cases st; auto simp: operation_defs)+

lemma list_token:
  "value_done (list_value k) r = Some (list_separator k # r)"
  "attributeless (list_value k) \<noteq> None"
  "on_token TSeparator (chk (list_separator k # r) l m) = Inr (chk (list_value k # r) l m)"
  by (cases k; simp add: operation_defs)+

lemma map_token:
  "value_done (map_value k) r = Some (map_separator k # r)"
  "attributeless (map_value k) \<noteq> None"
  "on_token (TScalar (Str s)) (chk (map_key k # r) l m) = Inr (chk (map_equality k # r) l m)"
  "on_token TEquality (chk (map_equality k # r) l m) = Inr (chk (map_value k # r) l m)"
  "on_token TSeparator (chk (map_separator k # r) l m) = Inr (chk (map_key k # r) l m)"
  by (cases k; simp add: operation_defs)+

lemma end_token:
  assumes "Suc l < unat m"
  shows "st \<in> {InsideListExpectValue, InsideListExpectSeparator} \<Longrightarrow>
      on_token TEndList (chk (st # r) (Suc l) m) = Inr (chk r l m)"
    and "st \<in> {InsideMapExpectKey, InsideMapExpectSeparator} \<Longrightarrow>
      on_token TEndMap (chk (st # r) (Suc l) m) = Inr (chk r l m)"
    and "st \<in> {InsideAttributeMapExpectKey, InsideAttributeMapExpectSeparator} \<Longrightarrow>
      on_token TEndAttributes (chk (st # r) (Suc l) m) = Inr (chk r l m)"
  using DecrementNestingLevel_chk [OF assms] by (auto simp: operation_defs)

section \<open>Completeness: every tree within the depth limit is accepted\<close>

lemma feed_append: "feed c (ts @ us) = rbind (feed c ts) (\<lambda>c'. feed c' us)"
  by (induction c ts rule: feed.induct) (auto simp: rbind_assoc intro!: rbind_cong)

lemma feed_tokens:
  "yson_node_tokens n d ts \<Longrightarrow> value_done st r = Some r' \<Longrightarrow> attributeless st \<noteq> None \<Longrightarrow>
     l + d < unat m \<Longrightarrow> feed (chk (st # r) l m) ts = Inr (chk r' l m)"
  "yson_body_tokens b d ts \<Longrightarrow> value_done st r = Some r' \<Longrightarrow>
     l + d < unat m \<Longrightarrow> feed (chk (st # r) l m) ts = Inr (chk r' l m)"
  "yson_list_tokens ns d ts \<Longrightarrow> l + d < unat m \<Longrightarrow>
     \<exists>st \<in> {list_value k, list_separator k}.
       feed (chk (list_value k # r) l m) ts = Inr (chk (st # r) l m)"
  "yson_map_tokens ps d ts \<Longrightarrow> l + d < unat m \<Longrightarrow>
     \<exists>st \<in> {map_key k', map_separator k'}.
       feed (chk (map_key k' # r) l m) ts = Inr (chk (st # r) l m)"
proof (induction arbitrary: st r r' l and st r r' l and r l k and r l k'
    rule: yson_node_tokens_yson_body_tokens_yson_list_tokens_yson_map_tokens.inducts)
  case (node_attributes ps d ts b e us)
  then obtain st' where st': "attributeless st = Some st'" by auto
  with node_attributes.prems have vd: "value_done st' r = Some r'"
    by (simp add: attributes_token)
  from node_attributes.prems have "Suc l + d < unat m" by simp
  with node_attributes.IH(1) [of "Suc l" MAttributes "st' # r"]
  obtain q where "q \<in> {InsideAttributeMapExpectKey, InsideAttributeMapExpectSeparator}"
    and "feed (chk (InsideAttributeMapExpectKey # st' # r) (Suc l) m) ts =
      Inr (chk (q # st' # r) (Suc l) m)" by auto
  with node_attributes.prems st' vd show ?case
    using node_attributes.IH(2) [of st' r r' l]
    by (simp add: feed_append attributes_token(1) end_token del: on_token.simps)
next
  case (body_list ns d ts)
  from body_list.prems body_list.IH [of "Suc l" LList r']
  obtain q where "q \<in> {InsideListExpectValue, InsideListExpectSeparator}"
    and "feed (chk (InsideListExpectValue # r') (Suc l) m) ts = Inr (chk (q # r') (Suc l) m)"
    by auto
  with body_list.prems show ?case
    by (simp add: feed_append value_token end_token del: on_token.simps)
next
  case (body_map ps d ts)
  from body_map.prems body_map.IH [of "Suc l" MMap r']
  obtain q where "q \<in> {InsideMapExpectKey, InsideMapExpectSeparator}"
    and "feed (chk (InsideMapExpectKey # r') (Suc l) m) ts = Inr (chk (q # r') (Suc l) m)"
    by auto
  with body_map.prems show ?case
    by (simp add: feed_append value_token end_token del: on_token.simps)
next
  case (list_last n d ts)
  then show ?case using list_last.IH [OF list_token(1,2)] by simp
next
  case (map_last n d ts k)
  then show ?case using map_last.IH [OF map_token(1,2)]
    by (simp add: map_token del: on_token.simps)
next
  case (list_cons n d ts ns e us)
  then show ?case
    using list_cons.IH(1) [OF list_token(1,2)]
    by (simp add: feed_append list_token del: on_token.simps)
next
  case (map_cons n d ts ps e us k)
  then show ?case
    using map_cons.IH(1) [OF map_token(1,2)]
    by (simp add: feed_append map_token del: on_token.simps)
qed (simp_all add: value_token list_token map_token del: on_token.simps)

section \<open>Soundness: only trees within the depth limit are accepted\<close>

inductive_cases yson_plain_node: "yson_node_tokens (YNode None b) d ts"

fun map_end :: "map_kind \<Rightarrow> yson_token" where
  "map_end MMap = TEndMap"
| "map_end MAttributes = TEndAttributes"
| "map_end MFragment = TEndList"

text \<open>What follows a complete sequence of items: its end token, or the end of a fragment.\<close>

definition list_closed :: "list_kind \<Rightarrow> EYsonState list \<Rightarrow> nat \<Rightarrow> u32 \<Rightarrow> yson_token list \<Rightarrow> bool" where
  "list_closed k r l m vs \<longleftrightarrow>
     (if k = LFragment then vs = []
      else \<exists>vs'. vs = TEndList # vs' \<and> finishes (chk r (l - 1) m) vs')"

definition map_closed :: "map_kind \<Rightarrow> EYsonState list \<Rightarrow> nat \<Rightarrow> u32 \<Rightarrow> yson_token list \<Rightarrow> bool" where
  "map_closed k r l m vs \<longleftrightarrow>
     (if k = MFragment then vs = []
      else \<exists>vs'. vs = map_end k # vs' \<and> finishes (chk r (l - 1) m) vs')"

lemma finishes_simps:
  "finishes c (t # ts) = (case on_token t c of Inl _ \<Rightarrow> False | Inr c' \<Rightarrow> finishes c' ts)"
  "finishes c [] = (case OnFinish c of Inl _ \<Rightarrow> False | Inr _ \<Rightarrow> True)"
  by (auto simp: finishes_def split: sum.splits)

lemma finishes_value_Cons:
  assumes "finishes (chk (st # r) l m) (t # ts)" "value_done st r = Some r'" "t \<noteq> TEndList"
  shows "(\<exists>s. t = TScalar s) \<or> t = TBeginList \<or> t = TBeginMap \<or>
    t = TBeginAttributes \<and> attributeless st \<noteq> None"
  using assms by (cases st; cases t; simp add: finishes_simps operation_defs)

lemma finishes_list_cases:
  assumes "finishes (chk (st # r) l m) ts" "st \<in> {list_value k, list_separator k}"
    "l < unat m" "k = LList \<Longrightarrow> 0 < l"
  shows "list_closed k r l m ts \<or>
    (\<exists>t us. ts = t # us \<and> t \<noteq> TEndList \<and> (st = list_separator k \<longrightarrow> t = TSeparator))"
proof (cases ts)
  case Nil
  with assms show ?thesis
    by (cases k) (auto simp: finishes_simps list_closed_def operation_defs)
next
  case (Cons t us)
  show ?thesis
  proof (cases "t = TEndList")
    case True
    with assms Cons show ?thesis
      by (cases k; cases l) (auto simp: finishes_simps list_closed_def operation_defs)
  next
    case False
    with assms Cons show ?thesis
      by (cases k; cases t) (auto simp: finishes_simps operation_defs)
  qed
qed

lemma finishes_map_cases:
  assumes "finishes (chk (st # r) l m) ts" "st \<in> {map_key k, map_separator k}"
    "l < unat m" "k \<noteq> MFragment \<Longrightarrow> 0 < l"
  shows "map_closed k r l m ts \<or>
    (\<exists>t us. ts = t # us \<and> (st = map_separator k \<longrightarrow> t = TSeparator) \<and>
      (st = map_key k \<longrightarrow> (\<exists>s. t = TScalar (Str s))))"
proof (cases ts)
  case Nil
  with assms show ?thesis
    by (cases k) (auto simp: finishes_simps map_closed_def operation_defs)
next
  case (Cons t us)
  show ?thesis
  proof (cases "t = map_end k")
    case True
    with assms Cons show ?thesis
      by (cases k; cases l) (auto simp: finishes_simps map_closed_def operation_defs)
  next
    case False
    with assms Cons show ?thesis
      by (cases k; cases t) (auto simp: finishes_simps operation_defs is_Str_iff split: if_splits)
  qed
qed

lemma finishes_equality:
  assumes "finishes (chk (map_equality k # r) l m) ts"
  obtains us where "ts = TEquality # us" "finishes (chk (map_value k # r) l m) us"
proof (cases ts)
  case Nil
  with assms show ?thesis by (cases k) (simp_all add: finishes_simps operation_defs)
next
  case (Cons t us)
  with assms that show ?thesis
    by (cases k; cases t) (auto simp: finishes_simps operation_defs)
qed

text \<open>The three statements that are proved together, by induction on the length of the input.\<close>

definition sound_value :: "u32 \<Rightarrow> yson_token list \<Rightarrow> bool" where
  "sound_value m ts \<longleftrightarrow> (\<forall>st r r' l.
     finishes (chk (st # r) l m) ts \<longrightarrow> value_done st r = Some r' \<longrightarrow> l < unat m \<longrightarrow>
     ts \<noteq> [] \<longrightarrow> hd ts \<noteq> TEndList \<longrightarrow>
     (\<exists>n d us vs. ts = us @ vs \<and> us \<noteq> [] \<and> yson_node_tokens n d us \<and>
        (attributeless st = None \<longrightarrow> (\<exists>b. n = YNode None b)) \<and>
        l + d < unat m \<and> finishes (chk r' l m) vs))"

definition sound_list :: "u32 \<Rightarrow> yson_token list \<Rightarrow> bool" where
  "sound_list m ts \<longleftrightarrow> (\<forall>k r l.
     finishes (chk (list_value k # r) l m) ts \<longrightarrow> l < unat m \<longrightarrow> (k = LList \<longrightarrow> 0 < l) \<longrightarrow>
     (\<exists>ns d us vs. ts = us @ vs \<and> yson_list_tokens ns d us \<and> l + d < unat m \<and>
        list_closed k r l m vs))"

definition sound_map :: "u32 \<Rightarrow> yson_token list \<Rightarrow> bool" where
  "sound_map m ts \<longleftrightarrow> (\<forall>k r l.
     finishes (chk (map_key k # r) l m) ts \<longrightarrow> l < unat m \<longrightarrow> (k \<noteq> MFragment \<longrightarrow> 0 < l) \<longrightarrow>
     (\<exists>ps d us vs. ts = us @ vs \<and> yson_map_tokens ps d us \<and> l + d < unat m \<and>
        map_closed k r l m vs))"

lemma sound_valueD:
  assumes "sound_value m ts" "finishes (chk (st # r) l m) ts" "value_done st r = Some r'"
    "l < unat m" "ts \<noteq> []" "hd ts \<noteq> TEndList"
  shows "\<exists>n d us vs. ts = us @ vs \<and> us \<noteq> [] \<and> yson_node_tokens n d us \<and>
    (attributeless st = None \<longrightarrow> (\<exists>b. n = YNode None b)) \<and> l + d < unat m \<and>
    finishes (chk r' l m) vs"
  using assms unfolding sound_value_def by blast

lemma sound_listD:
  assumes "sound_list m ts" "finishes (chk (list_value k # r) l m) ts" "l < unat m"
    "k = LList \<longrightarrow> 0 < l"
  shows "\<exists>ns d us vs. ts = us @ vs \<and> yson_list_tokens ns d us \<and> l + d < unat m \<and>
    list_closed k r l m vs"
  using assms unfolding sound_list_def by blast

lemma sound_mapD:
  assumes "sound_map m ts" "finishes (chk (map_key k # r) l m) ts" "l < unat m"
    "k \<noteq> MFragment \<longrightarrow> 0 < l"
  shows "\<exists>ps d us vs. ts = us @ vs \<and> yson_map_tokens ps d us \<and> l + d < unat m \<and>
    map_closed k r l m vs"
  using assms unfolding sound_map_def by blast

lemma finishes_begin:
  assumes "finishes (chk (st # r) l m) (t # ts)" "l < unat m"
    "on_token t (chk (st # r) l m) = IncrementNestingLevel (chk S l m)"
  shows "Suc l < unat m" "finishes (chk S (Suc l) m) ts"
  using assms by (auto simp: finishes_simps split: if_splits)

lemma sound_value_step:
  assumes IH: "\<And>us. length us < length ts \<Longrightarrow> sound_value m us \<and> sound_list m us \<and> sound_map m us"
  shows "sound_value m ts"
  unfolding sound_value_def
proof (intro allI impI)
  fix st r r' l
  assume fin: "finishes (chk (st # r) l m) ts" and vd: "value_done st r = Some r'"
    and l: "l < unat m" and "ts \<noteq> []" "hd ts \<noteq> TEndList"
  then obtain t tr where ts: "ts = t # tr" "t \<noteq> TEndList" by (cases ts) auto
  let ?goal = "\<exists>n d us vs. ts = us @ vs \<and> us \<noteq> [] \<and> yson_node_tokens n d us \<and>
    (attributeless st = None \<longrightarrow> (\<exists>b. n = YNode None b)) \<and> l + d < unat m \<and>
    finishes (chk r' l m) vs"
  have body: ?goal if "yson_body_tokens b d us" "ts = us @ vs" "us \<noteq> []" "l + d < unat m"
    "finishes (chk r' l m) vs" for b d us vs
    using that node_plain by blast
  consider (scalar) s where "t = TScalar s" | (list) "t = TBeginList" | (map) "t = TBeginMap"
    | (attributes) st' where "t = TBeginAttributes" "attributeless st = Some st'"
    using finishes_value_Cons [OF fin [unfolded ts] vd ts(2)] by blast
  then show ?goal
  proof cases
    case scalar
    with fin ts l have "finishes (chk r' l m) tr"
      by (simp add: finishes_simps value_token(1) [OF vd] del: on_token.simps)
    then show ?thesis using scalar ts l by (intro body [OF body_scalar]) simp_all
  next
    case list
    note opened = finishes_begin [OF fin [unfolded ts] l, unfolded list, OF value_token(2) [OF vd]]
    from IH [of tr] ts have "sound_list m tr" by simp
    from sound_listD [OF this, of LList r' "Suc l"] opened
    obtain ns d us vs where "tr = us @ vs" "yson_list_tokens ns d us" "Suc l + d < unat m"
      "list_closed LList r' (Suc l) m vs" by auto
    then show ?thesis
      using list ts body [OF body_list, of ns d us] by (auto simp: list_closed_def)
  next
    case map
    note opened = finishes_begin [OF fin [unfolded ts] l, unfolded map, OF value_token(3) [OF vd]]
    from IH [of tr] ts have "sound_map m tr" by simp
    from sound_mapD [OF this, of MMap r' "Suc l"] opened
    obtain ps d us vs where "tr = us @ vs" "yson_map_tokens ps d us" "Suc l + d < unat m"
      "map_closed MMap r' (Suc l) m vs" by auto
    then show ?thesis
      using map ts body [OF body_map, of ps d us] by (auto simp: map_closed_def)
  next
    case attributes
    note opened = finishes_begin [OF fin [unfolded ts] l, unfolded attributes(1),
        OF attributes_token(1) [OF attributes(2)]]
    from IH [of tr] ts have "sound_map m tr" by simp
    from sound_mapD [OF this, of MAttributes "st' # r" "Suc l"] opened
    obtain ps d us vs where A: "tr = us @ TEndAttributes # vs" "yson_map_tokens ps d us"
      "Suc l + d < unat m" "finishes (chk (st' # r) l m) vs" by (auto simp: map_closed_def)
    have st': "attributeless st' = None" "value_done st' r = Some r'"
      using attributes(2) vd by (cases st; auto)+
    have vs: "vs \<noteq> []" "hd vs \<noteq> TEndList"
      using A(4) st' attributes(2)
      by (cases st; cases vs; auto simp: finishes_simps operation_defs)+
    from IH [of vs] ts A have "sound_value m vs" by simp
    from sound_valueD [OF this A(4) st'(2) l vs]
    obtain n e us' vs' where B: "vs = us' @ vs'" "yson_node_tokens n e us'"
      "\<exists>b. n = YNode None b" "l + e < unat m" "finishes (chk r' l m) vs'"
      using st'(1) by blast
    then obtain b where "yson_body_tokens b e us'" by (auto elim: yson_plain_node)
    then have "yson_node_tokens (YNode (Some ps) b) (max (Suc d) e)
      (TBeginAttributes # us @ TEndAttributes # us')" using A by (intro node_attributes)
    then show ?thesis using attributes ts A B
      by (intro exI [of _ "YNode (Some ps) b"] exI [of _ "max (Suc d) e"]
          exI [of _ "TBeginAttributes # us @ TEndAttributes # us'"] exI [of _ vs']) auto
  qed
qed

lemma sound_list_step:
  assumes IH: "\<And>us. length us < length ts \<Longrightarrow> sound_list m us" and val: "sound_value m ts"
  shows "sound_list m ts"
  unfolding sound_list_def
proof (intro allI impI)
  fix k r l
  assume fin: "finishes (chk (list_value k # r) l m) ts" and l: "l < unat m"
    and k: "k = LList \<longrightarrow> 0 < l"
  let ?goal = "\<exists>ns d us vs. ts = us @ vs \<and> yson_list_tokens ns d us \<and> l + d < unat m \<and>
    list_closed k r l m vs"
  consider "list_closed k r l m ts" | "ts \<noteq> []" "hd ts \<noteq> TEndList"
    using finishes_list_cases [where k = k, OF fin _ l] k by auto
  then show ?goal
  proof cases
    case 1
    then show ?thesis using list_nil l by fastforce
  next
    case 2
    from sound_valueD [OF val fin list_token(1) l 2]
    obtain n d us vs where A: "ts = us @ vs" "us \<noteq> []" "yson_node_tokens n d us"
      "l + d < unat m" "finishes (chk (list_separator k # r) l m) vs" by blast
    consider "list_closed k r l m vs" | ws where "vs = TSeparator # ws"
      using finishes_list_cases [where k = k, OF A(5) _ l] k by auto
    then show ?thesis
    proof cases
      case 1
      then show ?thesis using A list_last by blast
    next
      case 2
      with A have "finishes (chk (list_value k # r) l m) ws" "length ws < length ts"
        by (simp_all add: finishes_simps list_token del: on_token.simps)
      from sound_listD [OF IH [OF this(2)] this(1) l k]
      obtain ns e us' vs' where "ws = us' @ vs'" "yson_list_tokens ns e us'" "l + e < unat m"
        "list_closed k r l m vs'" by blast
      then show ?thesis using A 2 list_cons [OF A(3)]
        by (intro exI [of _ "n # ns"] exI [of _ "max d e"] exI [of _ "us @ TSeparator # us'"]
            exI [of _ vs']) auto
    qed
  qed
qed

lemma finishes_map_value:
  assumes "finishes (chk (map_value k # r) l m) ts"
  shows "ts \<noteq> []" "hd ts \<noteq> TEndList"
  using assms by (cases k; cases ts; auto simp: finishes_simps operation_defs)+

lemma sound_map_step:
  assumes IH: "\<And>us. length us < length ts \<Longrightarrow> sound_value m us \<and> sound_map m us"
  shows "sound_map m ts"
  unfolding sound_map_def
proof (intro allI impI)
  fix k r l
  assume fin: "finishes (chk (map_key k # r) l m) ts" and l: "l < unat m"
    and k: "k \<noteq> MFragment \<longrightarrow> 0 < l"
  consider "map_closed k r l m ts" | s us where "ts = TScalar (Str s) # us"
    using finishes_map_cases [where k = k, OF fin _ l] k by auto
  then show "\<exists>ps d us vs. ts = us @ vs \<and> yson_map_tokens ps d us \<and> l + d < unat m \<and>
    map_closed k r l m vs"
  proof cases
    case 1
    then show ?thesis using map_nil l by fastforce
  next
    case 2
    with fin have "finishes (chk (map_equality k # r) l m) us"
      by (simp add: finishes_simps map_token del: on_token.simps)
    then obtain ws where ws: "us = TEquality # ws" "finishes (chk (map_value k # r) l m) ws"
      by (rule finishes_equality)
    from IH [of ws] 2 ws have "sound_value m ws" by simp
    from sound_valueD [OF this ws(2) map_token(1) l finishes_map_value [OF ws(2)]]
    obtain n d xs ys where A: "ws = xs @ ys" "yson_node_tokens n d xs" "l + d < unat m"
      "finishes (chk (map_separator k # r) l m) ys" by blast
    consider "map_closed k r l m ys" | zs where "ys = TSeparator # zs"
      using finishes_map_cases [where k = k, OF A(4) _ l] k by auto
    then show ?thesis
    proof cases
      case 1
      then show ?thesis using A 2 ws map_last [OF A(2), of s]
        by (intro exI [of _ "[(s, n)]"] exI [of _ d] exI [of _ "TScalar (Str s) # TEquality # xs"]
            exI [of _ ys]) auto
    next
      case zs: 2
      with A 2 ws have "finishes (chk (map_key k # r) l m) zs" "length zs < length ts"
        by (simp_all add: finishes_simps map_token del: on_token.simps)
      from sound_mapD [OF conjunct2 [OF IH [OF this(2)]] this(1) l k]
      obtain ps e us' vs' where "zs = us' @ vs'" "yson_map_tokens ps e us'" "l + e < unat m"
        "map_closed k r l m vs'" by blast
      then show ?thesis using A 2 ws zs map_cons [OF A(2), of ps e us' s]
        by (intro exI [of _ "(s, n) # ps"] exI [of _ "max d e"]
            exI [of _ "TScalar (Str s) # TEquality # xs @ TSeparator # us'"] exI [of _ vs']) auto
    qed
  qed
qed

lemma checker_sound: "sound_value m ts \<and> sound_list m ts \<and> sound_map m ts"
proof (induction ts rule: length_induct)
  case (1 ts)
  then have "sound_value m ts" "sound_map m ts"
    by (auto intro: sound_value_step sound_map_step)
  with 1 show ?case by (auto intro: sound_list_step)
qed

lemma mk_checker_chk:
  "mk_TYsonSyntaxChecker Node m = chk [ExpectValue, Terminated] 0 m"
  "mk_TYsonSyntaxChecker ListFragment m = chk [list_value LFragment, Terminated] 0 m"
  "mk_TYsonSyntaxChecker MapFragment m = chk [map_key MFragment, Terminated] 0 m"
  by (simp_all add: mk_TYsonSyntaxChecker_def chk_def)

lemma finishes_Terminated: "finishes (chk [Terminated] l m) ts \<longleftrightarrow> ts = []"
  by (cases ts; cases "hd ts") (auto simp: finishes_simps operation_defs)

lemma accepts_yson_stream:
  assumes m: "0 < limit" and acc: "accepts ysonType limit ts"
  shows "\<exists>d. yson_stream ysonType d ts \<and> d < unat limit"
proof -
  from m have l: "0 < unat limit" by (simp add: word_less_nat_alt)
  note fin = acc [unfolded accepts_def]
  show ?thesis
  proof (cases ysonType)
    case Node
    with fin have fin: "finishes (chk [ExpectValue, Terminated] 0 limit) ts"
      by (simp add: mk_checker_chk)
    then have "ts \<noteq> []" "hd ts \<noteq> TEndList"
      by (cases ts; auto simp: finishes_simps operation_defs)+
    from sound_valueD [OF conjunct1 [OF checker_sound] fin _ l this] Node
    show ?thesis by (auto simp: finishes_Terminated yson_stream_def)
  next
    case ListFragment
    with fin have "finishes (chk [list_value LFragment, Terminated] 0 limit) ts"
      by (simp add: mk_checker_chk)
    from sound_listD [OF _ this l] checker_sound ListFragment
    show ?thesis by (auto simp: list_closed_def yson_stream_def)
  next
    case MapFragment
    with fin have "finishes (chk [map_key MFragment, Terminated] 0 limit) ts"
      by (simp add: mk_checker_chk)
    from sound_mapD [OF _ this l] checker_sound MapFragment
    show ?thesis by (auto simp: map_closed_def yson_stream_def)
  qed
qed

lemma yson_stream_accepts:
  assumes "yson_stream ysonType d ts" "d < unat limit"
  shows "accepts ysonType limit ts"
proof (cases ysonType)
  case Node
  with assms obtain n where "yson_node_tokens n d ts" by (auto simp: yson_stream_def)
  from feed_tokens(1) [OF this, of ExpectValue "[Terminated]" _ 0] assms(2) Node
  show ?thesis
    by (simp add: accepts_def mk_checker_chk finishes_def operation_defs)
next
  case ListFragment
  with assms obtain ns where "yson_list_tokens ns d ts" by (auto simp: yson_stream_def)
  from feed_tokens(3) [OF this, of 0 limit LFragment "[Terminated]"] assms(2) ListFragment
  show ?thesis
    by (auto simp add: accepts_def mk_checker_chk finishes_def operation_defs)
next
  case MapFragment
  with assms obtain ps where "yson_map_tokens ps d ts" by (auto simp: yson_stream_def)
  from feed_tokens(4) [OF this, of 0 limit MFragment "[Terminated]"] assms(2) MapFragment
  show ?thesis
    by (auto simp add: accepts_def mk_checker_chk finishes_def operation_defs)
qed

section \<open>The language of the checker\<close>

text \<open>C5. For every stream kind and every positive nesting limit, the syntax checker accepts a
  sequence of tokens exactly when it is the token sequence of a well-formed YSON stream
  (a node, a list fragment or a map fragment, with attributes and optional trailing
  separators) whose nesting depth is below the limit.\<close>

theorem syntax_checker_accepts_exactly_yson:
  assumes "0 < limit"
  shows "accepts ysonType limit ts \<longleftrightarrow> (\<exists>d. yson_stream ysonType d ts \<and> d < unat limit)"
  using accepts_yson_stream [OF assms] yson_stream_accepts by blast

theorem syntax_checker_accepts_exactly_yson_witness:
  "(0::u32) < 256 \<and>
   accepts Node 256 [TBeginList, TScalar (I64 1), TSeparator, TScalar Entity, TEndList] \<and>
   \<not> accepts Node 256 [TBeginList, TScalar (I64 1), TScalar Entity, TEndList] \<and>
   (\<exists>d. yson_stream Node d [TBeginList, TScalar (I64 1), TSeparator, TScalar Entity, TEndList] \<and>
      d < unat (256::u32)) \<and>
   \<not> (\<exists>d. yson_stream Node d [TBeginList, TScalar (I64 1), TScalar Entity, TEndList] \<and>
      d < unat (256::u32))"
proof -
  have lim: "(0::u32) < 256" by simp
  have a: "accepts Node 256 [TBeginList, TScalar (I64 1), TSeparator, TScalar Entity, TEndList]"
    and n: "\<not> accepts Node 256 [TBeginList, TScalar (I64 1), TScalar Entity, TEndList]"
    by code_simp+
  show ?thesis
    using lim a n syntax_checker_accepts_exactly_yson [OF lim, of Node] by blast
qed

end
