(* ===== verification/YsonLexer.thy ===== *)
theory YsonLexer
  imports Prelude Coding
begin

text \<open>
  The input side of the YSON parsers: the block stream with its refill loop, the varint
  readers of \<open>TCodedStream\<close> and the literal readers of \<open>TLexerBase\<close>
  (\<open>yt/yt/core/yson/detail.h\<close>, \<open>pull_parser.h\<close>, \<open>pull_parser-inl.h\<close>).

  A stream holds the unread part of the current block, the blocks that the underlying
  \<open>IZeroCopyInput\<close> will still return, and the \<open>Finished_\<close> flag. Bookkeeping that only feeds error
  attributes (context, line and column positions) is left out; so are the recording hooks.
  The lexer buffer is a local list, since its contents never outlive the returned literal.

  Each routine is shown to depend only on the bytes that remain, not on how they are cut
  into blocks; in particular the fast paths that look at the current block agree with the
  byte-wise slow paths and never read behind the block.
\<close>

section \<open>Characters\<close>

abbreviation BeginListSymbol :: byte where "BeginListSymbol \<equiv> 0x5B"
abbreviation EndListSymbol :: byte where "EndListSymbol \<equiv> 0x5D"
abbreviation BeginMapSymbol :: byte where "BeginMapSymbol \<equiv> 0x7B"
abbreviation EndMapSymbol :: byte where "EndMapSymbol \<equiv> 0x7D"
abbreviation BeginAttributesSymbol :: byte where "BeginAttributesSymbol \<equiv> 0x3C"
abbreviation EndAttributesSymbol :: byte where "EndAttributesSymbol \<equiv> 0x3E"
abbreviation ItemSeparatorSymbol :: byte where "ItemSeparatorSymbol \<equiv> 0x3B"
abbreviation KeyValueSeparatorSymbol :: byte where "KeyValueSeparatorSymbol \<equiv> 0x3D"
abbreviation EntitySymbol :: byte where "EntitySymbol \<equiv> 0x23"
abbreviation StringMarker :: byte where "StringMarker \<equiv> 0x01"
abbreviation Int64Marker :: byte where "Int64Marker \<equiv> 0x02"
abbreviation DoubleMarker :: byte where "DoubleMarker \<equiv> 0x03"
abbreviation FalseMarker :: byte where "FalseMarker \<equiv> 0x04"
abbreviation TrueMarker :: byte where "TrueMarker \<equiv> 0x05"
abbreviation Uint64Marker :: byte where "Uint64Marker \<equiv> 0x06"
abbreviation EndSymbol :: byte where "EndSymbol \<equiv> 0x00"

abbreviation QuoteChar :: byte where "QuoteChar \<equiv> 0x22"
abbreviation PercentChar :: byte where "PercentChar \<equiv> 0x25"
abbreviation PlusChar :: byte where "PlusChar \<equiv> 0x2B"
abbreviation MinusChar :: byte where "MinusChar \<equiv> 0x2D"
abbreviation DotChar :: byte where "DotChar \<equiv> 0x2E"
abbreviation BackslashChar :: byte where "BackslashChar \<equiv> 0x5C"
abbreviation UnderscoreChar :: byte where "UnderscoreChar \<equiv> 0x5F"

definition str :: "string \<Rightarrow> byte list" where
  "str s = map of_char s"

text \<open>The character classes of the C locale, and the lookup table \<open>IsSpace\<close>.\<close>

definition isdigit :: "byte \<Rightarrow> bool" where
  "isdigit ch \<longleftrightarrow> 0x30 \<le> ch \<and> ch \<le> 0x39"

definition isalpha :: "byte \<Rightarrow> bool" where
  "isalpha ch \<longleftrightarrow> 0x41 \<le> ch \<and> ch \<le> 0x5A \<or> 0x61 \<le> ch \<and> ch \<le> 0x7A"

definition isspace :: "byte \<Rightarrow> bool" where
  "isspace ch \<longleftrightarrow> ch = 0x20 \<or> 0x09 \<le> ch \<and> ch \<le> 0x0D"

definition IsSpace :: "byte \<Rightarrow> bool" where
  "IsSpace ch \<longleftrightarrow> ch \<in> {0x09, 0x0A, 0x0B, 0x0C, 0x0D, 0x20}"

section \<open>Block streams\<close>

record TBlockStream =
  Block :: "byte list"
  Pending :: "byte list list"
  Finished :: bool

definition mk_TBlockStream :: "byte list list \<Rightarrow> TBlockStream" where
  "mk_TBlockStream blocks = \<lparr>Block = [], Pending = blocks, Finished = False\<rparr>"

definition IsEmpty :: "TBlockStream \<Rightarrow> bool" where
  "IsEmpty s \<longleftrightarrow> Block s = []"

text \<open>An exhausted input returns an empty block, which sets \<open>Finished_\<close> for good.\<close>

definition RefreshBlock :: "TBlockStream \<Rightarrow> TBlockStream" where
  "RefreshBlock s =
     (case Pending s of
        [] \<Rightarrow> s\<lparr>Block := [], Finished := True\<rparr>
      | block # blocks \<Rightarrow>
          s\<lparr>Block := block, Pending := blocks, Finished := Finished s \<or> block = []\<rparr>)"

function refresh_loop :: "TBlockStream \<Rightarrow> TBlockStream" where
  "refresh_loop s = (if IsEmpty s \<and> \<not> Finished s then refresh_loop (RefreshBlock s) else s)"
  by pat_completeness auto
termination
  by (relation "measure (\<lambda>s. if IsEmpty s \<and> \<not> Finished s then 1 else 0)")
    (auto simp: RefreshBlock_def IsEmpty_def split: list.splits)

declare refresh_loop.simps [simp del]

definition Refresh :: "bool \<Rightarrow> TBlockStream \<Rightarrow> TBlockStream res" where
  "Refresh allowFinish s =
     (let s = refresh_loop s in
      if IsEmpty s \<and> Finished s \<and> \<not> allowFinish
      then Inl (Thrown ''Premature end of stream'') else Inr s)"

definition GetChar :: "bool \<Rightarrow> TBlockStream \<Rightarrow> (byte \<times> TBlockStream) res" where
  "GetChar allowFinish s =
     (if \<not> IsEmpty s then Inr (hd (Block s), s)
      else rbind (Refresh allowFinish s) (\<lambda>s.
        Inr (if \<not> IsEmpty s then hd (Block s) else 0, s)))"

definition Advance :: "nat \<Rightarrow> TBlockStream \<Rightarrow> TBlockStream res" where
  "Advance n s =
     (if n \<le> length (Block s) then Inr (s\<lparr>Block := drop n (Block s)\<rparr>)
      else Inl (Undefined ''advance behind the block''))"

definition Length :: "TBlockStream \<Rightarrow> nat" where
  "Length s = length (Block s)"

text \<open>Refill if the block is used up, then look at its first byte and step over it.\<close>

definition next_byte :: "TBlockStream \<Rightarrow> (byte \<times> TBlockStream) res" where
  "next_byte s =
     rbind (if IsEmpty s then Refresh False s else Inr s) (\<lambda>s.
       rbind (Advance 1 s) (\<lambda>s'. Inr (hd (Block s), s')))"

section \<open>Varints\<close>

definition MaxVarintBytes :: nat where "MaxVarintBytes = 10"

text \<open>
  The unrolled reading of a varint from an array: one contribution per byte, the last
  byte is the first one without the continuation bit.
\<close>

fun varint_array ::
  "('a::len word \<Rightarrow> 'a word) list \<Rightarrow> 'a word \<Rightarrow> byte list \<Rightarrow> nat \<Rightarrow> ('a word \<times> nat) res" where
  "varint_array [] result ptr n = Inl (Thrown ''Error parsing varint value'')"
| "varint_array (f # fs) result [] n = Inl (Undefined ''read behind the block'')"
| "varint_array (f # fs) result (b # ptr) n =
     (let result = result OR f (ucast b) in
      if b AND 0x80 = 0 then Inr (result, n + 1) else varint_array fs result ptr (n + 1))"

definition on_fast_path :: "TBlockStream \<Rightarrow> bool" where
  "on_fast_path s \<longleftrightarrow>
     MaxVarintBytes \<le> length (Block s) \<or> Block s \<noteq> [] \<and> last (Block s) AND 0x80 = 0"

definition varint64_steps :: "(u64 \<Rightarrow> u64) list" where
  "varint64_steps =
     [\<lambda>b. b AND 0x7F,
      \<lambda>b. push_bit 7 (b AND 0x7F),
      \<lambda>b. push_bit 14 (b AND 0x7F),
      \<lambda>b. push_bit 21 (b AND 0x7F),
      \<lambda>b. push_bit 28 (b AND 0x7F),
      \<lambda>b. push_bit 35 (b AND 0x7F),
      \<lambda>b. push_bit 42 (b AND 0x7F),
      \<lambda>b. push_bit 49 (b AND 0x7F),
      \<lambda>b. push_bit 56 (b AND 0x7F),
      \<lambda>b. push_bit 63 (b AND 0x7F)]"

text \<open>The do-while loop of the slow path; \<open>k\<close> counts down from \<open>MaxVarintBytes\<close>.\<close>

fun ReadVarint64Slow_loop :: "nat \<Rightarrow> u64 \<Rightarrow> TBlockStream \<Rightarrow> (u64 \<times> TBlockStream) res" where
  "ReadVarint64Slow_loop 0 result s = Inl (Thrown ''Error parsing varint value'')"
| "ReadVarint64Slow_loop (Suc k) result s =
     rbind (next_byte s) (\<lambda>(b, s).
       let count = MaxVarintBytes - Suc k;
           result = result OR push_bit (7 * count) (ucast (b AND 0x7F)) in
       if b AND 0x80 \<noteq> 0 then ReadVarint64Slow_loop k result s else Inr (result, s))"

definition ReadVarint64Slow :: "TBlockStream \<Rightarrow> (u64 \<times> TBlockStream) res" where
  "ReadVarint64Slow s = ReadVarint64Slow_loop MaxVarintBytes 0 s"

definition ReadVarint64 :: "TBlockStream \<Rightarrow> (u64 \<times> TBlockStream) res" where
  "ReadVarint64 s =
     (if on_fast_path s
      then rbind (varint_array varint64_steps 0 (Block s) 0) (\<lambda>(result, n).
        rbind (Advance n s) (\<lambda>s. Inr (result, s)))
      else ReadVarint64Slow s)"

definition varint32_steps :: "(u32 \<Rightarrow> u32) list" where
  "varint32_steps =
     [\<lambda>b. b AND 0x7F,
      \<lambda>b. push_bit 7 (b AND 0x7F),
      \<lambda>b. push_bit 14 (b AND 0x7F),
      \<lambda>b. push_bit 21 (b AND 0x7F),
      \<lambda>b. push_bit 28 b] @
     replicate (MaxVarintBytes - 5) (\<lambda>b. 0)"

definition ReadVarint32FromArray :: "TBlockStream \<Rightarrow> (u32 \<times> TBlockStream) res" where
  "ReadVarint32FromArray s =
     rbind (varint_array varint32_steps 0 (Block s) 0) (\<lambda>(result, n).
       rbind (Advance n s) (\<lambda>s. Inr (result, s)))"

definition ReadVarint32Slow :: "TBlockStream \<Rightarrow> (u32 \<times> TBlockStream) res" where
  "ReadVarint32Slow s = rbind (ReadVarint64 s) (\<lambda>(result, s). Inr (ucast result, s))"

definition ReadVarint32Fallback :: "TBlockStream \<Rightarrow> (u32 \<times> TBlockStream) res" where
  "ReadVarint32Fallback s =
     (if on_fast_path s then ReadVarint32FromArray s else ReadVarint32Slow s)"

definition ReadVarint32 :: "TBlockStream \<Rightarrow> (u32 \<times> TBlockStream) res" where
  "ReadVarint32 s =
     (if \<not> IsEmpty s \<and> hd (Block s) < 0x80
      then rbind (Advance 1 s) (\<lambda>s'. Inr (ucast (hd (Block s)), s'))
      else ReadVarint32Fallback s)"

text \<open>Copying a varint without decoding it.\<close>

fun varint_copy :: "nat \<Rightarrow> byte list \<Rightarrow> byte list \<Rightarrow> byte list res" where
  "varint_copy 0 ptr out = Inl (Thrown ''Error parsing varint value'')"
| "varint_copy (Suc k) [] out = Inl (Undefined ''read behind the block'')"
| "varint_copy (Suc k) (b # ptr) out =
     (if b AND 0x80 = 0 then Inr (out @ [b]) else varint_copy k ptr (out @ [b]))"

definition ReadVarint64ToArray :: "TBlockStream \<Rightarrow> (byte list \<times> TBlockStream) res" where
  "ReadVarint64ToArray s =
     (if on_fast_path s
      then rbind (varint_copy MaxVarintBytes (Block s) []) (\<lambda>out.
        rbind (Advance (length out) s) (\<lambda>s. Inr (out, s)))
      else rbind (ReadVarint64Slow s) (\<lambda>(result, s). Inr (WriteVarUint64 result, s)))"

section \<open>The bytes that remain\<close>

definition remaining :: "TBlockStream \<Rightarrow> byte list" where
  "remaining s =
     Block s @ (if Finished s then [] else concat (takeWhile (\<lambda>block. block \<noteq> []) (Pending s)))"

text \<open>The result of a reader with its stream reduced to the remaining bytes.\<close>

definition flat :: "('a \<times> TBlockStream) res \<Rightarrow> ('a \<times> byte list) res" where
  "flat r = rbind r (\<lambda>(x, s). Inr (x, remaining s))"

lemma flat_simps [simp]:
  "flat (Inl e) = Inl e" "flat (Inr (x, s)) = Inr (x, remaining s)"
  by (simp_all add: flat_def)

lemma flat_eq_Inr: "flat r = Inr (x, bs) \<longleftrightarrow> (\<exists>s. r = Inr (x, s) \<and> remaining s = bs)"
  by (cases r) (auto simp: flat_def)

lemma flat_eq_Inl: "flat r = Inl e \<longleftrightarrow> r = Inl e"
  by (cases r) (auto simp: flat_def)

lemma flat_rbind:
  "(\<And>x s. r = Inr (x, s) \<Longrightarrow> flat (f (x, s)) = g (x, remaining s)) \<Longrightarrow>
   flat (rbind r f) = rbind (flat r) g"
  by (cases r) (auto simp: flat_def)

text \<open>A stream whose block is used up only at the end of the input.\<close>

definition settled :: "TBlockStream \<Rightarrow> bool" where
  "settled s \<longleftrightarrow> (Block s = [] \<longrightarrow> remaining s = [])"

lemma RefreshBlock_remaining:
  "IsEmpty s \<Longrightarrow> \<not> Finished s \<Longrightarrow> remaining (RefreshBlock s) = remaining s"
  by (auto simp: remaining_def RefreshBlock_def IsEmpty_def split: list.splits)

lemma refresh_loop_spec:
  "remaining (refresh_loop s) = remaining s"
  "Block (refresh_loop s) = [] \<longleftrightarrow> remaining s = []"
  "Block (refresh_loop s) = [] \<Longrightarrow> Finished (refresh_loop s)"
proof (atomize (full), induction s rule: refresh_loop.induct)
  case (1 s)
  show ?case
  proof (cases "IsEmpty s \<and> \<not> Finished s")
    case True
    then have "refresh_loop s = refresh_loop (RefreshBlock s)"
      by (subst refresh_loop.simps) simp
    with 1 True show ?thesis by (simp add: RefreshBlock_remaining)
  next
    case False
    then have "refresh_loop s = s" by (subst refresh_loop.simps) auto
    with False show ?thesis by (auto simp: remaining_def IsEmpty_def)
  qed
qed

lemma Refresh_cases:
  "remaining s = [] \<Longrightarrow> Refresh False s = Inl (Thrown ''Premature end of stream'')"
  "remaining s \<noteq> [] \<or> a \<Longrightarrow> Refresh a s = Inr (refresh_loop s)"
  using refresh_loop_spec [of s] by (auto simp: Refresh_def Let_def IsEmpty_def)

lemma GetChar_Cons:
  assumes "remaining s = b # bs"
  obtains s' where "GetChar a s = Inr (b, s')" "settled s'" "remaining s' = b # bs"
    "Advance 1 s' = Inr (s'\<lparr>Block := tl (Block s')\<rparr>)"
    "remaining (s'\<lparr>Block := tl (Block s')\<rparr>) = bs"
proof -
  define s' where "s' = (if IsEmpty s then refresh_loop s else s)"
  have "GetChar a s = Inr (hd (Block s'), s')" "Block s' \<noteq> []" "remaining s' = b # bs"
    using assms Refresh_cases(2) [of s a] refresh_loop_spec [of s]
    by (auto simp: GetChar_def s'_def IsEmpty_def)
  moreover from this have "hd (Block s') = b" "settled s'"
    by (auto simp: remaining_def settled_def neq_Nil_conv)
  moreover from calculation have "Advance 1 s' = Inr (s'\<lparr>Block := tl (Block s')\<rparr>)"
    "remaining (s'\<lparr>Block := tl (Block s')\<rparr>) = bs"
    by (auto simp: Advance_def remaining_def neq_Nil_conv)
  ultimately show ?thesis using that by blast
qed

lemma GetChar_Nil:
  assumes "remaining s = []"
  shows "GetChar True s = Inr (0, refresh_loop s)" "Block (refresh_loop s) = []"
    "GetChar False s = Inl (Thrown ''Premature end of stream'')"
proof -
  from assms have "Block s = []" by (simp add: remaining_def)
  with assms refresh_loop_spec [of s] Refresh_cases [of s]
  show "GetChar True s = Inr (0, refresh_loop s)" "Block (refresh_loop s) = []"
    "GetChar False s = Inl (Thrown ''Premature end of stream'')"
    by (simp_all add: GetChar_def IsEmpty_def)
qed

fun next_byte_of :: "byte list \<Rightarrow> (byte \<times> byte list) res" where
  "next_byte_of [] = Inl (Thrown ''Premature end of stream'')"
| "next_byte_of (b # bs) = Inr (b, bs)"

lemma flat_next_byte: "flat (next_byte s) = next_byte_of (remaining s)"
proof (cases "remaining s")
  case Nil
  then have "Block s = []" by (simp add: remaining_def)
  with Nil show ?thesis by (simp add: next_byte_def IsEmpty_def Refresh_cases)
next
  case (Cons b bs)
  define s' where "s' = (if IsEmpty s then refresh_loop s else s)"
  have s': "remaining s' = b # bs" "Block s' \<noteq> []"
    using Cons refresh_loop_spec [of s] by (auto simp: s'_def IsEmpty_def)
  have "next_byte s = rbind (Advance 1 s') (\<lambda>s''. Inr (hd (Block s'), s''))"
    using Cons by (simp add: next_byte_def s'_def Refresh_cases)
  with s' Cons show ?thesis
    by (auto simp: Advance_def remaining_def neq_Nil_conv)
qed

section \<open>Varints: the fast paths agree with the byte-wise reading\<close>

fun varint_of :: "nat \<Rightarrow> u64 \<Rightarrow> byte list \<Rightarrow> (u64 \<times> byte list) res" where
  "varint_of 0 result bs = Inl (Thrown ''Error parsing varint value'')"
| "varint_of (Suc k) result bs =
     rbind (next_byte_of bs) (\<lambda>(b, bs).
       let result = result OR push_bit (7 * (MaxVarintBytes - Suc k)) (ucast (b AND 0x7F)) in
       if b AND 0x80 \<noteq> 0 then varint_of k result bs else Inr (result, bs))"

lemma flat_ReadVarint64Slow_loop:
  "flat (ReadVarint64Slow_loop k result s) = varint_of k result (remaining s)"
proof (induction k arbitrary: result s)
  case (Suc k)
  show ?case
    unfolding ReadVarint64Slow_loop.simps varint_of.simps flat_next_byte [symmetric]
    by (rule flat_rbind) (simp add: Let_def Suc.IH)
qed simp

lemma ucast_and_7F: "(ucast b :: 'a::len word) AND 0x7F = ucast ((b::byte) AND 0x7F)"
  by (rule bit_word_eqI) (auto simp: bit_simps dest: bit_imp_le_length)

text \<open>An array that ends a varint before its own end is read within bounds.\<close>

definition ends_inside :: "nat \<Rightarrow> byte list \<Rightarrow> bool" where
  "ends_inside k bs \<longleftrightarrow> k \<le> length bs \<or> bs \<noteq> [] \<and> last bs AND 0x80 = 0"

lemma ends_inside_Cons:
  "ends_inside (Suc k) (b # bs) \<Longrightarrow> b AND 0x80 \<noteq> 0 \<Longrightarrow> ends_inside k bs"
  by (auto simp: ends_inside_def split: if_splits)

text \<open>
  The array reader in terms of \<open>varint_of\<close>, for 64-bit results (\<open>h\<close> the identity) and for
  results truncated to 32 bits (\<open>h\<close> the truncation).
\<close>

definition array_agrees ::
  "(u64 \<Rightarrow> 'a::len word) \<Rightarrow> (u64 \<times> byte list) res \<Rightarrow> byte list \<Rightarrow> byte list \<Rightarrow> nat \<Rightarrow>
   ('a word \<times> nat) res \<Rightarrow> bool" where
  "array_agrees h spec bs rest n r \<longleftrightarrow>
     (case r of
        Inl e \<Rightarrow> spec = Inl e
      | Inr (v, m) \<Rightarrow> \<exists>w. h w = v \<and> n \<le> m \<and> m - n \<le> length bs \<and>
          spec = Inr (w, drop (m - n) bs @ rest))"

lemma array_agrees_Cons:
  "array_agrees h spec bs rest (Suc n) r \<Longrightarrow> array_agrees h spec (b # bs) rest n r"
  unfolding array_agrees_def
  by (auto split: sum.splits simp: Suc_diff_le drop_Cons' le_diff_conv)

lemma varint_array_eq:
  assumes "ends_inside (length fs) bs"
    and "\<And>i r b. i < length fs \<Longrightarrow>
      h (r OR push_bit (7 * (10 - (length fs - i))) (ucast (b AND 0x7F))) =
      h r OR (fs ! i) (ucast (b::byte))"
  shows "array_agrees h (varint_of (length fs) result (bs @ rest)) bs rest n
    (varint_array fs (h result) bs n)"
  using assms
proof (induction fs arbitrary: result bs n)
  case Nil
  then show ?case by (simp add: array_agrees_def)
next
  case (Cons f fs)
  from Cons.prems(1) obtain b bs' where bs: "bs = b # bs'"
    by (cases bs) (auto simp: ends_inside_def)
  let ?r = "result OR push_bit (7 * (10 - Suc (length fs))) (ucast (b AND 0x7F))"
  have h: "h result OR f (ucast b) = h ?r" using Cons.prems(2) [of 0] by simp
  show ?case
  proof (cases "b AND 0x80 = 0")
    case True
    then show ?thesis
      by (simp add: bs h Let_def MaxVarintBytes_def array_agrees_def)
  next
    case False
    have step: "\<And>i r b. i < length fs \<Longrightarrow>
      h (r OR push_bit (7 * (10 - (length fs - i))) (ucast (b AND 0x7F))) =
      h r OR (fs ! i) (ucast (b::byte))"
      using Cons.prems(2) [of "Suc i" for i] by simp
    have "ends_inside (length fs) bs'"
      using Cons.prems(1) False bs by (intro ends_inside_Cons [of _ b bs']) simp_all
    from Cons.IH [OF this step, where n = "Suc n" and result = ?r] False
    show ?thesis
      by (simp add: bs h Let_def MaxVarintBytes_def array_agrees_Cons)
  qed
qed

lemma on_fast_path_ends: "on_fast_path s \<longleftrightarrow> ends_inside 10 (Block s)"
  by (auto simp: on_fast_path_def ends_inside_def MaxVarintBytes_def)

text \<open>Stepping over the bytes that the array reader consumed.\<close>

lemma flat_array:
  assumes "array_agrees h (varint_of 10 0 (remaining s)) (Block s) rest 0 r"
    and "remaining s = Block s @ rest"
  shows "flat (rbind r (\<lambda>(v, n). rbind (Advance n s) (\<lambda>s. Inr (v, s)))) =
    rbind (varint_of 10 0 (remaining s)) (\<lambda>(w, bs). Inr (h w, bs))"
proof (cases r)
  case (Inl e)
  with assms show ?thesis by (simp add: array_agrees_def)
next
  case (Inr p)
  obtain v n where "p = (v, n)" by (cases p)
  with Inr assms show ?thesis
    by (auto simp: array_agrees_def Advance_def) (auto simp: remaining_def)
qed

lemma remaining_Block: "\<exists>rest. remaining s = Block s @ rest"
  by (simp add: remaining_def)

lemma length_varint_steps: "length varint64_steps = 10" "length varint32_steps = 10"
  by (simp_all add: varint64_steps_def varint32_steps_def MaxVarintBytes_def)

lemma all_less_10: "(\<And>i. i \<in> {0,1,2,3,4,5,6,7,8,9} \<Longrightarrow> P i) \<Longrightarrow> i < (10::nat) \<Longrightarrow> P i"
  by (auto simp: eval_nat_numeral less_Suc_eq)

lemma varint64_step:
  "i < 10 \<Longrightarrow> r OR push_bit (7 * (10 - (10 - i))) (ucast (b AND 0x7F)) =
     r OR (varint64_steps ! i) (ucast (b::byte))"
  by (rule all_less_10 [of _ i]) (auto simp: varint64_steps_def ucast_and_7F simp del: push_bit_and)

lemma flat_ReadVarint64: "flat (ReadVarint64 s) = varint_of 10 0 (remaining s)"
proof (cases "on_fast_path s")
  case True
  obtain rest where rest: "remaining s = Block s @ rest" using remaining_Block by blast
  have "array_agrees id (varint_of 10 0 (remaining s)) (Block s) rest 0
    (varint_array varint64_steps (id 0) (Block s) 0)"
    using varint_array_eq [of varint64_steps "Block s" id 0 rest 0] True varint64_step rest
    by (simp add: length_varint_steps on_fast_path_ends)
  from flat_array [OF this rest] True show ?thesis
    by (cases "varint_of 10 0 (remaining s)") (auto simp: ReadVarint64_def)
next
  case False
  then show ?thesis
    by (simp add: ReadVarint64_def ReadVarint64Slow_def flat_ReadVarint64Slow_loop
        MaxVarintBytes_def)
qed


lemma ucast_or_push:
  "(ucast (r OR push_bit n w :: u64) :: u32) = ucast r OR push_bit n (ucast w)"
  by (rule bit_word_eqI) (auto simp: bit_simps)

lemma ucast_ucast_byte: "(ucast (ucast (b::byte) :: u64) :: u32) = ucast b"
  by (rule bit_word_eqI) (auto simp: bit_simps)

lemma push_bit_u32_high: "32 \<le> n \<Longrightarrow> push_bit n (w::u32) = 0"
  by (rule bit_word_eqI) (auto simp: bit_simps)

lemma byte_and_7F: "(b::byte) AND 0x7F = take_bit 7 b"
  by (simp add: take_bit_eq_mask mask_numeral)

lemma push_bit_28: "push_bit 28 (ucast ((b::byte) AND 0x7F) :: u32) = push_bit 28 (ucast b)"
  unfolding byte_and_7F by (rule bit_word_eqI) (auto simp: bit_simps)

lemma varint32_step:
  "i < 10 \<Longrightarrow> (ucast (r OR push_bit (7 * (10 - (10 - i))) (ucast (b AND 0x7F)) :: u64) :: u32) =
     ucast r OR (varint32_steps ! i) (ucast (b::byte))"
  by (rule all_less_10 [of _ i])
    (auto simp: varint32_steps_def MaxVarintBytes_def ucast_and_7F ucast_or_push ucast_ucast_byte push_bit_28
      push_bit_u32_high nth_append simp del: push_bit_and push_bit_Suc)

lemma flat_ReadVarint64Slow: "flat (ReadVarint64Slow s) = varint_of 10 0 (remaining s)"
  by (simp add: ReadVarint64Slow_def flat_ReadVarint64Slow_loop MaxVarintBytes_def)

lemma and_80_iff: "(b::byte) AND 0x80 = 0 \<longleftrightarrow> b < 0x80"
  using byte_and_128 [of b] by (simp add: word_less_nat_alt)

lemma flat_ReadVarint32:
  "flat (ReadVarint32 s) = rbind (varint_of 10 0 (remaining s)) (\<lambda>(w, bs). Inr (ucast w, bs))"
proof -
  obtain rest where rest: "remaining s = Block s @ rest" using remaining_Block by blast
  consider (quick) "\<not> IsEmpty s \<and> hd (Block s) < 0x80"
    | (fast) "\<not> (\<not> IsEmpty s \<and> hd (Block s) < 0x80)" "on_fast_path s"
    | (slow) "\<not> (\<not> IsEmpty s \<and> hd (Block s) < 0x80)" "\<not> on_fast_path s" by blast
  then show ?thesis
  proof cases
    case quick
    then obtain b bs where b: "Block s = b # bs" "b < 0x80"
      by (cases "Block s") (auto simp: IsEmpty_def)
    then have "b AND 0x80 = 0" "b AND 0x7F = b"
      by (simp_all add: and_80_iff byte_and_127 word_less_nat_alt)
    with b show ?thesis
      unfolding rest using rest
      by (auto simp add: ReadVarint32_def IsEmpty_def Advance_def eval_nat_numeral MaxVarintBytes_def
          ucast_ucast_byte remaining_def simp del: push_bit_Suc)
  next
    case fast
    have "array_agrees ucast (varint_of 10 0 (remaining s)) (Block s) rest 0
      (varint_array varint32_steps (ucast (0::u64)) (Block s) 0)"
      using varint_array_eq [of varint32_steps "Block s" ucast 0 rest 0] fast varint32_step rest
      by (simp add: length_varint_steps on_fast_path_ends)
    from flat_array [OF this rest] fast show ?thesis
      by (auto simp add: ReadVarint32_def ReadVarint32Fallback_def ReadVarint32FromArray_def)
  next
    case slow
    then show ?thesis
      unfolding flat_ReadVarint64 [symmetric]
      by (auto simp: ReadVarint32_def ReadVarint32Fallback_def ReadVarint32Slow_def flat_def
          rbind_assoc intro!: rbind_cong split: prod.splits)
  qed
qed
section \<open>Literals\<close>

datatype ENumericResult = NR_Int64 | NR_Uint64 | NR_Double

lemma GetChar_remaining:
  "GetChar a s = Inr (ch, s') \<Longrightarrow> remaining s' = remaining s \<and> (ch \<noteq> 0 \<longrightarrow> Block s' \<noteq> [])"
  by (cases "remaining s"; cases a)
    (auto simp: GetChar_Nil refresh_loop_spec elim!: GetChar_Cons [of s _ _ a] simp: settled_def)

lemma Advance_1_remaining:
  "Advance (Suc 0) s = Inr s' \<Longrightarrow> length (remaining s) = Suc (length (remaining s'))"
  by (cases "Block s") (auto simp: Advance_def remaining_def split: if_splits)

lemma next_byte_remaining:
  "next_byte s = Inr (b, s') \<Longrightarrow> length (remaining s') < length (remaining s)"
  using flat_next_byte [of s] by (cases "remaining s") auto

text \<open>The loop of \<open>ReadNumeric\<close> with \<open>AllowFinish\<close>, the buffer so far and the kind seen so far.\<close>

function ReadNumeric_loop ::
  "byte list \<Rightarrow> ENumericResult \<Rightarrow> TBlockStream \<Rightarrow> ((ENumericResult \<times> byte list) \<times> TBlockStream) res"
  where
  "ReadNumeric_loop buffer result s =
     rbind (GetChar True s) (\<lambda>(ch, s).
       if isdigit ch \<or> ch = PlusChar \<or> ch = MinusChar then
         rbind (Advance 1 s) (ReadNumeric_loop (buffer @ [ch]) result)
       else if ch = DotChar \<or> ch = 0x65 \<or> ch = 0x45 then
         rbind (Advance 1 s) (ReadNumeric_loop (buffer @ [ch]) NR_Double)
       else if ch = 0x75 then
         rbind (Advance 1 s) (ReadNumeric_loop (buffer @ [ch]) NR_Uint64)
       else if isalpha ch then Inl (Thrown ''Unexpected character in numeric literal'')
       else Inr ((result, buffer), s))"
  by pat_completeness auto
termination
  by (relation "measure (\<lambda>(buffer, result, s). length (remaining s))")
    (auto dest!: GetChar_remaining Advance_1_remaining)

definition ReadNumeric ::
  "TBlockStream \<Rightarrow> ((ENumericResult \<times> byte list) \<times> TBlockStream) res" where
  "ReadNumeric s = ReadNumeric_loop [] NR_Int64 s"

text \<open>Reading the characters of an expected literal one by one.\<close>

fun expect_chars :: "yt_error \<Rightarrow> byte list \<Rightarrow> TBlockStream \<Rightarrow> TBlockStream res" where
  "expect_chars err [] s = Inr s"
| "expect_chars err (c # cs) s =
     rbind (GetChar False s) (\<lambda>(ch, s).
       rbind (Advance 1 s) (\<lambda>s.
         if ch \<noteq> c then Inl err else expect_chars err cs s))"

definition ReadNanOrInf :: "TBlockStream \<Rightarrow> (u64 \<times> TBlockStream) res" where
  "ReadNanOrInf s =
     rbind (GetChar False s) (\<lambda>(ch, s).
       rbind (Advance 1 s) (\<lambda>s.
         rbind
           (if ch = PlusChar then Inr (str ''+inf'', 0x7FF0000000000000)
            else if ch = MinusChar then Inr (str ''-inf'', 0xFFF0000000000000)
            else if ch = 0x69 then Inr (str ''inf'', 0x7FF0000000000000)
            else if ch = 0x6E then Inr (str ''nan'', 0x7FF8000000000000)
            else Inl (Thrown ''Incorrect %-literal prefix''))
           (\<lambda>(expectedString, expectedValue).
             rbind (expect_chars (Thrown ''Incorrect %-literal prefix'') (tl expectedString) s)
               (\<lambda>s. Inr (expectedValue, s)))))"

definition ReadBoolean :: "TBlockStream \<Rightarrow> (bool \<times> TBlockStream) res" where
  "ReadBoolean s =
     rbind (GetChar False s) (\<lambda>(ch, s).
       rbind (Advance 1 s) (\<lambda>s.
         if ch = hd (str ''true'') then
           rbind (expect_chars (Thrown ''Failed to parse boolean literal'') (tl (str ''true'')) s)
             (\<lambda>s. Inr (True, s))
         else if ch = hd (str ''false'') then
           rbind (expect_chars (Thrown ''Failed to parse boolean literal'') (tl (str ''false'')) s)
             (\<lambda>s. Inr (False, s))
         else Inl (Thrown ''Failed to parse boolean literal'')))"

text \<open>The number of backslashes at the end of the buffer decides whether a quote is escaped.\<close>

definition slash_count :: "byte list \<Rightarrow> nat" where
  "slash_count buffer = length (takeWhile (\<lambda>ch. ch = BackslashChar) (rev buffer))"

function ReadQuotedString_loop :: "byte list \<Rightarrow> TBlockStream \<Rightarrow> (byte list \<times> TBlockStream) res" where
  "ReadQuotedString_loop buffer s =
     rbind (next_byte s) (\<lambda>(ch, s).
       if ch \<noteq> QuoteChar then ReadQuotedString_loop (buffer @ [ch]) s
       else if slash_count buffer mod 2 = 0 then Inr (buffer, s)
       else ReadQuotedString_loop (buffer @ [ch]) s)"
  by pat_completeness auto
termination
  by (relation "measure (\<lambda>(buffer, s). length (remaining s))")
    (auto dest!: next_byte_remaining)

text \<open>
  Conversions of the \<open>util\<close> library that the lexer calls: \<open>FromString\<close> for the three numeric
  types and \<open>UnescapeC\<close>.
\<close>

record text_lib =
  FromString_double :: "byte list \<Rightarrow> u64 res"
  FromString_i64 :: "byte list \<Rightarrow> u64 res"
  FromString_ui64 :: "byte list \<Rightarrow> u64 res"
  UnescapeC :: "byte list \<Rightarrow> byte list"

definition ReadQuotedString :: "text_lib \<Rightarrow> TBlockStream \<Rightarrow> (byte list \<times> TBlockStream) res" where
  "ReadQuotedString L s =
     rbind (ReadQuotedString_loop [] s) (\<lambda>(buffer, s). Inr (UnescapeC L buffer, s))"

definition is_unquoted_char :: "byte \<Rightarrow> bool" where
  "is_unquoted_char ch \<longleftrightarrow>
     isalpha ch \<or> isdigit ch \<or> ch = UnderscoreChar \<or> ch = MinusChar \<or> ch = PercentChar \<or>
     ch = DotChar"

function ReadUnquotedString_loop :: "byte list \<Rightarrow> TBlockStream \<Rightarrow> (byte list \<times> TBlockStream) res" where
  "ReadUnquotedString_loop buffer s =
     rbind (GetChar True s) (\<lambda>(ch, s).
       if is_unquoted_char ch
       then rbind (Advance 1 s) (ReadUnquotedString_loop (buffer @ [ch]))
       else Inr (buffer, s))"
  by pat_completeness auto
termination
  by (relation "measure (\<lambda>(buffer, s). length (remaining s))")
    (auto dest!: GetChar_remaining Advance_1_remaining)

definition ReadUnquotedString :: "TBlockStream \<Rightarrow> (byte list \<times> TBlockStream) res" where
  "ReadUnquotedString s = ReadUnquotedString_loop [] s"

declare ReadNumeric_loop.simps [simp del] ReadQuotedString_loop.simps [simp del]
  ReadUnquotedString_loop.simps [simp del]

text \<open>Collecting \<open>needToRead\<close> bytes that may span several blocks.\<close>

function read_blocks :: "nat \<Rightarrow> byte list \<Rightarrow> TBlockStream \<Rightarrow> (byte list \<times> TBlockStream) res" where
  "read_blocks needToRead buffer s =
     (if needToRead = 0 then Inr (buffer, s)
      else if IsEmpty s then rbind (Refresh False s) (read_blocks needToRead buffer)
      else let readingBytes = min needToRead (Length s) in
        rbind (Advance readingBytes s)
          (read_blocks (needToRead - readingBytes) (buffer @ take readingBytes (Block s))))"
  by pat_completeness auto
termination
proof (relation "measure (\<lambda>(n, buffer, s). 2 * n + (if IsEmpty s then 1 else 0))")
  fix n :: nat and buffer :: "byte list" and s t
  assume "n \<noteq> 0" "IsEmpty s" "Refresh False s = Inr t"
  moreover from this have "remaining s \<noteq> []" by (auto simp: Refresh_cases)
  ultimately show "((n, buffer, t), (n, buffer, s)) \<in>
    measure (\<lambda>(n, buffer, s). 2 * n + (if IsEmpty s then 1 else 0))"
    using refresh_loop_spec [of s] by (auto simp: Refresh_cases IsEmpty_def)
qed (auto simp: Length_def IsEmpty_def Advance_def min_def neq_Nil_conv split: if_splits)

declare read_blocks.simps [simp del]

definition ReadBinaryString :: "TBlockStream \<Rightarrow> (byte list \<times> TBlockStream) res" where
  "ReadBinaryString s =
     rbind (ReadVarint32 s) (\<lambda>(ulength, s).
       let len = ZigZagDecode32 ulength in
       if sint len < 0 then Inl (Thrown ''Negative binary string literal length'')
       else if unat len \<le> Length s then
         rbind (Advance (unat len) s) (\<lambda>s'. Inr (take (unat len) (Block s), s'))
       else read_blocks (unat len) [] s)"

definition ReadBinaryInt64 :: "TBlockStream \<Rightarrow> (u64 \<times> TBlockStream) res" where
  "ReadBinaryInt64 s = rbind (ReadVarint64 s) (\<lambda>(uvalue, s). Inr (ZigZagDecode64 uvalue, s))"

definition ReadBinaryUint64 :: "TBlockStream \<Rightarrow> (u64 \<times> TBlockStream) res" where
  "ReadBinaryUint64 s = ReadVarint64 s"

text \<open>The object representation of a 64-bit word, little-endian.\<close>

fun le_bytes :: "nat \<Rightarrow> 'a::len word \<Rightarrow> byte list" where
  "le_bytes 0 w = []"
| "le_bytes (Suc n) w = ucast w # le_bytes n (drop_bit 8 w)"

fun of_le_bytes :: "byte list \<Rightarrow> 'a::len word" where
  "of_le_bytes [] = 0"
| "of_le_bytes (b # bs) = ucast b OR push_bit 8 (of_le_bytes bs)"

definition ReadBinaryDouble :: "TBlockStream \<Rightarrow> (u64 \<times> TBlockStream) res" where
  "ReadBinaryDouble s = rbind (read_blocks 8 [] s) (\<lambda>(bytes, s). Inr (of_le_bytes bytes, s))"

function SkipSpaceAndGetCharFallback :: "TBlockStream \<Rightarrow> (byte \<times> TBlockStream) res" where
  "SkipSpaceAndGetCharFallback s =
     (if IsEmpty s then
        if Finished s then Inr (0, s)
        else rbind (Refresh True s) SkipSpaceAndGetCharFallback
      else if IsSpace (hd (Block s)) then rbind (Advance 1 s) SkipSpaceAndGetCharFallback
      else GetChar True s)"
  by pat_completeness auto
termination
proof (relation "measure (\<lambda>s. 2 * length (remaining s) + (if IsEmpty s \<and> \<not> Finished s then 1 else 0))")
  fix s t
  assume "IsEmpty s" "\<not> Finished s" "Refresh True s = Inr t"
  then show "(t, s) \<in>
    measure (\<lambda>s. 2 * length (remaining s) + (if IsEmpty s \<and> \<not> Finished s then 1 else 0))"
    using refresh_loop_spec [of s] by (auto simp: Refresh_cases IsEmpty_def)
qed (auto dest: Advance_1_remaining)

declare SkipSpaceAndGetCharFallback.simps [simp del]

definition SkipSpaceAndGetChar :: "TBlockStream \<Rightarrow> (byte \<times> TBlockStream) res" where
  "SkipSpaceAndGetChar s =
     (if \<not> IsEmpty s \<and> \<not> IsSpace (hd (Block s)) then Inr (hd (Block s), s)
      else SkipSpaceAndGetCharFallback s)"


section \<open>Independence of the division into blocks\<close>

text \<open>
  The contract of a reader: its result depends only on the remaining bytes, of which it
  consumes a prefix.
\<close>

locale stream_reader =
  fixes read :: "TBlockStream \<Rightarrow> ('a \<times> TBlockStream) res"
  assumes read_indep: "remaining s = remaining t \<Longrightarrow> flat (read s) = flat (read t)"
    and read_length: "read s = Inr (x, s') \<Longrightarrow> length (remaining s') \<le> length (remaining s)"
begin

lemma read_same:
  assumes "remaining s = remaining t" "read s = Inr (x, s')"
  obtains t' where "read t = Inr (x, t')" "remaining t' = remaining s'"
proof -
  have "flat (read t) = Inr (x, remaining s')"
    using read_indep [OF assms(1)] assms(2) by simp
  then show ?thesis using that by (auto simp: flat_eq_Inr)
qed

lemma read_one_block: "flat (read s) = flat (read \<lparr>Block = remaining s, Pending = [], Finished = True\<rparr>)"
  by (rule read_indep) (simp add: remaining_def)

end

lemma flat_spec_reader:
  assumes "\<And>s. flat (r s) = spec (remaining s)"
    and "\<And>bs x cs. spec bs = Inr (x, cs) \<Longrightarrow> length cs \<le> length bs"
  shows "stream_reader r"
proof
  show "flat (r s) = flat (r t)" if "remaining s = remaining t" for s t
    using that by (simp add: assms(1))
  show "length (remaining s') \<le> length (remaining s)" if "r s = Inr (x, s')" for s x s'
    using assms(1) [of s] that by (intro assms(2) [of _ x]) simp
qed

lemma stream_reader_return: "stream_reader (\<lambda>s. Inr (x, s))"
  by unfold_locales auto

lemma stream_reader_throw: "stream_reader (\<lambda>s. Inl e)"
  by unfold_locales auto

lemma stream_reader_bind:
  assumes "stream_reader r" "\<And>x. stream_reader (f x)"
  shows "stream_reader (\<lambda>s. rbind (r s) (\<lambda>(x, s). f x s))"
proof
  fix s t :: TBlockStream
  assume "remaining s = remaining t"
  from stream_reader.read_indep [OF assms(1) this]
  show "flat (rbind (r s) (\<lambda>(x, s). f x s)) = flat (rbind (r t) (\<lambda>(x, s). f x s))"
    by (cases "r s"; cases "r t") (auto intro!: stream_reader.read_indep [OF assms(2)])
next
  fix s x s'
  assume "rbind (r s) (\<lambda>(x, s). f x s) = Inr (x, s')"
  then show "length (remaining s') \<le> length (remaining s)"
    using stream_reader.read_length [OF assms(1)] stream_reader.read_length [OF assms(2)]
    by (fastforce intro: order_trans)
qed

lemma varint_of_length: "varint_of k r bs = Inr (x, cs) \<Longrightarrow> length cs < length bs"
proof (induction k arbitrary: r bs)
  case (Suc k)
  then show ?case by (cases bs) (force simp: Let_def split: if_splits)+
qed simp

interpretation next_byte: stream_reader next_byte
  by (rule flat_spec_reader [where spec = next_byte_of])
    (auto simp: flat_next_byte elim: next_byte_of.elims)

interpretation ReadVarint64: stream_reader ReadVarint64
  by (rule flat_spec_reader [where spec = "varint_of 10 0"])
    (auto simp: flat_ReadVarint64 dest: varint_of_length)

interpretation ReadVarint32: stream_reader ReadVarint32
  by (rule flat_spec_reader [where
        spec = "\<lambda>bs. rbind (varint_of 10 0 bs) (\<lambda>(w, bs). Inr (ucast w, bs))"])
    (auto simp: flat_ReadVarint32 dest: varint_of_length)

text \<open>Looking at a character and stepping over it.\<close>

lemma peek_indep:
  assumes "remaining s = remaining t"
    and "\<And>ch s' t'. GetChar a s = Inr (ch, s') \<Longrightarrow> settled s' \<Longrightarrow> settled t' \<Longrightarrow>
      remaining s' = remaining s \<Longrightarrow> remaining t' = remaining s \<Longrightarrow> flat (f (ch, s')) = flat (f (ch, t'))"
  shows "flat (rbind (GetChar a s) f) = flat (rbind (GetChar a t) f)"
proof (cases "remaining s")
  case Nil
  with assms(1) have t: "remaining t = []" by simp
  show ?thesis
  proof (cases a)
    case True
    then show ?thesis
      using Nil t assms(2) [of 0 "refresh_loop s" "refresh_loop t"]
      by (simp add: GetChar_Nil refresh_loop_spec settled_def)
  next
    case False
    with Nil t show ?thesis by (simp add: GetChar_Nil)
  qed
next
  case (Cons b bs)
  obtain s' where s': "GetChar a s = Inr (b, s')" "settled s'" "remaining s' = b # bs"
    using GetChar_Cons [OF Cons, of a] by metis
  obtain t' where "GetChar a t = Inr (b, t')" "settled t'" "remaining t' = b # bs"
    using GetChar_Cons [of t b bs a] Cons assms(1) by metis
  with s' Cons assms(2) [of b s' t'] show ?thesis by simp
qed

lemma advance_indep:
  assumes "settled s" "settled t" "remaining s = remaining t"
    and "\<And>s' t'. Advance (Suc 0) s = Inr s' \<Longrightarrow> remaining s' = remaining t' \<Longrightarrow>
      Suc (length (remaining s')) = length (remaining s) \<Longrightarrow> flat (f s') = flat (f t')"
  shows "flat (rbind (Advance (Suc 0) s) f) = flat (rbind (Advance (Suc 0) t) f)"
proof (cases "remaining s")
  case Nil
  with assms(3) have "Block s = []" "Block t = []" by (auto simp: remaining_def)
  then show ?thesis by (simp add: Advance_def)
next
  case (Cons b bs)
  with assms(1-3) have "Block s \<noteq> []" "Block t \<noteq> []" by (auto simp: settled_def)
  moreover from this Cons assms(3)
  have "remaining (s\<lparr>Block := tl (Block s)\<rparr>) = bs" "remaining (t\<lparr>Block := tl (Block t)\<rparr>) = bs"
    by (auto simp: remaining_def neq_Nil_conv)
  ultimately show ?thesis
    using Cons assms(4) [of "s\<lparr>Block := tl (Block s)\<rparr>" "t\<lparr>Block := tl (Block t)\<rparr>"]
    by (auto simp: Advance_def neq_Nil_conv)
qed

lemma flat_read_blocks:
  "flat (read_blocks n buffer s) =
     (if n \<le> length (remaining s) then Inr (buffer @ take n (remaining s), drop n (remaining s))
      else Inl (Thrown ''Premature end of stream''))"
proof (induction n buffer s rule: read_blocks.induct)
  case (1 n buffer s)
  consider "n = 0" | "n \<noteq> 0" "IsEmpty s" | "n \<noteq> 0" "\<not> IsEmpty s" by blast
  then show ?case
  proof cases
    case 1
    then show ?thesis by (simp add: read_blocks.simps)
  next
    case 2
    show ?thesis
    proof (cases "remaining s = []")
      case True
      with 2 show ?thesis by (subst read_blocks.simps) (simp add: Refresh_cases)
    next
      case False
      with 2 1(1) show ?thesis
        by (subst read_blocks.simps) (simp add: Refresh_cases refresh_loop_spec)
    qed
  next
    case 3
    define k where "k = min n (Length s)"
    obtain rest where rest: "remaining s = Block s @ rest" using remaining_Block by blast
    have adv: "Advance k s = Inr (s\<lparr>Block := drop k (Block s)\<rparr>)"
      by (simp add: Advance_def k_def Length_def)
    have rem: "remaining (s\<lparr>Block := drop k (Block s)\<rparr>) = drop k (Block s) @ rest"
      using rest by (auto simp: remaining_def)
    have "flat (read_blocks n buffer s) =
      flat (read_blocks (n - k) (buffer @ take k (Block s)) (s\<lparr>Block := drop k (Block s)\<rparr>))"
      using 3 adv by (subst read_blocks.simps) (simp add: k_def Let_def)
    also have "\<dots> = (if n - k \<le> length (drop k (Block s) @ rest)
      then Inr ((buffer @ take k (Block s)) @ take (n - k) (drop k (Block s) @ rest),
        drop (n - k) (drop k (Block s) @ rest))
      else Inl (Thrown ''Premature end of stream''))"
      using 1(2) [OF 3 k_def adv] rem by simp
    also have "\<dots> = (if n \<le> length (remaining s)
      then Inr (buffer @ take n (remaining s), drop n (remaining s))
      else Inl (Thrown ''Premature end of stream''))"
      unfolding rest k_def Length_def by (auto simp: min_def)
    finally show ?thesis .
  qed
qed

interpretation read_blocks: stream_reader "read_blocks n buffer" for n buffer
  by (rule flat_spec_reader [where
        spec = "\<lambda>bs. if n \<le> length bs then Inr (buffer @ take n bs, drop n bs)
          else Inl (Thrown ''Premature end of stream'')"])
    (auto simp: flat_read_blocks split: if_splits)


lemma ReadNumeric_loop_reader: "stream_reader (ReadNumeric_loop buffer result)"
proof
  show "flat (ReadNumeric_loop buffer result s) = flat (ReadNumeric_loop buffer result t)"
    if "remaining s = remaining t" for s t
    using that
  proof (induction buffer result s arbitrary: t rule: ReadNumeric_loop.induct)
    case (1 buffer result s)
    show ?case
      unfolding ReadNumeric_loop.simps [of buffer result s] ReadNumeric_loop.simps [of buffer result t]
      by (rule peek_indep [OF 1(4)]) (auto intro!: advance_indep 1(1-3))
  qed
  show "length (remaining s') \<le> length (remaining s)"
    if "ReadNumeric_loop buffer result s = Inr (x, s')" for s x s'
    using that
  proof (induction "length (remaining s)" arbitrary: buffer result s rule: less_induct)
    case less
    from less.prems show ?case
      unfolding ReadNumeric_loop.simps [of buffer result s]
      by (auto split: if_splits
          dest!: GetChar_remaining Advance_1_remaining less.hyps [rotated])
  qed
qed

lemma ReadUnquotedString_loop_reader: "stream_reader (ReadUnquotedString_loop buffer)"
proof
  show "flat (ReadUnquotedString_loop buffer s) = flat (ReadUnquotedString_loop buffer t)"
    if "remaining s = remaining t" for s t
    using that
  proof (induction buffer s arbitrary: t rule: ReadUnquotedString_loop.induct)
    case (1 buffer s)
    show ?case
      unfolding ReadUnquotedString_loop.simps [of buffer s] ReadUnquotedString_loop.simps [of buffer t]
      by (rule peek_indep [OF 1(2)]) (auto intro!: advance_indep 1(1))
  qed
  show "length (remaining s') \<le> length (remaining s)"
    if "ReadUnquotedString_loop buffer s = Inr (x, s')" for s x s'
    using that
  proof (induction "length (remaining s)" arbitrary: buffer s rule: less_induct)
    case less
    from less.prems show ?case
      unfolding ReadUnquotedString_loop.simps [of buffer s]
      by (auto split: if_splits
          dest!: GetChar_remaining Advance_1_remaining less.hyps [rotated])
  qed
qed

fun quoted_of :: "byte list \<Rightarrow> byte list \<Rightarrow> (byte list \<times> byte list) res" where
  "quoted_of buffer [] = Inl (Thrown ''Premature end of stream'')"
| "quoted_of buffer (ch # bs) =
     (if ch \<noteq> QuoteChar then quoted_of (buffer @ [ch]) bs
      else if slash_count buffer mod 2 = 0 then Inr (buffer, bs)
      else quoted_of (buffer @ [ch]) bs)"

lemma flat_ReadQuotedString_loop:
  "flat (ReadQuotedString_loop buffer s) = quoted_of buffer (remaining s)"
proof (induction buffer s rule: ReadQuotedString_loop.induct)
  case (1 buffer s)
  show ?case
  proof (cases "remaining s")
    case Nil
    then show ?thesis
      using flat_next_byte [of s] by (subst ReadQuotedString_loop.simps) (auto simp: flat_eq_Inl)
  next
    case (Cons ch bs)
    then obtain s' where "next_byte s = Inr (ch, s')" "remaining s' = bs"
      using flat_next_byte [of s] by (auto simp: flat_eq_Inr)
    with Cons 1 show ?thesis by (subst ReadQuotedString_loop.simps) simp
  qed
qed

lemma quoted_of_length: "quoted_of buffer bs = Inr (x, cs) \<Longrightarrow> length cs \<le> length bs"
  by (induction buffer bs rule: quoted_of.induct) (auto split: if_splits)

lemma ReadQuotedString_loop_reader: "stream_reader (ReadQuotedString_loop buffer)"
  by (rule flat_spec_reader [where spec = "quoted_of buffer"])
    (auto simp: flat_ReadQuotedString_loop quoted_of_length)

text \<open>A character that is looked at and then stepped over.\<close>

lemma stream_reader_char:
  assumes "\<And>ch. stream_reader (f ch)"
  shows "stream_reader (\<lambda>s. rbind (GetChar False s) (\<lambda>(ch, s). rbind (Advance (Suc 0) s) (f ch)))"
proof
  fix s t :: TBlockStream
  assume "remaining s = remaining t"
  then show "flat (rbind (GetChar False s) (\<lambda>(ch, s). rbind (Advance (Suc 0) s) (f ch))) =
    flat (rbind (GetChar False t) (\<lambda>(ch, s). rbind (Advance (Suc 0) s) (f ch)))"
    by (rule peek_indep) (auto intro!: advance_indep stream_reader.read_indep [OF assms])
next
  fix s x s'
  assume "rbind (GetChar False s) (\<lambda>(ch, s). rbind (Advance (Suc 0) s) (f ch)) = Inr (x, s')"
  then show "length (remaining s') \<le> length (remaining s)"
    by (auto dest!: GetChar_remaining Advance_1_remaining stream_reader.read_length [OF assms])
qed

lemma stream_reader_if:
  "stream_reader f \<Longrightarrow> stream_reader g \<Longrightarrow> stream_reader (\<lambda>s. if c then f s else g s)"
  by (cases c) simp_all

lemmas stream_reader_intros =
  stream_reader_return stream_reader_throw stream_reader_bind stream_reader_if stream_reader_char

lemma expect_chars_reader: "stream_reader (\<lambda>s. rbind (expect_chars err cs s) (\<lambda>s. Inr (x, s)))"
proof (induction cs)
  case Nil
  show ?case using stream_reader_return by simp
next
  case (Cons c cs)
  have "stream_reader (\<lambda>s. rbind (GetChar False s) (\<lambda>(ch, s). rbind (Advance (Suc 0) s)
    (\<lambda>s. if ch \<noteq> c then Inl err else rbind (expect_chars err cs s) (\<lambda>s. Inr (x, s)))))"
    by (intro stream_reader_char stream_reader_if stream_reader_throw Cons.IH)
  then show ?case
    by (rule back_subst [of stream_reader])
      (auto simp: fun_eq_iff rbind_def split: sum.splits prod.splits)
qed

interpretation ReadNanOrInf: stream_reader ReadNanOrInf
proof -
  have "stream_reader (\<lambda>s. rbind (GetChar False s) (\<lambda>(ch, s). rbind (Advance (Suc 0) s) (\<lambda>s.
         rbind
           (if ch = PlusChar then Inr (str ''+inf'', 0x7FF0000000000000)
            else if ch = MinusChar then Inr (str ''-inf'', 0xFFF0000000000000)
            else if ch = 0x69 then Inr (str ''inf'', 0x7FF0000000000000)
            else if ch = 0x6E then Inr (str ''nan'', 0x7FF8000000000000)
            else Inl (Thrown ''Incorrect %-literal prefix''))
           (\<lambda>(expectedString, expectedValue).
             rbind (expect_chars (Thrown ''Incorrect %-literal prefix'') (tl expectedString) s)
               (\<lambda>s. Inr (expectedValue :: u64, s))))))"
    by (rule stream_reader_char) (auto simp: expect_chars_reader stream_reader_throw)
  then show "stream_reader ReadNanOrInf"
    by (simp add: ReadNanOrInf_def [abs_def])
qed

interpretation ReadBoolean: stream_reader ReadBoolean
  unfolding ReadBoolean_def [abs_def] One_nat_def
  by (intro stream_reader_char stream_reader_if stream_reader_throw expect_chars_reader)

text \<open>Binary strings and doubles.\<close>

definition string_of :: "byte list \<Rightarrow> (byte list \<times> byte list) res" where
  "string_of bs =
     rbind (varint_of 10 0 bs) (\<lambda>(w, bs).
       let len = ZigZagDecode32 (ucast w) in
       if sint len < 0 then Inl (Thrown ''Negative binary string literal length'')
       else if unat len \<le> length bs then Inr (take (unat len) bs, drop (unat len) bs)
       else Inl (Thrown ''Premature end of stream''))"

lemma flat_take:
  "flat (if n \<le> Length s then rbind (Advance n s) (\<lambda>s'. Inr (take n (Block s), s'))
         else read_blocks n [] s) =
     (if n \<le> length (remaining s) then Inr (take n (remaining s), drop n (remaining s))
      else Inl (Thrown ''Premature end of stream''))"
  by (auto simp: flat_read_blocks Length_def Advance_def remaining_def)

lemma flat_ReadBinaryString: "flat (ReadBinaryString s) = string_of (remaining s)"
proof -
  have "flat (ReadBinaryString s) = rbind (flat (ReadVarint32 s)) (\<lambda>(u, bs).
    let len = ZigZagDecode32 u in
    if sint len < 0 then Inl (Thrown ''Negative binary string literal length'')
    else if unat len \<le> length bs then Inr (take (unat len) bs, drop (unat len) bs)
    else Inl (Thrown ''Premature end of stream''))"
    unfolding ReadBinaryString_def by (rule flat_rbind) (simp add: Let_def flat_take)
  then show ?thesis
    by (cases "varint_of 10 0 (remaining s)") (auto simp: flat_ReadVarint32 string_of_def)
qed

interpretation ReadBinaryString: stream_reader ReadBinaryString
  by (rule flat_spec_reader [where spec = string_of])
    (auto simp: flat_ReadBinaryString string_of_def Let_def dest: varint_of_length split: if_splits)

interpretation ReadBinaryDouble: stream_reader ReadBinaryDouble
  unfolding ReadBinaryDouble_def [abs_def]
  by (intro stream_reader_bind stream_reader_return read_blocks.stream_reader_axioms)

interpretation ReadBinaryInt64: stream_reader ReadBinaryInt64
  unfolding ReadBinaryInt64_def [abs_def]
  by (intro stream_reader_bind stream_reader_return ReadVarint64.stream_reader_axioms)

interpretation ReadBinaryUint64: stream_reader ReadBinaryUint64
  unfolding ReadBinaryUint64_def [abs_def] by (rule ReadVarint64.stream_reader_axioms)

interpretation ReadNumeric: stream_reader ReadNumeric
  unfolding ReadNumeric_def [abs_def] by (rule ReadNumeric_loop_reader)

interpretation ReadUnquotedString: stream_reader ReadUnquotedString
  unfolding ReadUnquotedString_def [abs_def] by (rule ReadUnquotedString_loop_reader)

interpretation ReadQuotedString: stream_reader "ReadQuotedString L" for L
  unfolding ReadQuotedString_def [abs_def]
  by (intro stream_reader_bind stream_reader_return ReadQuotedString_loop_reader)

definition skip_space_of :: "byte list \<Rightarrow> byte \<times> byte list" where
  "skip_space_of bs =
     (let rest = dropWhile IsSpace bs in (if rest = [] then 0 else hd rest, rest))"

lemma flat_SkipSpaceAndGetCharFallback:
  "flat (SkipSpaceAndGetCharFallback s) = Inr (skip_space_of (remaining s))"
proof (induction s rule: SkipSpaceAndGetCharFallback.induct)
  case (1 s)
  consider "IsEmpty s" "Finished s" | "IsEmpty s" "\<not> Finished s"
    | "\<not> IsEmpty s" "IsSpace (hd (Block s))" | "\<not> IsEmpty s" "\<not> IsSpace (hd (Block s))" by blast
  then show ?case
  proof cases
    case 1
    then show ?thesis
      by (subst SkipSpaceAndGetCharFallback.simps)
        (simp add: skip_space_of_def remaining_def IsEmpty_def)
  next
    case 2
    then show ?thesis using "1.IH"(1)
      by (subst SkipSpaceAndGetCharFallback.simps) (simp add: Refresh_cases refresh_loop_spec)
  next
    case 3
    then obtain b bs where b: "Block s = b # bs" by (cases "Block s") (auto simp: IsEmpty_def)
    have adv: "Advance 1 s = Inr (s\<lparr>Block := bs\<rparr>)" by (simp add: Advance_def b)
    have "remaining s = b # remaining (s\<lparr>Block := bs\<rparr>)" by (simp add: remaining_def b)
    with 3 b adv "1.IH"(2) [OF 3 adv] show ?thesis
      by (subst SkipSpaceAndGetCharFallback.simps) (simp add: skip_space_of_def)
  next
    case 4
    then obtain b bs where "Block s = b # bs" by (cases "Block s") (auto simp: IsEmpty_def)
    with 4 show ?thesis
      by (subst SkipSpaceAndGetCharFallback.simps)
        (simp add: skip_space_of_def GetChar_def remaining_def)
  qed
qed

lemma flat_SkipSpaceAndGetChar: "flat (SkipSpaceAndGetChar s) = Inr (skip_space_of (remaining s))"
  by (cases "Block s")
    (auto simp: SkipSpaceAndGetChar_def flat_SkipSpaceAndGetCharFallback IsEmpty_def
      skip_space_of_def remaining_def)

interpretation SkipSpaceAndGetChar: stream_reader SkipSpaceAndGetChar
  by (rule flat_spec_reader [where spec = "\<lambda>bs. Inr (skip_space_of bs)"])
    (auto simp: flat_SkipSpaceAndGetChar skip_space_of_def Let_def length_dropWhile_le)

section \<open>The varint readers of the coded stream\<close>

lemma varint_of_not_Undefined: "varint_of k r bs \<noteq> Inl (Undefined m)"
proof (induction k arbitrary: r bs)
  case (Suc k)
  then show ?case by (cases bs) (simp_all add: Let_def)
qed simp

text \<open>The varint readers of the YSON input stream are safe and independent of buffering: for
  every stream, whatever the division of its bytes into blocks, the unrolled fast path
  that reads straight from the current block gives the same value, the same error and
  leaves the same bytes unread as the byte-wise slow path; the 32-bit reader returns the
  truncation of the 64-bit result; and none of them ever reads behind the block.\<close>

theorem coded_stream_fast_paths_agree:
  "flat (ReadVarint64 s) = flat (ReadVarint64Slow s) \<and>
   flat (ReadVarint32 s) = flat (rbind (ReadVarint64Slow s) (\<lambda>(v, s). Inr (ucast v, s))) \<and>
   ReadVarint64 s \<noteq> Inl (Undefined m) \<and> ReadVarint32 s \<noteq> Inl (Undefined m)"
proof (intro conjI)
  show "flat (ReadVarint64 s) = flat (ReadVarint64Slow s)"
    by (simp add: flat_ReadVarint64 flat_ReadVarint64Slow)
  show "flat (ReadVarint32 s) = flat (rbind (ReadVarint64Slow s) (\<lambda>(v, s). Inr (ucast v, s)))"
    unfolding flat_ReadVarint32 flat_ReadVarint64Slow [symmetric]
    by (rule flat_rbind [symmetric]) simp
  show "ReadVarint64 s \<noteq> Inl (Undefined m)"
    using flat_ReadVarint64 [of s] varint_of_not_Undefined [of 10 0 "remaining s" m] by auto
  show "ReadVarint32 s \<noteq> Inl (Undefined m)"
    using flat_ReadVarint32 [of s] varint_of_not_Undefined [of 10 0 "remaining s" m]
    by (cases "varint_of 10 0 (remaining s)") auto
qed

end
