(* ===== verification/YsonParser.thy ===== *)
theory YsonParser
  imports YsonSyntax YsonLexer
begin

text \<open>
  The YSON pull parser \<open>TYsonPullParser\<close> (\<open>yt/yt/core/yson/pull_parser.h\<close>, \<open>pull_parser-inl.h\<close>,
  \<open>pull_parser.cpp\<close>) over the lexer and the syntax checker, and the binary token writer
  \<open>TUncheckedYsonTokenWriter\<close>/\<open>TCheckedYsonTokenWriter\<close> (\<open>token_writer-inl.h\<close>, \<open>token_writer.cpp\<close>).

  A visitor of \<open>NextImpl\<close> is represented by the sequence of callbacks it receives: the
  separators passed over and then one item. The theorems show that parsing is independent
  of the division of the input into blocks, that every successfully parsed input is
  well-formed YSON, and that whatever the checked writer emits is parsed back to the
  same items.
\<close>

section \<open>Items\<close>

datatype TYsonItem =
    Item_Simple EYsonItemType | Item_Boolean bool | Item_Int64 u64 | Item_Uint64 u64
  | Item_Double u64 | Item_String "byte list"

fun GetType :: "TYsonItem \<Rightarrow> EYsonItemType" where
  "GetType (Item_Simple type) = type"
| "GetType (Item_Boolean _) = BooleanValue"
| "GetType (Item_Int64 _) = Int64Value"
| "GetType (Item_Uint64 _) = Uint64Value"
| "GetType (Item_Double _) = DoubleValue"
| "GetType (Item_String _) = StringValue"

definition IsEndOfStream :: "TYsonItem \<Rightarrow> bool" where
  "IsEndOfStream item \<longleftrightarrow> GetType item = EndOfStream"

text \<open>The payload of a \<open>Simple\<close> item of a scalar type is zero, as the zeroed union is.\<close>

fun GetBinarySize :: "TYsonItem \<Rightarrow> int" where
  "GetBinarySize (Item_Boolean _) = 1"
| "GetBinarySize (Item_Int64 v) = 1 + int (length (WriteVarInt64 v))"
| "GetBinarySize (Item_Uint64 v) = 1 + int (length (WriteVarUint64 v))"
| "GetBinarySize (Item_Double _) = 1 + 8"
| "GetBinarySize (Item_String s) =
     1 + int (length (WriteVarInt32 (of_nat (length s)))) + int (length s)"
| "GetBinarySize (Item_Simple type) =
     (case type of
        EndOfStream \<Rightarrow> 0
      | Int64Value \<Rightarrow> 1 + int (length (WriteVarInt64 0))
      | Uint64Value \<Rightarrow> 1 + int (length (WriteVarUint64 0))
      | DoubleValue \<Rightarrow> 1 + 8
      | StringValue \<Rightarrow> 1 + int (length (WriteVarInt32 0))
      | _ \<Rightarrow> 1)"

section \<open>The pull parser\<close>

record TYsonPullParser =
  Lexer :: TBlockStream
  SyntaxChecker :: TYsonSyntaxChecker

definition mk_TYsonPullParser :: "byte list list \<Rightarrow> EYsonType \<Rightarrow> u32 \<Rightarrow> TYsonPullParser" where
  "mk_TYsonPullParser blocks ysonType nestingLevelLimit =
     \<lparr>Lexer = mk_TBlockStream blocks,
      SyntaxChecker = mk_TYsonSyntaxChecker ysonType nestingLevelLimit\<rparr>"

definition DefaultYsonParserNestingLevelLimit :: u32 where
  "DefaultYsonParserNestingLevelLimit = 256"

text \<open>
  One iteration of the loop of \<open>NextImpl\<close>: it returns an item, reports \<open>=\<close> or \<open>;\<close> and
  continues, or skips white space and continues.
\<close>

datatype next_step = Return TYsonItem | Report yson_token | Continue

definition literal_error :: "'a res \<Rightarrow> string \<Rightarrow> 'a res" where
  "literal_error r msg = (case r of Inl _ \<Rightarrow> Inl (Thrown msg) | Inr x \<Rightarrow> Inr x)"

text \<open>Consume the marker, then read the literal and consult the checker, in either order.\<close>

definition simple_item ::
  "(TYsonSyntaxChecker \<Rightarrow> TYsonSyntaxChecker res) \<Rightarrow> TYsonItem \<Rightarrow> TYsonSyntaxChecker \<Rightarrow>
   TBlockStream \<Rightarrow> ((next_step \<times> TYsonSyntaxChecker) \<times> TBlockStream) res" where
  "simple_item check item c s =
     rbind (Advance 1 s) (\<lambda>s. rbind (check c) (\<lambda>c. Inr ((Return item, c), s)))"

definition read_then_check ::
  "(TBlockStream \<Rightarrow> ('a \<times> TBlockStream) res) \<Rightarrow> (TYsonSyntaxChecker \<Rightarrow> TYsonSyntaxChecker res) \<Rightarrow>
   ('a \<Rightarrow> TYsonItem) \<Rightarrow> TYsonSyntaxChecker \<Rightarrow> TBlockStream \<Rightarrow>
   ((next_step \<times> TYsonSyntaxChecker) \<times> TBlockStream) res" where
  "read_then_check read check item c s =
     rbind (read s) (\<lambda>(x, s). rbind (check c) (\<lambda>c. Inr ((Return (item x), c), s)))"

definition check_then_read ::
  "(TBlockStream \<Rightarrow> ('a \<times> TBlockStream) res) \<Rightarrow> (TYsonSyntaxChecker \<Rightarrow> TYsonSyntaxChecker res) \<Rightarrow>
   ('a \<Rightarrow> TYsonItem) \<Rightarrow> TYsonSyntaxChecker \<Rightarrow> TBlockStream \<Rightarrow>
   ((next_step \<times> TYsonSyntaxChecker) \<times> TBlockStream) res" where
  "check_then_read read check item c s =
     rbind (check c) (\<lambda>c. rbind (read s) (\<lambda>(x, s). Inr ((Return (item x), c), s)))"

definition NextNumeric ::
  "text_lib \<Rightarrow> TYsonSyntaxChecker \<Rightarrow> TBlockStream \<Rightarrow>
   ((next_step \<times> TYsonSyntaxChecker) \<times> TBlockStream) res" where
  "NextNumeric L c s =
     rbind (ReadNumeric s) (\<lambda>((numericResult, valueBuffer), s).
       rbind
         (case numericResult of
            NR_Double \<Rightarrow>
              rbind (literal_error (FromString_double L valueBuffer) ''Failed to parse double literal'')
                (\<lambda>v. Inr (Item_Double v))
          | NR_Int64 \<Rightarrow>
              rbind (literal_error (FromString_i64 L valueBuffer) ''Failed to parse int64 literal'')
                (\<lambda>v. Inr (Item_Int64 v))
          | NR_Uint64 \<Rightarrow>
              rbind (literal_error (FromString_ui64 L (butlast valueBuffer))
                  ''Failed to parse uint64 literal'')
                (\<lambda>v. Inr (Item_Uint64 v)))
         (\<lambda>item. rbind (OnSimpleNonstring c) (\<lambda>c. Inr ((Return item, c), s))))"

definition NextPercent ::
  "TYsonSyntaxChecker \<Rightarrow> TBlockStream \<Rightarrow> ((next_step \<times> TYsonSyntaxChecker) \<times> TBlockStream) res" where
  "NextPercent c s =
     rbind (GetChar False s) (\<lambda>(ch, s).
       if ch = 0x74 \<or> ch = 0x66
       then check_then_read ReadBoolean OnSimpleNonstring Item_Boolean c s
       else check_then_read ReadNanOrInf OnSimpleNonstring Item_Double c s)"

definition NextDispatch ::
  "text_lib \<Rightarrow> TYsonSyntaxChecker \<Rightarrow> byte \<Rightarrow> TBlockStream \<Rightarrow>
   ((next_step \<times> TYsonSyntaxChecker) \<times> TBlockStream) res" where
  "NextDispatch L c ch s =
     (if ch = BeginAttributesSymbol then
        simple_item OnAttributesBegin (Item_Simple BeginAttributes) c s
      else if ch = EndAttributesSymbol then
        simple_item OnAttributesEnd (Item_Simple EndAttributes) c s
      else if ch = BeginMapSymbol then simple_item OnBeginMap (Item_Simple BeginMap) c s
      else if ch = EndMapSymbol then simple_item OnEndMap (Item_Simple EndMap) c s
      else if ch = BeginListSymbol then simple_item OnBeginList (Item_Simple BeginList) c s
      else if ch = EndListSymbol then simple_item OnEndList (Item_Simple EndList) c s
      else if ch = QuoteChar then
        rbind (Advance 1 s) (read_then_check (ReadQuotedString L) OnString Item_String c)
      else if ch = StringMarker then
        rbind (Advance 1 s) (check_then_read ReadBinaryString OnString Item_String c)
      else if ch = Int64Marker then
        rbind (Advance 1 s) (read_then_check ReadBinaryInt64 OnSimpleNonstring Item_Int64 c)
      else if ch = Uint64Marker then
        rbind (Advance 1 s) (read_then_check ReadBinaryUint64 OnSimpleNonstring Item_Uint64 c)
      else if ch = DoubleMarker then
        rbind (Advance 1 s) (read_then_check ReadBinaryDouble OnSimpleNonstring Item_Double c)
      else if ch = FalseMarker then simple_item OnSimpleNonstring (Item_Boolean False) c s
      else if ch = TrueMarker then simple_item OnSimpleNonstring (Item_Boolean True) c s
      else if ch = EntitySymbol then
        simple_item OnSimpleNonstring (Item_Simple EntityValue) c s
      else if ch = EndSymbol then
        rbind (OnFinish c) (\<lambda>c. Inr ((Return (Item_Simple EndOfStream), c), s))
      else if ch = PercentChar then rbind (Advance 1 s) (NextPercent c)
      else if ch = KeyValueSeparatorSymbol then
        rbind (OnEquality c) (\<lambda>c.
          rbind (Advance 1 s) (\<lambda>s. Inr ((Report TEquality, c), s)))
      else if ch = ItemSeparatorSymbol then
        rbind (OnSeparator c) (\<lambda>c.
          rbind (Advance 1 s) (\<lambda>s. Inr ((Report TSeparator, c), s)))
      else if isspace ch then
        rbind (SkipSpaceAndGetChar s) (\<lambda>(_, s). Inr ((Continue, c), s))
      else if isdigit ch \<or> ch = MinusChar \<or> ch = PlusChar then NextNumeric L c s
      else if isalpha ch \<or> ch = UnderscoreChar then
        read_then_check ReadUnquotedString OnString Item_String c s
      else Inl (Thrown ''Unexpected character while parsing node''))"

definition NextStep ::
  "text_lib \<Rightarrow> TYsonSyntaxChecker \<Rightarrow> TBlockStream \<Rightarrow>
   ((next_step \<times> TYsonSyntaxChecker) \<times> TBlockStream) res" where
  "NextStep L c s = rbind (GetChar True s) (\<lambda>(ch, s). NextDispatch L c ch s)"

section \<open>Each step depends only on the remaining bytes\<close>

lemma stream_reader_check:
  "(\<And>c. stream_reader (f c)) \<Longrightarrow> stream_reader (\<lambda>s. rbind (m :: 'c res) (\<lambda>c. f c s))"
  by (cases m) (auto simp: stream_reader_throw)

lemma read_then_check_reader: "stream_reader r \<Longrightarrow> stream_reader (read_then_check r check item c)"
  unfolding read_then_check_def [abs_def]
  by (intro stream_reader_bind stream_reader_check stream_reader_return)

lemma check_then_read_reader: "stream_reader r \<Longrightarrow> stream_reader (check_then_read r check item c)"
  unfolding check_then_read_def [abs_def]
  by (intro stream_reader_bind stream_reader_check stream_reader_return)

lemma NextNumeric_reader: "stream_reader (NextNumeric L c)"
proof -
  have "stream_reader (\<lambda>s. rbind (ReadNumeric s) (\<lambda>(p, s). case p of (numericResult, valueBuffer) \<Rightarrow>
       rbind
         (case numericResult of
            NR_Double \<Rightarrow>
              rbind (literal_error (FromString_double L valueBuffer) ''Failed to parse double literal'')
                (\<lambda>v. Inr (Item_Double v))
          | NR_Int64 \<Rightarrow>
              rbind (literal_error (FromString_i64 L valueBuffer) ''Failed to parse int64 literal'')
                (\<lambda>v. Inr (Item_Int64 v))
          | NR_Uint64 \<Rightarrow>
              rbind (literal_error (FromString_ui64 L (butlast valueBuffer))
                  ''Failed to parse uint64 literal'')
                (\<lambda>v. Inr (Item_Uint64 v)))
         (\<lambda>item. rbind (OnSimpleNonstring c) (\<lambda>c. Inr ((Return item, c), s)))))"
    by (intro stream_reader_bind ReadNumeric.stream_reader_axioms)
      (auto split: prod.splits intro!: stream_reader_check stream_reader_return)
  then show ?thesis
    by (rule back_subst [of stream_reader]) (auto simp: NextNumeric_def fun_eq_iff intro!: rbind_cong)
qed

lemma SkipSpace_reader:
  "stream_reader (\<lambda>s. rbind (SkipSpaceAndGetChar s) (\<lambda>(_, s). Inr ((Continue, c), s)))"
  by (intro stream_reader_bind stream_reader_return SkipSpaceAndGetChar.stream_reader_axioms)


lemma advance_reader_indep:
  assumes "stream_reader f" "settled s" "settled t" "remaining s = remaining t"
  shows "flat (rbind (Advance (Suc 0) s) f) = flat (rbind (Advance (Suc 0) t) f)"
  using assms(2-4) by (rule advance_indep) (rule stream_reader.read_indep [OF assms(1)])

lemma checked_advance_indep:
  assumes "settled s" "settled t" "remaining s = remaining t"
  shows "flat (rbind m (\<lambda>c. rbind (Advance (Suc 0) s) (\<lambda>s. Inr ((x, c), s)))) =
    flat (rbind m (\<lambda>c. rbind (Advance (Suc 0) t) (\<lambda>s. Inr ((x, c), s))))"
proof (cases m)
  case (Inr c)
  with advance_reader_indep [OF stream_reader_return assms] show ?thesis by simp
qed simp

lemma simple_item_indep:
  assumes "settled s" "settled t" "remaining s = remaining t"
  shows "flat (simple_item check item c s) = flat (simple_item check item c t)"
  unfolding simple_item_def One_nat_def using assms
  by (intro advance_reader_indep stream_reader_check stream_reader_return)

lemmas item_readers =
  read_then_check_reader check_then_read_reader NextNumeric_reader SkipSpace_reader
  ReadQuotedString.stream_reader_axioms ReadBinaryString.stream_reader_axioms
  ReadBinaryInt64.stream_reader_axioms ReadBinaryUint64.stream_reader_axioms
  ReadBinaryDouble.stream_reader_axioms ReadUnquotedString.stream_reader_axioms
  ReadBoolean.stream_reader_axioms ReadNanOrInf.stream_reader_axioms

lemma NextPercent_reader: "stream_reader (NextPercent c)"
proof
  fix s t assume "remaining s = remaining t"
  then show "flat (NextPercent c s) = flat (NextPercent c t)"
    unfolding NextPercent_def
    by (rule peek_indep) (auto intro!: stream_reader.read_indep item_readers)
next
  fix s x s' assume "NextPercent c s = Inr (x, s')"
  then obtain ch t where t: "GetChar False s = Inr (ch, t)"
    and "check_then_read ReadBoolean OnSimpleNonstring Item_Boolean c t = Inr (x, s') \<or>
      check_then_read ReadNanOrInf OnSimpleNonstring Item_Double c t = Inr (x, s')"
    by (auto simp: NextPercent_def split: if_splits)
  then have "length (remaining s') \<le> length (remaining t)"
    by (elim disjE) (erule stream_reader.read_length [rotated], intro item_readers)+
  with t show "length (remaining s') \<le> length (remaining s)"
    by (simp add: GetChar_remaining)
qed

lemma flat_if:
  "flat x = flat x' \<Longrightarrow> flat y = flat y' \<Longrightarrow> flat (if b then x else y) = flat (if b then x' else y')"
  by simp

lemma NextDispatch_indep:
  assumes st: "settled s" "settled t" and eq: "remaining s = remaining t"
  shows "flat (NextDispatch L c ch s) = flat (NextDispatch L c ch t)"
proof -
  have fin: "flat (rbind (OnFinish c) (\<lambda>c. Inr ((Return (Item_Simple EndOfStream), c), s))) =
    flat (rbind (OnFinish c) (\<lambda>c. Inr ((Return (Item_Simple EndOfStream), c), t)))"
    by (cases "OnFinish c") (simp_all add: eq)
  note indep = simple_item_indep [OF st eq] checked_advance_indep [OF st eq]
    advance_reader_indep [OF _ st eq] 
  note readers = stream_reader.read_indep [OF SkipSpace_reader eq]
    stream_reader.read_indep [OF NextNumeric_reader eq]
    stream_reader.read_indep [OF read_then_check_reader [OF ReadUnquotedString.stream_reader_axioms] eq]
  show ?thesis
    unfolding NextDispatch_def One_nat_def
    by (intro flat_if fin indep readers item_readers NextPercent_reader refl)
qed

lemma NextStep_indep:
  assumes "remaining s = remaining t"
  shows "flat (NextStep L c s) = flat (NextStep L c t)"
  unfolding NextStep_def
  by (rule peek_indep [OF assms]) (simp only: prod.case, rule NextDispatch_indep, simp_all)

text \<open>Every iteration that does not end the stream consumes at least one byte.\<close>

lemma ReadNumeric_progress:
  assumes "remaining s = ch # bs" "isdigit ch \<or> ch = MinusChar \<or> ch = PlusChar"
    "ReadNumeric s = Inr (x, s')"
  shows "length (remaining s') < length (remaining s)"
proof -
  obtain t where t: "GetChar True s = Inr (ch, t)" "remaining t = ch # bs"
    using GetChar_Cons [OF assms(1), of True] by metis
  from assms(2,3) obtain u where "Advance (Suc 0) t = Inr u"
    "ReadNumeric_loop [ch] NR_Int64 u = Inr (x, s')"
    unfolding ReadNumeric_def ReadNumeric_loop.simps [of _ _ s] by (auto simp: t)
  with stream_reader.read_length [OF ReadNumeric_loop_reader this(2)] show ?thesis
    using t(2) assms(1) by (auto dest: Advance_1_remaining)
qed

lemma ReadUnquotedString_progress:
  assumes "remaining s = ch # bs" "isalpha ch \<or> ch = UnderscoreChar"
    "ReadUnquotedString s = Inr (x, s')"
  shows "length (remaining s') < length (remaining s)"
proof -
  obtain t where t: "GetChar True s = Inr (ch, t)" "remaining t = ch # bs"
    using GetChar_Cons [OF assms(1), of True] by metis
  from assms(2,3) obtain u where "Advance (Suc 0) t = Inr u"
    "ReadUnquotedString_loop [ch] u = Inr (x, s')"
    unfolding ReadUnquotedString_def ReadUnquotedString_loop.simps [of _ s]
    by (auto simp: t is_unquoted_char_def)
  with stream_reader.read_length [OF ReadUnquotedString_loop_reader this(2)] show ?thesis
    using t(2) assms(1) by (auto dest: Advance_1_remaining)
qed

lemma isspace_IsSpace: "isspace ch \<longleftrightarrow> IsSpace ch"
proof
  assume "isspace ch"
  then have "unat ch \<in> {9, 10, 11, 12, 13, 32}"
    by (auto simp: isspace_def word_le_nat_alt)
  then show "IsSpace ch" by (auto simp: IsSpace_def word_unat_eq_iff)
next
  assume "IsSpace ch"
  then show "isspace ch" by (auto simp: IsSpace_def isspace_def)
qed

lemma SkipSpace_progress:
  assumes "remaining s = ch # bs" "isspace ch" "SkipSpaceAndGetChar s = Inr (x, s')"
  shows "length (remaining s') < length (remaining s)"
proof -
  have "remaining s' = snd (skip_space_of (remaining s))"
    using flat_SkipSpaceAndGetChar [of s] assms(3) by (simp add: prod_eq_iff)
  also have "length \<dots> \<le> length bs"
    using assms(1,2) by (simp add: skip_space_of_def isspace_IsSpace Let_def length_dropWhile_le)
  finally show ?thesis by (simp add: assms(1))
qed

lemma advance_progress:
  assumes "rbind (Advance (Suc 0) s) f = Inr (x, s')" "stream_reader f"
  shows "length (remaining s') < length (remaining s)"
proof -
  from assms(1) obtain u where u: "Advance (Suc 0) s = Inr u" "f u = Inr (x, s')" by auto
  from stream_reader.read_length [OF assms(2) u(2)] Advance_1_remaining [OF u(1)] show ?thesis
    by simp
qed

lemma checked_advance_progress:
  "rbind m (\<lambda>c. rbind (Advance (Suc 0) s) (\<lambda>s. Inr ((x, c), s))) = Inr (y, s') \<Longrightarrow>
   length (remaining s') < length (remaining s)"
  by (auto dest: Advance_1_remaining)

lemma numeric_progress:
  assumes "remaining s = ch # bs" "isdigit ch \<or> ch = MinusChar \<or> ch = PlusChar"
    "NextNumeric L c s = Inr (x, s')"
  shows "length (remaining s') < length (remaining s)"
  using assms(3) ReadNumeric_progress [OF assms(1,2)] by (auto simp: NextNumeric_def)

lemma unquoted_progress:
  assumes "remaining s = ch # bs" "isalpha ch \<or> ch = UnderscoreChar"
    "read_then_check ReadUnquotedString check item c s = Inr (x, s')"
  shows "length (remaining s') < length (remaining s)"
  using assms(3) ReadUnquotedString_progress [OF assms(1,2)] by (auto simp: read_then_check_def)

lemma simple_item_progress:
  "simple_item check item c s = Inr (x, s') \<Longrightarrow> length (remaining s') < length (remaining s)"
  by (auto simp: simple_item_def dest: Advance_1_remaining)

lemma space_progress:
  assumes "remaining s = ch # bs" "isspace ch"
    "rbind (SkipSpaceAndGetChar s) (\<lambda>(_, s). Inr ((Continue, c), s)) = Inr (x, s')"
  shows "length (remaining s') < length (remaining s)"
  using assms(3) SkipSpace_progress [OF assms(1,2)] by auto

lemma NextDispatch_progress:
  assumes "NextDispatch L c ch s = Inr ((st, c'), s')" "ch \<noteq> EndSymbol" "remaining s = ch # bs"
  shows "length (remaining s') < length (remaining s)"
proof -
  note prog = simple_item_progress checked_advance_progress
    advance_progress [OF _ item_readers(1)] advance_progress [OF _ item_readers(2)]
    advance_progress [OF _ NextPercent_reader]
    numeric_progress [OF assms(3), rotated] unquoted_progress [OF assms(3), rotated]
    space_progress [OF assms(3)]
  show ?thesis
    using assms(1,2) unfolding NextDispatch_def One_nat_def
    by (auto split: if_split_asm intro!: item_readers dest: prog simp del: rbind_eq_Inr)
qed

lemma NextStep_progress:
  assumes "NextStep L c s = Inr ((st, c'), s')" "st \<noteq> Return (Item_Simple EndOfStream)"
  shows "length (remaining s') < length (remaining s)"
proof (cases "remaining s")
  case Nil
  with assms show ?thesis
    by (auto simp: NextStep_def GetChar_Nil NextDispatch_def)
next
  case (Cons ch bs)
  then obtain t where t: "GetChar True s = Inr (ch, t)" "remaining t = ch # bs"
    using GetChar_Cons [OF Cons, of True] by metis
  with assms(1) have disp: "NextDispatch L c ch t = Inr ((st, c'), s')"
    by (simp add: NextStep_def)
  then have "ch \<noteq> EndSymbol" using assms(2) by (auto simp: NextDispatch_def)
  from NextDispatch_progress [OF disp this t(2)] t(2) Cons show ?thesis by simp
qed

section \<open>The loop and its clients\<close>

text \<open>The separators that were passed over and the item.\<close>

function NextImpl ::
  "text_lib \<Rightarrow> TYsonSyntaxChecker \<Rightarrow> TBlockStream \<Rightarrow>
   (((yson_token list \<times> TYsonItem) \<times> TYsonSyntaxChecker) \<times> TBlockStream) res" where
  "NextImpl L c s =
     rbind (NextStep L c s) (\<lambda>(r, s).
       case r of (st, c) \<Rightarrow>
         (case st of
            Return item \<Rightarrow> Inr ((([], item), c), s)
          | Report token \<Rightarrow>
              rbind (NextImpl L c s) (\<lambda>(((tokens, item), c), s).
                Inr (((token # tokens, item), c), s))
          | Continue \<Rightarrow> NextImpl L c s))"
  by pat_completeness auto
termination
  by (relation "measure (\<lambda>(L, c, s). length (remaining s))") (auto dest: NextStep_progress)

declare NextImpl.simps [simp del]

definition Next :: "text_lib \<Rightarrow> TYsonPullParser \<Rightarrow> (TYsonItem \<times> TYsonPullParser) res" where
  "Next L p =
     rbind (NextImpl L (SyntaxChecker p) (Lexer p)) (\<lambda>(((_, item), c), s).
       Inr (item, \<lparr>Lexer = s, SyntaxChecker = c\<rparr>))"

lemma NextImpl_progress:
  assumes "NextImpl L c s = Inr (((ts, item), c'), s')" "item \<noteq> Item_Simple EndOfStream"
  shows "length (remaining s') < length (remaining s)"
  using assms(1)
proof (induction "length (remaining s)" arbitrary: c s ts rule: less_induct)
  case less
  from less.prems obtain st c1 s1 where step: "NextStep L c s = Inr ((st, c1), s1)"
    by (subst (asm) NextImpl.simps) auto
  show ?case
  proof (cases st)
    case (Return x)
    with less.prems step assms(2) show ?thesis
      by (subst (asm) NextImpl.simps) (auto dest: NextStep_progress)
  next
    case (Report t)
    then have lt: "length (remaining s1) < length (remaining s)"
      using NextStep_progress [OF step] by simp
    from Report less.prems step obtain ts' where "NextImpl L c1 s1 = Inr (((ts', item), c'), s')"
      by (subst (asm) NextImpl.simps) auto
    from less.hyps [OF lt this] lt show ?thesis by simp
  next
    case Continue
    then have lt: "length (remaining s1) < length (remaining s)"
      using NextStep_progress [OF step] by simp
    from Continue less.prems step have "NextImpl L c1 s1 = Inr (((ts, item), c'), s')"
      by (subst (asm) NextImpl.simps) auto
    from less.hyps [OF lt this] lt show ?thesis by simp
  qed
qed

lemma NextImpl_indep:
  "remaining s = remaining t \<Longrightarrow> flat (NextImpl L c s) = flat (NextImpl L c t)"
proof (induction "length (remaining s)" arbitrary: c s t rule: less_induct)
  case less
  show ?case
  proof (cases "NextStep L c s")
    case (Inl e)
    then have "NextStep L c t = Inl e"
      using NextStep_indep [OF less.prems, of L c] flat_eq_Inl [of "NextStep L c t" e] by simp
    with Inl show ?thesis by (subst (1 2) NextImpl.simps) simp
  next
    case (Inr r)
    obtain st c1 s1 where s1: "NextStep L c s = Inr ((st, c1), s1)" using Inr by (cases r) auto
    then have "flat (NextStep L c t) = Inr ((st, c1), remaining s1)"
      using NextStep_indep [OF less.prems, of L c] by simp
    then obtain t1 where t1: "NextStep L c t = Inr ((st, c1), t1)" "remaining t1 = remaining s1"
      by (auto simp: flat_eq_Inr)
    have IH: "flat (NextImpl L c1 s1) = flat (NextImpl L c1 t1)" if "st \<noteq> Return (Item_Simple EndOfStream)"
      by (rule less.hyps [OF NextStep_progress [OF s1 that]]) (simp add: t1)
    show ?thesis
    proof (cases st)
      case (Report x)
      with IH have IH: "flat (NextImpl L c1 s1) = flat (NextImpl L c1 t1)" by simp
      have "flat (rbind (NextImpl L c1 s1) (\<lambda>(((tokens, item), c), s). Inr (((x # tokens, item), c), s))) =
        flat (rbind (NextImpl L c1 t1) (\<lambda>(((tokens, item), c), s). Inr (((x # tokens, item), c), s)))"
        using IH by (cases "NextImpl L c1 s1"; cases "NextImpl L c1 t1") auto
      with Report s1 t1 show ?thesis by (subst (1 2) NextImpl.simps) simp
    qed (use IH s1 t1 in \<open>subst (1 2) NextImpl.simps; simp\<close>)+
  qed
qed

text \<open>A client that pulls items until the end of the stream.\<close>

function read_items ::
  "text_lib \<Rightarrow> TYsonSyntaxChecker \<Rightarrow> TBlockStream \<Rightarrow> TYsonItem list res" where
  "read_items L c s =
     rbind (NextImpl L c s) (\<lambda>(r, s).
       case r of (r1, c) \<Rightarrow> (case r1 of (_, item) \<Rightarrow>
         if item = Item_Simple EndOfStream then Inr []
         else rbind (read_items L c s) (\<lambda>items. Inr (item # items))))"
  by pat_completeness auto
termination
  by (relation "measure (\<lambda>(L, c, s). length (remaining s))") (auto dest: NextImpl_progress)

declare read_items.simps [simp del]

definition parse_yson ::
  "text_lib \<Rightarrow> EYsonType \<Rightarrow> u32 \<Rightarrow> byte list list \<Rightarrow> TYsonItem list res" where
  "parse_yson L ysonType limit blocks =
     (let p = mk_TYsonPullParser blocks ysonType limit
      in read_items L (SyntaxChecker p) (Lexer p))"

section \<open>The token writer\<close>

definition WriteBinaryBoolean :: "bool \<Rightarrow> byte list" where
  "WriteBinaryBoolean v = [if v then TrueMarker else FalseMarker]"

definition WriteBinaryInt64 :: "u64 \<Rightarrow> byte list" where
  "WriteBinaryInt64 v = Int64Marker # WriteVarInt64 v"

definition WriteBinaryUint64 :: "u64 \<Rightarrow> byte list" where
  "WriteBinaryUint64 v = Uint64Marker # WriteVarUint64 v"

definition WriteBinaryDouble :: "u64 \<Rightarrow> byte list" where
  "WriteBinaryDouble v = DoubleMarker # le_bytes 8 v"

definition WriteBinaryString :: "byte list \<Rightarrow> byte list" where
  "WriteBinaryString v = StringMarker # WriteVarInt32 (of_nat (length v)) @ v"

definition WriteEntity :: "byte list" where
  "WriteEntity = [EntitySymbol]"

fun write_scalar :: "yson_scalar \<Rightarrow> byte list" where
  "write_scalar Entity = WriteEntity"
| "write_scalar (Bool v) = WriteBinaryBoolean v"
| "write_scalar (I64 v) = WriteBinaryInt64 v"
| "write_scalar (U64 v) = WriteBinaryUint64 v"
| "write_scalar (Dbl v) = WriteBinaryDouble v"
| "write_scalar (Str v) = WriteBinaryString v"

text \<open>One operation of the unchecked writer per token.\<close>

fun write_token :: "yson_token \<Rightarrow> byte list" where
  "write_token (TScalar s) = write_scalar s"
| "write_token TBeginMap = [BeginMapSymbol]"
| "write_token TEndMap = [EndMapSymbol]"
| "write_token TBeginAttributes = [BeginAttributesSymbol]"
| "write_token TEndAttributes = [EndAttributesSymbol]"
| "write_token TBeginList = [BeginListSymbol]"
| "write_token TEndList = [EndListSymbol]"
| "write_token TSeparator = [ItemSeparatorSymbol]"
| "write_token TEquality = [KeyValueSeparatorSymbol]"

definition write_tokens :: "yson_token list \<Rightarrow> byte list" where
  "write_tokens ts = concat (map write_token ts)"

text \<open>The checked writer consults the syntax checker before every token.\<close>

record TCheckedYsonTokenWriter =
  Checker :: TYsonSyntaxChecker
  Output :: "byte list"

definition mk_TCheckedYsonTokenWriter :: "EYsonType \<Rightarrow> u32 \<Rightarrow> TCheckedYsonTokenWriter" where
  "mk_TCheckedYsonTokenWriter ysonType nestingLevelLimit =
     \<lparr>Checker = mk_TYsonSyntaxChecker ysonType nestingLevelLimit, Output = []\<rparr>"

definition checked_write ::
  "yson_token \<Rightarrow> TCheckedYsonTokenWriter \<Rightarrow> TCheckedYsonTokenWriter res" where
  "checked_write t w =
     rbind (on_token t (Checker w)) (\<lambda>c. Inr \<lparr>Checker = c, Output = Output w @ write_token t\<rparr>)"

definition checked_Finish :: "TCheckedYsonTokenWriter \<Rightarrow> TCheckedYsonTokenWriter res" where
  "checked_Finish w = rbind (OnFinish (Checker w)) (\<lambda>c. Inr (w\<lparr>Checker := c\<rparr>))"

fun checked_writes ::
  "yson_token list \<Rightarrow> TCheckedYsonTokenWriter \<Rightarrow> TCheckedYsonTokenWriter res" where
  "checked_writes [] w = checked_Finish w"
| "checked_writes (t # ts) w = rbind (checked_write t w) (checked_writes ts)"

section \<open>Independence of the division into blocks\<close>

lemma read_items_indep:
  "remaining s = remaining t \<Longrightarrow> read_items L c s = read_items L c t"
proof (induction "length (remaining s)" arbitrary: c s t rule: less_induct)
  case less
  show ?case
  proof (cases "NextImpl L c s")
    case (Inl e)
    then have "NextImpl L c t = Inl e"
      using NextImpl_indep [OF less.prems, of L c] flat_eq_Inl [of "NextImpl L c t" e] by simp
    with Inl show ?thesis by (subst (1 2) read_items.simps) simp
  next
    case (Inr r)
    obtain ts item c1 s1 where s1: "NextImpl L c s = Inr (((ts, item), c1), s1)"
      using Inr by (cases r) auto
    then have "flat (NextImpl L c t) = Inr (((ts, item), c1), remaining s1)"
      using NextImpl_indep [OF less.prems, of L c] by simp
    then obtain t1 where t1: "NextImpl L c t = Inr (((ts, item), c1), t1)" "remaining t1 = remaining s1"
      by (auto simp: flat_eq_Inr)
    show ?thesis
    proof (cases "item = Item_Simple EndOfStream")
      case True
      with s1 t1 show ?thesis by (subst (1 2) read_items.simps) simp
    next
      case False
      have "read_items L c1 s1 = read_items L c1 t1"
        by (rule less.hyps [OF NextImpl_progress [OF s1 False]]) (simp add: t1)
      with False s1 t1 show ?thesis by (subst (1 2) read_items.simps) simp
    qed
  qed
qed

lemma takeWhile_nonempty: "[] \<notin> set blocks \<Longrightarrow> takeWhile (\<lambda>b. b \<noteq> []) blocks = blocks"
  by (auto intro: takeWhile_eq_all_conv [THEN iffD2])

lemma remaining_mk_TBlockStream:
  "[] \<notin> set blocks \<Longrightarrow> remaining (mk_TBlockStream blocks) = concat blocks"
  by (simp add: mk_TBlockStream_def remaining_def takeWhile_nonempty)


section \<open>Only well-formed YSON is parsed\<close>

fun token_item :: "yson_token \<Rightarrow> TYsonItem option" where
  "token_item TBeginList = Some (Item_Simple BeginList)"
| "token_item TEndList = Some (Item_Simple EndList)"
| "token_item TBeginMap = Some (Item_Simple BeginMap)"
| "token_item TEndMap = Some (Item_Simple EndMap)"
| "token_item TBeginAttributes = Some (Item_Simple BeginAttributes)"
| "token_item TEndAttributes = Some (Item_Simple EndAttributes)"
| "token_item (TScalar Entity) = Some (Item_Simple EntityValue)"
| "token_item (TScalar (Bool v)) = Some (Item_Boolean v)"
| "token_item (TScalar (I64 v)) = Some (Item_Int64 v)"
| "token_item (TScalar (U64 v)) = Some (Item_Uint64 v)"
| "token_item (TScalar (Dbl v)) = Some (Item_Double v)"
| "token_item (TScalar (Str v)) = Some (Item_String v)"
| "token_item TEquality = None"
| "token_item TSeparator = None"

fun items_of :: "yson_token list \<Rightarrow> TYsonItem list" where
  "items_of [] = []"
| "items_of (t # ts) =
     (case token_item t of None \<Rightarrow> items_of ts | Some item \<Rightarrow> item # items_of ts)"

lemma read_then_check_Return:
  "read_then_check r check item c s = Inr ((st, c'), s') \<Longrightarrow>
   \<exists>x. st = Return (item x) \<and> check c = Inr c'"
  by (auto simp: read_then_check_def)

lemma check_then_read_Return:
  "check_then_read r check item c s = Inr ((st, c'), s') \<Longrightarrow>
   \<exists>x. st = Return (item x) \<and> check c = Inr c'"
  by (auto simp: check_then_read_def)

lemma simple_item_Return:
  "simple_item check item c s = Inr ((st, c'), s') \<Longrightarrow> st = Return item \<and> check c = Inr c'"
  by (auto simp: simple_item_def)

lemma NextNumeric_Return:
  assumes "NextNumeric L c s = Inr ((st, c'), s')"
  shows "\<exists>v. st \<in> {Return (Item_Double v), Return (Item_Int64 v), Return (Item_Uint64 v)} \<and>
     OnSimpleNonstring c = Inr c'"
proof -
  from assms obtain nr buf t where "ReadNumeric s = Inr ((nr, buf), t)"
    by (auto simp: NextNumeric_def)
  with assms show ?thesis by (cases nr) (auto simp: NextNumeric_def)
qed

lemma NextPercent_Return:
  "NextPercent c s = Inr ((st, c'), s') \<Longrightarrow>
   (\<exists>v. st = Return (Item_Boolean v) \<or> (\<exists>w. st = Return (Item_Double w))) \<and>
     OnSimpleNonstring c = Inr c'"
  by (auto simp: NextPercent_def split: if_splits dest!: check_then_read_Return)

lemma OnFinish_same: "OnFinish c = Inr c' \<Longrightarrow> c' = c"
  by (auto simp: OnFinish_def on_back_def ThrowUnexpectedToken_def
      split: list.splits EYsonState.splits)

definition step_checked :: "TYsonSyntaxChecker \<Rightarrow> next_step \<Rightarrow> TYsonSyntaxChecker \<Rightarrow> bool" where
  "step_checked c st c' \<longleftrightarrow>
     (case st of
        Return item \<Rightarrow>
          if item = Item_Simple EndOfStream then OnFinish c = Inr c'
          else \<exists>t. token_item t = Some item \<and> on_token t c = Inr c'
      | Report t \<Rightarrow> token_item t = None \<and> on_token t c = Inr c'
      | Continue \<Rightarrow> c' = c)"

lemma step_checked_simps:
  "OnFinish c = Inr c' \<Longrightarrow> step_checked c (Return (Item_Simple EndOfStream)) c'"
  "OnSimpleNonstring c = Inr c' \<Longrightarrow> step_checked c (Return (Item_Double v)) c'"
  "OnSimpleNonstring c = Inr c' \<Longrightarrow> step_checked c (Return (Item_Int64 v)) c'"
  "OnSimpleNonstring c = Inr c' \<Longrightarrow> step_checked c (Return (Item_Uint64 v)) c'"
  "OnSimpleNonstring c = Inr c' \<Longrightarrow> step_checked c (Return (Item_Boolean b)) c'"
  "OnSimpleNonstring c = Inr c' \<Longrightarrow> step_checked c (Return (Item_Simple EntityValue)) c'"
  "OnString c = Inr c' \<Longrightarrow> step_checked c (Return (Item_String x)) c'"
  "OnBeginList c = Inr c' \<Longrightarrow> step_checked c (Return (Item_Simple BeginList)) c'"
  "OnEndList c = Inr c' \<Longrightarrow> step_checked c (Return (Item_Simple EndList)) c'"
  "OnBeginMap c = Inr c' \<Longrightarrow> step_checked c (Return (Item_Simple BeginMap)) c'"
  "OnEndMap c = Inr c' \<Longrightarrow> step_checked c (Return (Item_Simple EndMap)) c'"
  "OnAttributesBegin c = Inr c' \<Longrightarrow> step_checked c (Return (Item_Simple BeginAttributes)) c'"
  "OnAttributesEnd c = Inr c' \<Longrightarrow> step_checked c (Return (Item_Simple EndAttributes)) c'"
  "OnEquality c = Inr c' \<Longrightarrow> step_checked c (Report TEquality) c'"
  "OnSeparator c = Inr c' \<Longrightarrow> step_checked c (Report TSeparator) c'"
  "step_checked c Continue c"
proof -
  note sc = step_checked_def
  show "OnFinish c = Inr c' \<Longrightarrow> step_checked c (Return (Item_Simple EndOfStream)) c'" by (simp add: sc)
  show "OnSimpleNonstring c = Inr c' \<Longrightarrow> step_checked c (Return (Item_Double v)) c'"
    by (simp add: sc) (intro exI [of _ "TScalar (Dbl v)"], simp)
  show "OnSimpleNonstring c = Inr c' \<Longrightarrow> step_checked c (Return (Item_Int64 v)) c'"
    by (simp add: sc) (intro exI [of _ "TScalar (I64 v)"], simp)
  show "OnSimpleNonstring c = Inr c' \<Longrightarrow> step_checked c (Return (Item_Uint64 v)) c'"
    by (simp add: sc) (intro exI [of _ "TScalar (U64 v)"], simp)
  show "OnSimpleNonstring c = Inr c' \<Longrightarrow> step_checked c (Return (Item_Boolean b)) c'"
    by (simp add: sc) (intro exI [of _ "TScalar (Bool b)"], simp)
  show "OnSimpleNonstring c = Inr c' \<Longrightarrow> step_checked c (Return (Item_Simple EntityValue)) c'"
    by (simp add: sc) (intro exI [of _ "TScalar Entity"], simp)
  show "OnString c = Inr c' \<Longrightarrow> step_checked c (Return (Item_String x)) c'"
    by (simp add: sc) (intro exI [of _ "TScalar (Str x)"], simp)
  show "OnBeginList c = Inr c' \<Longrightarrow> step_checked c (Return (Item_Simple BeginList)) c'"
    by (simp add: sc) (intro exI [of _ TBeginList], simp)
  show "OnEndList c = Inr c' \<Longrightarrow> step_checked c (Return (Item_Simple EndList)) c'"
    by (simp add: sc) (intro exI [of _ TEndList], simp)
  show "OnBeginMap c = Inr c' \<Longrightarrow> step_checked c (Return (Item_Simple BeginMap)) c'"
    by (simp add: sc) (intro exI [of _ TBeginMap], simp)
  show "OnEndMap c = Inr c' \<Longrightarrow> step_checked c (Return (Item_Simple EndMap)) c'"
    by (simp add: sc) (intro exI [of _ TEndMap], simp)
  show "OnAttributesBegin c = Inr c' \<Longrightarrow> step_checked c (Return (Item_Simple BeginAttributes)) c'"
    by (simp add: sc) (intro exI [of _ TBeginAttributes], simp)
  show "OnAttributesEnd c = Inr c' \<Longrightarrow> step_checked c (Return (Item_Simple EndAttributes)) c'"
    by (simp add: sc) (intro exI [of _ TEndAttributes], simp)
  show "OnEquality c = Inr c' \<Longrightarrow> step_checked c (Report TEquality) c'" by (simp add: sc)
  show "OnSeparator c = Inr c' \<Longrightarrow> step_checked c (Report TSeparator) c'" by (simp add: sc)
  show "step_checked c Continue c" by (simp add: sc)
qed

lemma NextDispatch_checked:
  assumes "NextDispatch L c ch s = Inr ((st, c'), s')"
  shows "step_checked c st c'"
  using assms unfolding NextDispatch_def
  by (auto split: if_split_asm intro: step_checked_simps
      dest!: simple_item_Return read_then_check_Return check_then_read_Return
        NextNumeric_Return NextPercent_Return)

lemma NextStep_checked: "NextStep L c s = Inr ((st, c'), s') \<Longrightarrow> step_checked c st c'"
  by (auto simp: NextStep_def dest: NextDispatch_checked)

lemma NextImpl_checked:
  assumes "NextImpl L c s = Inr (((ts, item), c'), s')"
  shows "\<exists>c1. feed c ts = Inr c1 \<and> items_of ts = [] \<and> step_checked c1 (Return item) c'"
  using assms
proof (induction "length (remaining s)" arbitrary: c s ts rule: less_induct)
  case less
  from less.prems obtain st c1 s1 where step: "NextStep L c s = Inr ((st, c1), s1)"
    by (subst (asm) NextImpl.simps) auto
  note ok = NextStep_checked [OF step]
  show ?case
  proof (cases st)
    case (Return x)
    with less.prems step ok show ?thesis by (subst (asm) NextImpl.simps) auto
  next
    case (Report t)
    from Report less.prems step obtain ts' where ts: "ts = t # ts'"
      "NextImpl L c1 s1 = Inr (((ts', item), c'), s')"
      by (subst (asm) NextImpl.simps) auto
    moreover have "length (remaining s1) < length (remaining s)"
      using NextStep_progress [OF step] Report by simp
    from less.hyps [OF this ts(2)] ts(1) ok Report show ?thesis by (auto simp: step_checked_def)
  next
    case Continue
    from Continue less.prems step ok have "NextImpl L c s1 = Inr (((ts, item), c'), s')"
      by (subst (asm) NextImpl.simps) (auto simp: step_checked_def)
    moreover have "length (remaining s1) < length (remaining s)"
      using NextStep_progress [OF step] Continue by simp
    ultimately show ?thesis using less.hyps by blast
  qed
qed

lemma items_of_append [simp]: "items_of (ts @ us) = items_of ts @ items_of us"
  by (induction ts) (auto split: option.splits)

lemma read_items_checked:
  "read_items L c s = Inr items \<Longrightarrow> \<exists>ts. finishes c ts \<and> items_of ts = items"
proof (induction "length (remaining s)" arbitrary: c s items rule: less_induct)
  case less
  from less.prems obtain ts item c1 s1 where n: "NextImpl L c s = Inr (((ts, item), c1), s1)"
    by (subst (asm) read_items.simps) auto
  obtain c0 where c0: "feed c ts = Inr c0" "items_of ts = []" "step_checked c0 (Return item) c1"
    using NextImpl_checked [OF n] by blast
  show ?case
  proof (cases "item = Item_Simple EndOfStream")
    case True
    with less.prems n have "items = []" by (subst (asm) read_items.simps) simp
    with True c0 show ?thesis
      by (intro exI [of _ ts]) (simp add: finishes_def step_checked_def)
  next
    case False
    with c0 obtain t where t: "token_item t = Some item" "on_token t c0 = Inr c1"
      by (auto simp: step_checked_def)
    from False less.prems n obtain items' where items: "items = item # items'"
      "read_items L c1 s1 = Inr items'" by (subst (asm) read_items.simps) auto
    from less.hyps [OF NextImpl_progress [OF n False] items(2)]
    obtain us where "finishes c1 us" "items_of us = items'" by blast
    with c0 t items show ?thesis
      by (intro exI [of _ "ts @ t # us"]) (simp add: finishes_def feed_append)
  qed
qed

section \<open>What was written is read back\<close>

text \<open>String literals carry their length as a 32-bit signed varint.\<close>

fun valid_token :: "yson_token \<Rightarrow> bool" where
  "valid_token (TScalar (Str v)) \<longleftrightarrow> length v < 2 ^ 31"
| "valid_token _ \<longleftrightarrow> True"

lemma varint_of_varint:
  assumes "is_varint bs" "r < 128 ^ c" "c + length bs \<le> 10"
  shows "varint_of (10 - c) (of_nat r) (bs @ rest) = Inr (of_nat (r + 128 ^ c * vval bs), rest)"
  using assms
proof (induction bs arbitrary: r c)
  case Nil
  then show ?case by (simp add: is_varint_def)
next
  case (Cons b bs)
  from Cons.prems have c: "10 - c = Suc (9 - c)" "10 - Suc (9 - c) = c" by auto
  let ?r = "r + 128 ^ c * (unat b mod 128)"
  have step: "(of_nat r :: u64) OR push_bit (7 * c) (ucast (b AND 127)) = of_nat ?r"
    unfolding ucast_and_127 by (rule or_push_bit [OF Cons.prems(2)])
  show ?case
  proof (cases "bs = []")
    case True
    with Cons.prems have "b AND 128 = 0" by (simp add: is_varint_Cons byte_and_128)
    with True step c show ?thesis by (simp add: MaxVarintBytes_def Let_def)
  next
    case False
    with Cons.prems have b: "b AND 128 \<noteq> 0" "is_varint bs"
      by (auto simp: is_varint_Cons byte_and_128)
    have "unat b mod 128 \<le> 127" by simp
    then have "128 ^ c * (unat b mod 128) \<le> 128 ^ c * 127" by (rule mult_le_mono2)
    with Cons.prems(2) have "?r < 128 ^ Suc c" unfolding power_Suc by linarith
    from Cons.IH [OF b(2) this] Cons.prems(3)
    have "varint_of (9 - c) (of_nat ?r) (bs @ rest) =
      Inr (of_nat (?r + 128 ^ Suc c * vval bs), rest)" by simp
    with b step c show ?thesis
      by (simp add: MaxVarintBytes_def Let_def algebra_simps)
  qed
qed

lemma varint_of_Write: "varint_of 10 0 (WriteVarUint64 v @ rest) = Inr (v, rest)"
  using varint_of_varint [of "varint (unat v)" 0 0 rest] varint_facts [of "unat v"]
    length_WriteVarUint64 [of v]
  by (simp add: WriteVarUint64_eq_varint)

lemma of_le_bytes_le_bytes: "of_le_bytes (le_bytes n (w::u64)) = take_bit (8 * n) w"
proof (induction n arbitrary: w)
  case (Suc n)
  show ?case
    by (rule bit_word_eqI) (auto simp: Suc.IH bit_simps)
qed simp

lemma length_le_bytes [simp]: "length (le_bytes n w) = n"
  by (induction n arbitrary: w) simp_all


lemma sint_of_nat_u32: "n < 2 ^ 31 \<Longrightarrow> sint (of_nat n :: u32) = int n"
  by (simp add: signed_of_nat signed_take_bit_int_eq_self)

lemma string_of_Write:
  assumes "length v < 2 ^ 31"
  shows "string_of (WriteVarInt32 (of_nat (length v)) @ v @ rest) = Inr (v, rest)"
proof -
  have "unat (of_nat (length v) :: u32) = length v"
    using assms by (simp add: unsigned_of_nat take_bit_eq_mod)
  with assms show ?thesis
    by (simp add: string_of_def WriteVarInt32_def WriteVarUint32_def varint_of_Write
        ucast_ucast_u32 ZigZagDecode32_Encode32 sint_of_nat_u32 Let_def)
qed

lemma flat_read_then_check:
  "flat (r s) = Inr (x, bs) \<Longrightarrow> check c = Inr c' \<Longrightarrow>
   flat (read_then_check r check item c s) = Inr ((Return (item x), c'), bs)"
  by (auto simp: read_then_check_def flat_eq_Inr)

lemma flat_check_then_read:
  "flat (r s) = Inr (x, bs) \<Longrightarrow> check c = Inr c' \<Longrightarrow>
   flat (check_then_read r check item c s) = Inr ((Return (item x), c'), bs)"
  by (auto simp: check_then_read_def flat_eq_Inr)

lemma NextStep_start:
  assumes "remaining s = ch # bs"
  shows "\<exists>s1 s2. (\<forall>L c. NextStep L c s = NextDispatch L c ch s1) \<and>
    Advance (Suc 0) s1 = Inr s2 \<and> remaining s2 = bs"
proof -
  obtain s1 where "GetChar True s = Inr (ch, s1)"
    "Advance 1 s1 = Inr (s1\<lparr>Block := tl (Block s1)\<rparr>)" "remaining (s1\<lparr>Block := tl (Block s1)\<rparr>) = bs"
    using GetChar_Cons [OF assms, of True] by metis
  then show ?thesis by (auto simp: NextStep_def)
qed

lemma write_scalar_step:
  assumes "valid_token (TScalar v)" "on_token (TScalar v) c = Inr c'"
    "remaining s = write_scalar v @ rest"
  shows "flat (NextStep L c s) = Inr ((Return (the (token_item (TScalar v))), c'), rest)"
proof -
  obtain ch bs where cb: "write_scalar v = ch # bs"
    by (cases v) (auto simp: WriteEntity_def WriteBinaryBoolean_def WriteBinaryInt64_def
        WriteBinaryUint64_def WriteBinaryDouble_def WriteBinaryString_def)
  then have "remaining s = ch # bs @ rest" using assms(3) by simp
  from NextStep_start [OF this] obtain s1 s2 where step: "\<forall>L c. NextStep L c s = NextDispatch L c ch s1"
    "Advance (Suc 0) s1 = Inr s2" "remaining s2 = bs @ rest" by blast
  show ?thesis
  proof (cases v)
    case (I64 x)
    have "flat (ReadBinaryInt64 s2) = Inr (x, rest)"
      using I64 cb step(3) flat_ReadVarint64 [of s2]
      by (auto simp: ReadBinaryInt64_def WriteBinaryInt64_def WriteVarInt64_def varint_of_Write
          flat_eq_Inr ZigZagDecode64_Encode64)
    with I64 cb step assms(2) show ?thesis
      by (simp add: NextDispatch_def WriteBinaryInt64_def flat_read_then_check)
  next
    case (U64 x)
    have "flat (ReadBinaryUint64 s2) = Inr (x, rest)"
      using U64 cb step(3) flat_ReadVarint64 [of s2]
      by (auto simp: ReadBinaryUint64_def WriteBinaryUint64_def varint_of_Write)
    with U64 cb step assms(2) show ?thesis
      by (simp add: NextDispatch_def WriteBinaryUint64_def flat_read_then_check)
  next
    case (Dbl x)
    have "flat (ReadBinaryDouble s2) = Inr (x, rest)"
      using Dbl cb step(3) flat_read_blocks [of 8 "[]" s2]
      by (auto simp: ReadBinaryDouble_def WriteBinaryDouble_def flat_eq_Inr of_le_bytes_le_bytes
          take_bit_word_eq_self)
    with Dbl cb step assms(2) show ?thesis
      by (simp add: NextDispatch_def WriteBinaryDouble_def flat_read_then_check)
  next
    case (Str x)
    have "flat (ReadBinaryString s2) = Inr (x, rest)"
      using Str cb step(3) assms(1)
      by (auto simp: flat_ReadBinaryString WriteBinaryString_def string_of_Write)
    with Str cb step assms(2) show ?thesis
      by (simp add: NextDispatch_def WriteBinaryString_def flat_check_then_read)
  qed (use cb step assms(2) in \<open>auto simp: NextDispatch_def simple_item_def WriteEntity_def
      WriteBinaryBoolean_def split: if_splits\<close>)
qed

lemma write_token_step:
  assumes "valid_token t" "on_token t c = Inr c'" "remaining s = write_token t @ rest"
  shows "flat (NextStep L c s) =
    Inr ((case token_item t of None \<Rightarrow> Report t | Some item \<Rightarrow> Return item, c'), rest)"
proof (cases "\<exists>v. t = TScalar v")
  case True
  then obtain v where "t = TScalar v" by blast
  with assms write_scalar_step [of v c c' s rest L] show ?thesis
    by (cases v) auto
next
  case False
  then obtain ch where ch: "write_token t = [ch]" by (cases t) auto
  then have "remaining s = ch # rest" using assms(3) by simp
  from NextStep_start [OF this] obtain s1 s2 where step: "\<forall>L c. NextStep L c s = NextDispatch L c ch s1"
    "Advance (Suc 0) s1 = Inr s2" "remaining s2 = rest" by blast
  with False ch assms(2) show ?thesis
    by (cases t) (auto simp: NextDispatch_def simple_item_def)
qed

lemma read_items_step:
  assumes "NextStep L c s = Inr ((st, c1), s1)" "\<And>item. st \<noteq> Return item"
  shows "read_items L c s = read_items L c1 s1"
proof (cases st)
  case (Report t)
  with assms have "NextImpl L c s = rbind (NextImpl L c1 s1) (\<lambda>(((tokens, item), c), s).
    Inr (((t # tokens, item), c), s))" by (subst NextImpl.simps) simp
  then show ?thesis
    by (subst (1 2) read_items.simps) (auto simp: rbind_assoc intro!: rbind_cong)
next
  case Continue
  with assms have "NextImpl L c s = NextImpl L c1 s1" by (subst NextImpl.simps) simp
  then show ?thesis by (subst (1 2) read_items.simps) simp
qed (use assms in simp)

lemma read_items_Return:
  assumes "NextStep L c s = Inr ((Return item, c1), s1)" "item \<noteq> Item_Simple EndOfStream"
  shows "read_items L c s = rbind (read_items L c1 s1) (\<lambda>items. Inr (item # items))"
proof -
  from assms(1) have "NextImpl L c s = Inr ((([], item), c1), s1)" by (subst NextImpl.simps) simp
  with assms(2) show ?thesis by (subst read_items.simps) simp
qed

lemma token_item_not_end: "token_item t = Some item \<Longrightarrow> item \<noteq> Item_Simple EndOfStream"
  by (cases t rule: token_item.cases) auto

lemma read_items_write:
  assumes "finishes c ts" "\<forall>t\<in>set ts. valid_token t" "remaining s = write_tokens ts @ rest"
    and "rest = [] \<or> hd rest = EndSymbol"
  shows "read_items L c s = Inr (items_of ts)"
  using assms(1-3)
proof (induction ts arbitrary: c s)
  case Nil
  then have fin: "OnFinish c = Inr c"
    by (auto simp: finishes_def dest: OnFinish_same split: sum.splits)
  have "\<exists>s'. NextStep L c s = Inr ((Return (Item_Simple EndOfStream), c), s')"
  proof (cases rest)
    case Nil
    with \<open>remaining s = _\<close> fin show ?thesis
      by (simp add: write_tokens_def NextStep_def GetChar_Nil NextDispatch_def)
  next
    case (Cons ch bs)
    with assms(4) Nil.prems have "remaining s = EndSymbol # bs" by (simp add: write_tokens_def)
    from NextStep_start [OF this]
    obtain s1 where "\<forall>L c. NextStep L c s = NextDispatch L c EndSymbol s1"
      by blast
    with fin show ?thesis by (simp add: NextDispatch_def)
  qed
  then obtain s' where "NextStep L c s = Inr ((Return (Item_Simple EndOfStream), c), s')" by blast
  then have "NextImpl L c s = Inr ((([], Item_Simple EndOfStream), c), s')"
    by (subst NextImpl.simps) simp
  then show ?case by (subst read_items.simps) simp
next
  case (Cons t ts)
  from Cons.prems obtain c1 where c1: "on_token t c = Inr c1" "finishes c1 ts"
    by (auto simp: finishes_simps split: sum.splits)
  from write_token_step [OF _ c1(1), of s "write_tokens ts @ rest" L] Cons.prems
  obtain s1 where s1: "NextStep L c s =
    Inr ((case token_item t of None \<Rightarrow> Report t | Some item \<Rightarrow> Return item, c1), s1)"
    "remaining s1 = write_tokens ts @ rest" by (auto simp: write_tokens_def flat_eq_Inr)
  have IH: "read_items L c1 s1 = Inr (items_of ts)"
    using Cons.IH [OF c1(2)] Cons.prems(2) s1(2) by simp
  show ?case
  proof (cases "token_item t")
    case None
    with s1 IH read_items_step [of L c s] show ?thesis by simp
  next
    case (Some item)
    with s1 IH read_items_Return [of L c s item c1 s1] token_item_not_end show ?thesis by auto
  qed
qed

lemma checked_writes_finishes:
  "checked_writes ts w = Inr w' \<Longrightarrow> finishes (Checker w) ts \<and> Output w' = Output w @ write_tokens ts"
proof (induction ts arbitrary: w)
  case Nil
  then show ?case by (auto simp: checked_Finish_def finishes_simps write_tokens_def)
next
  case (Cons t ts)
  from Cons.prems obtain c where c: "on_token t (Checker w) = Inr c"
    "checked_writes ts \<lparr>Checker = c, Output = Output w @ write_token t\<rparr> = Inr w'"
    by (auto simp: checked_write_def)
  from Cons.IH [OF c(2)] c(1) show ?case by (simp add: finishes_simps write_tokens_def)
qed

section \<open>Properties of the parser\<close>

text \<open>C13. Parsing is independent of buffering: two inputs whose non-empty blocks spell out the
  same bytes give the same items, or the same error, for every stream kind and limit.\<close>

theorem parse_yson_independent_of_blocks:
  assumes "concat blocks = concat blocks'" "[] \<notin> set blocks" "[] \<notin> set blocks'"
  shows "parse_yson L ysonType limit blocks = parse_yson L ysonType limit blocks'"
  unfolding parse_yson_def Let_def mk_TYsonPullParser_def TYsonPullParser.simps
  by (rule read_items_indep) (simp add: remaining_mk_TBlockStream assms)

definition sample_lib :: text_lib where
  "sample_lib = \<lparr>FromString_double = (\<lambda>_. Inl (Thrown ''double'')),
     FromString_i64 = (\<lambda>_. Inl (Thrown ''i64'')), FromString_ui64 = (\<lambda>_. Inl (Thrown ''ui64'')),
     UnescapeC = (\<lambda>bs. bs)\<rparr>"

theorem parse_yson_independent_of_blocks_witness:
  "concat [[0x5B, 0x02], [0x80, 0x01, 0x5D]] = concat [[0x5B, 0x02, 0x80, 0x01, 0x5D :: byte]] \<and>
   parse_yson sample_lib Node 256 [[0x5B, 0x02], [0x80, 0x01, 0x5D]] =
     parse_yson sample_lib Node 256 [[0x5B, 0x02, 0x80, 0x01, 0x5D]]"
  using parse_yson_independent_of_blocks
    [of "[[0x5B, 0x02], [0x80, 0x01, 0x5D]]" "[[0x5B, 0x02, 0x80, 0x01, 0x5D]]" sample_lib Node 256]
  by simp

text \<open>C26. Soundness of the parser: if pulling items until the end of the stream succeeds, the
  items are those of a well-formed YSON stream of the requested kind whose nesting depth
  is below the limit.\<close>

theorem parse_yson_sound:
  assumes "0 < limit" "parse_yson L ysonType limit blocks = Inr items"
  shows "\<exists>ts d. yson_stream ysonType d ts \<and> d < unat limit \<and> items_of ts = items"
proof -
  from assms(2) obtain ts where "finishes (mk_TYsonSyntaxChecker ysonType limit) ts" "items_of ts = items"
    by (auto simp: parse_yson_def mk_TYsonPullParser_def dest: read_items_checked)
  with accepts_yson_stream [OF assms(1), of ysonType ts] show ?thesis
    by (auto simp: accepts_def)
qed

theorem parse_yson_sound_witness:
  "parse_yson sample_lib ListFragment 16 [[0x23], [0x3B, 0x05]] =
     Inr [Item_Simple EntityValue, Item_Boolean True] \<and>
   (\<exists>ts d. yson_stream ListFragment d ts \<and> d < unat (16::u32) \<and>
      items_of ts = [Item_Simple EntityValue, Item_Boolean True])"
proof -
  have parse: "parse_yson sample_lib ListFragment 16 [[0x23], [0x3B, 0x05]] =
     Inr [Item_Simple EntityValue, Item_Boolean True]" by code_simp
  moreover have "(0::u32) < 16" by simp
  ultimately show ?thesis using parse_yson_sound by blast
qed

text \<open>C2. Round trip: when the checked token writer accepts a sequence of tokens, written with the
  binary scalar writers, whose strings are all shorter than \<open>2 ^ 31\<close> bytes, and finishes, the
  pull parser reads its output back as the items of those tokens, for every division of
  the output into non-empty blocks. The textual scalar writers are not covered; longer strings
  are excluded because \<open>WriteBinaryString\<close> writes their length as a 32-bit number unchecked.\<close>

theorem checked_writer_parse_roundtrip:
  assumes "checked_writes ts (mk_TCheckedYsonTokenWriter ysonType limit) = Inr w"
    and "\<forall>t\<in>set ts. valid_token t" "concat blocks = Output w" "[] \<notin> set blocks"
  shows "parse_yson L ysonType limit blocks = Inr (items_of ts)"
  using checked_writes_finishes [OF assms(1)] assms(2-4)
  by (auto simp: parse_yson_def mk_TYsonPullParser_def mk_TCheckedYsonTokenWriter_def
      remaining_mk_TBlockStream intro!: read_items_write [where rest = "[]"])

theorem checked_writer_parse_roundtrip_witness:
  "parse_yson sample_lib Node 4
     (map (\<lambda>b. [b]) (write_tokens [TBeginMap, TScalar (Str [0x61]), TEquality, TScalar (Dbl 7), TEndMap])) =
   Inr [Item_Simple BeginMap, Item_String [0x61], Item_Double 7, Item_Simple EndMap]"
proof -
  let ?ts = "[TBeginMap, TScalar (Str [0x61]), TEquality, TScalar (Dbl 7), TEndMap]"
  have "\<exists>w. checked_writes ?ts (mk_TCheckedYsonTokenWriter Node 4) = Inr w \<and> Output w = write_tokens ?ts"
    by (simp add: checked_write_def checked_Finish_def mk_TCheckedYsonTokenWriter_def
        mk_TYsonSyntaxChecker_def operation_defs IncrementNestingLevel_def DecrementNestingLevel_def
        write_tokens_def word_le_nat_alt word_less_nat_alt)
  then obtain w where "checked_writes ?ts (mk_TCheckedYsonTokenWriter Node 4) = Inr w"
    "Output w = write_tokens ?ts" by blast
  from checked_writer_parse_roundtrip [OF this(1), of "map (\<lambda>b. [b]) (write_tokens ?ts)" sample_lib] this(2)
  show ?thesis by (simp add: image_iff)
qed

text \<open>A zero byte ends the stream: after a complete YSON value the parser accepts any bytes
  that follow a NUL byte and ignores them.\<close>

theorem parse_yson_ignores_after_nul:
  assumes "accepts ysonType limit ts" "\<forall>t\<in>set ts. valid_token t"
  shows "parse_yson L ysonType limit [write_tokens ts @ EndSymbol # garbage] = Inr (items_of ts)"
  using assms
  by (auto simp: parse_yson_def mk_TYsonPullParser_def accepts_def remaining_mk_TBlockStream
      intro!: read_items_write [where rest = "EndSymbol # garbage"])

theorem parse_yson_ignores_after_nul_witness:
  "accepts Node 256 [TScalar Entity] \<and>
   parse_yson sample_lib Node 256 [[0x23, 0, 0x5D, 0x3D]] = Inr [Item_Simple EntityValue]"
proof -
  have "accepts Node 256 [TScalar Entity]" by code_simp
  with parse_yson_ignores_after_nul [OF this, of sample_lib "[0x5D, 0x3D]"] show ?thesis
    by (simp add: write_tokens_def WriteEntity_def)
qed

end
