(* ===== verification/Values.thy ===== *)
theory Values
  imports YsonParser
begin

text \<open>
  Unversioned values: their types, constructors and validation
  (\<open>yt/yt/client/table_client/row_base.h\<close>, \<open>row_base.cpp\<close>, \<open>unversioned_value.h\<close>, \<open>unversioned_row.h\<close>),
  the comparison of YSON composites (\<open>composite_compare.cpp\<close>) and \<open>CompareRowValues\<close>
  (\<open>unversioned_row.cpp\<close>).

  The union of a value and its type tag form one datatype. Signed integers and doubles are
  64-bit patterns; the order of doubles is that of their sign-magnitude representation.
  The comparison is shown to be the one induced by a rank into lexicographically ordered
  lists, on scalar values and on composites that parse to comparable YSON.
\<close>

section \<open>Value types\<close>

datatype EValueType =
    VT_Min | VT_TheBottom | VT_Null | VT_Int64 | VT_Uint64 | VT_Double | VT_Boolean
  | VT_String | VT_Any | VT_Composite | VT_Max

fun type_code :: "EValueType \<Rightarrow> nat" where
  "type_code VT_Min = 0x00"
| "type_code VT_TheBottom = 0x01"
| "type_code VT_Null = 0x02"
| "type_code VT_Int64 = 0x03"
| "type_code VT_Uint64 = 0x04"
| "type_code VT_Double = 0x05"
| "type_code VT_Boolean = 0x06"
| "type_code VT_String = 0x10"
| "type_code VT_Any = 0x11"
| "type_code VT_Composite = 0x12"
| "type_code VT_Max = 0xef"

definition all_types :: "EValueType list" where
  "all_types = [VT_Min, VT_TheBottom, VT_Null, VT_Int64, VT_Uint64, VT_Double, VT_Boolean,
     VT_String, VT_Any, VT_Composite, VT_Max]"

definition type_of_code :: "nat \<Rightarrow> EValueType option" where
  "type_of_code n = find (\<lambda>type. type_code type = n) all_types"

lemma type_code_inj: "type_code a = type_code b \<longleftrightarrow> a = b"
  by (cases a; cases b) simp_all

lemma type_of_code_code [simp]: "type_of_code (type_code type) = Some type"
  by (cases type) (simp_all add: type_of_code_def all_types_def)

text \<open>The enumerators are ordered by their codes.\<close>

instantiation EValueType :: linorder
begin

definition less_eq_EValueType :: "EValueType \<Rightarrow> EValueType \<Rightarrow> bool" where
  "less_eq_EValueType a b \<longleftrightarrow> type_code a \<le> type_code b"

definition less_EValueType :: "EValueType \<Rightarrow> EValueType \<Rightarrow> bool" where
  "less_EValueType a b \<longleftrightarrow> type_code a < type_code b"

instance
  by standard (auto simp: less_eq_EValueType_def less_EValueType_def type_code_inj)

end

definition IsIntegralType :: "EValueType \<Rightarrow> bool" where
  "IsIntegralType type \<longleftrightarrow> type = VT_Int64 \<or> type = VT_Uint64"

definition IsArithmeticType :: "EValueType \<Rightarrow> bool" where
  "IsArithmeticType type \<longleftrightarrow> IsIntegralType type \<or> type = VT_Double"

definition IsAnyOrComposite :: "EValueType \<Rightarrow> bool" where
  "IsAnyOrComposite type \<longleftrightarrow> type = VT_Any \<or> type = VT_Composite"

definition IsStringLikeType :: "EValueType \<Rightarrow> bool" where
  "IsStringLikeType type \<longleftrightarrow> type = VT_String \<or> IsAnyOrComposite type"

definition IsValueType :: "EValueType \<Rightarrow> bool" where
  "IsValueType type \<longleftrightarrow>
     type = VT_Int64 \<or> type = VT_Uint64 \<or> type = VT_Double \<or> type = VT_Boolean \<or>
     type = VT_String \<or> type = VT_Any"

definition IsSentinel :: "EValueType \<Rightarrow> bool" where
  "IsSentinel type \<longleftrightarrow> type = VT_Min \<or> type = VT_Max"

definition ValidateDataValueType :: "EValueType \<Rightarrow> unit res" where
  "ValidateDataValueType type =
     throw_if (type \<noteq> VT_Int64 \<and> type \<noteq> VT_Uint64 \<and> type \<noteq> VT_Double \<and> type \<noteq> VT_Boolean \<and>
       type \<noteq> VT_String \<and> type \<noteq> VT_Any \<and> type \<noteq> VT_Composite \<and> type \<noteq> VT_Null)
       ''Invalid data value type''"

definition ValidateKeyValueType :: "EValueType \<Rightarrow> unit res" where
  "ValidateKeyValueType type =
     throw_if (type \<noteq> VT_Int64 \<and> type \<noteq> VT_Uint64 \<and> type \<noteq> VT_Double \<and> type \<noteq> VT_Boolean \<and>
       type \<noteq> VT_String \<and> type \<noteq> VT_Any \<and> type \<noteq> VT_Composite \<and> type \<noteq> VT_Null \<and>
       type \<noteq> VT_Min \<and> type \<noteq> VT_Max)
       ''Invalid key value type''"

definition ValidateSchemaValueType :: "EValueType \<Rightarrow> unit res" where
  "ValidateSchemaValueType type =
     throw_if (type \<noteq> VT_Null \<and> type \<noteq> VT_Int64 \<and> type \<noteq> VT_Uint64 \<and> type \<noteq> VT_Double \<and>
       type \<noteq> VT_Boolean \<and> type \<noteq> VT_String \<and> type \<noteq> VT_Any \<and> type \<noteq> VT_Composite)
       ''Invalid value type''"

lemma Validate_value_type_iff:
  "ValidateDataValueType type = Inr () \<longleftrightarrow> \<not> IsSentinel type \<and> type \<noteq> VT_TheBottom"
  "ValidateKeyValueType type = Inr () \<longleftrightarrow> type \<noteq> VT_TheBottom"
  "ValidateSchemaValueType type = Inr () \<longleftrightarrow> \<not> IsSentinel type \<and> type \<noteq> VT_TheBottom"
  by (cases type; simp add: ValidateDataValueType_def ValidateKeyValueType_def
      ValidateSchemaValueType_def IsSentinel_def)+

section \<open>Column filters\<close>

record TColumnFilter =
  Universal :: bool
  Indexes :: "int list"

definition TColumnFilter_universal :: TColumnFilter where
  "TColumnFilter_universal = \<lparr>Universal = True, Indexes = []\<rparr>"

definition TColumnFilter_of_indexes :: "int list \<Rightarrow> TColumnFilter" where
  "TColumnFilter_of_indexes indexes = \<lparr>Universal = False, Indexes = indexes\<rparr>"

definition TColumnFilter_of_count :: "int \<Rightarrow> TColumnFilter" where
  "TColumnFilter_of_count schemaColumnCount =
     \<lparr>Universal = False, Indexes = [0..schemaColumnCount - 1]\<rparr>"

fun find_index :: "'a \<Rightarrow> 'a list \<Rightarrow> nat option" where
  "find_index x [] = None"
| "find_index x (y # ys) = (if x = y then Some 0 else map_option Suc (find_index x ys))"

definition FindPosition :: "TColumnFilter \<Rightarrow> int \<Rightarrow> nat option res" where
  "FindPosition f columnIndex =
     rbind (throw_if (Universal f)
       ''Unable to search index in column filter with IsUniversal flag'')
       (\<lambda>_. Inr (find_index columnIndex (Indexes f)))"

definition GetPosition :: "TColumnFilter \<Rightarrow> int \<Rightarrow> nat res" where
  "GetPosition f columnIndex =
     rbind (FindPosition f columnIndex) (\<lambda>indexOrNull.
       case indexOrNull of
         Some index \<Rightarrow> Inr index
       | None \<Rightarrow> Inl (Thrown ''Column filter does not contain column index''))"

definition ContainsIndex :: "TColumnFilter \<Rightarrow> int \<Rightarrow> bool" where
  "ContainsIndex f columnIndex \<longleftrightarrow>
     (if Universal f then True else find_index columnIndex (Indexes f) \<noteq> None)"

definition GetIndexes :: "TColumnFilter \<Rightarrow> int list res" where
  "GetIndexes f = rbind (verify (\<not> Universal f) ''!Universal_'') (\<lambda>_. Inr (Indexes f))"

definition IsUniversalFilter :: "TColumnFilter \<Rightarrow> bool" where
  "IsUniversalFilter f = Universal f"

text \<open>The loop over the indexes; \<open>flags\<close> has one entry per schema column.\<close>

fun ValidateColumnFilter_loop :: "bool list \<Rightarrow> int \<Rightarrow> int list \<Rightarrow> unit res" where
  "ValidateColumnFilter_loop flags schemaColumnCount [] = Inr ()"
| "ValidateColumnFilter_loop flags schemaColumnCount (index # indexes) =
     rbind (throw_if (index < 0 \<or> index \<ge> schemaColumnCount)
       ''Column filter contains invalid index'') (\<lambda>_.
     rbind (throw_if (flags ! nat index) ''Column filter contains duplicate index'') (\<lambda>_.
     ValidateColumnFilter_loop (flags[nat index := True]) schemaColumnCount indexes))"

definition ValidateColumnFilter :: "TColumnFilter \<Rightarrow> int \<Rightarrow> unit res" where
  "ValidateColumnFilter columnFilter schemaColumnCount =
     (if IsUniversalFilter columnFilter then Inr ()
      else rbind (GetIndexes columnFilter)
        (ValidateColumnFilter_loop (replicate (nat schemaColumnCount) False) schemaColumnCount))"

lemma find_index_eq_Some:
  "find_index x xs = Some i \<longleftrightarrow> i < length xs \<and> xs ! i = x \<and> (\<forall>j<i. xs ! j \<noteq> x)"
proof (induction xs arbitrary: i)
  case (Cons y ys)
  show ?case
    by (cases i) (auto simp: Cons.IH less_Suc_eq_0_disj)
qed simp

lemma find_index_eq_None: "find_index x xs = None \<longleftrightarrow> x \<notin> set xs"
  by (induction xs) auto

lemma ValidateColumnFilter_loop_iff:
  "length flags = nat n \<Longrightarrow>
   ValidateColumnFilter_loop flags n indexes = Inr () \<longleftrightarrow>
     distinct indexes \<and> (\<forall>i\<in>set indexes. 0 \<le> i \<and> i < n \<and> \<not> flags ! nat i)"
proof (induction indexes arbitrary: flags)
  case (Cons i rest)
  show ?case
  proof (cases "0 \<le> i \<and> i < n")
    case True
    then have "\<And>j. 0 \<le> j \<Longrightarrow> j < n \<Longrightarrow>
      flags[nat i := True] ! nat j \<longleftrightarrow> i = j \<or> flags ! nat j"
      using Cons.prems by (auto simp: nth_list_update nat_eq_iff)
    with True Cons show ?thesis by auto
  qed (auto simp: not_le not_less)
qed simp

text \<open>A column filter passes validation exactly when it is universal or lists distinct
  schema columns; then every listed column has a position, the first one at which it
  occurs, so \<open>GetPosition\<close> inverts indexing, and \<open>ContainsIndex\<close> agrees with it.\<close>

theorem column_filter_valid_positions:
  "(ValidateColumnFilter f n = Inr () \<longleftrightarrow>
      Universal f \<or> distinct (Indexes f) \<and> (\<forall>i\<in>set (Indexes f). 0 \<le> i \<and> i < n)) \<and>
   (\<not> Universal f \<longrightarrow> ValidateColumnFilter f n = Inr () \<longrightarrow>
      (\<forall>p<length (Indexes f). GetPosition f (Indexes f ! p) = Inr p) \<and>
      (\<forall>i. ContainsIndex f i \<longleftrightarrow> (\<exists>p. GetPosition f i = Inr p)))"
proof -
  have valid: "ValidateColumnFilter f n = Inr () \<longleftrightarrow>
      Universal f \<or> distinct (Indexes f) \<and> (\<forall>i\<in>set (Indexes f). 0 \<le> i \<and> i < n)"
    by (auto simp: ValidateColumnFilter_def IsUniversalFilter_def GetIndexes_def
        ValidateColumnFilter_loop_iff)
  have pos: "GetPosition f i = Inr p \<longleftrightarrow> find_index i (Indexes f) = Some p" if "\<not> Universal f" for i p
    using that by (auto simp: GetPosition_def FindPosition_def split: option.splits)
  have "distinct (Indexes f) \<Longrightarrow> p < length (Indexes f) \<Longrightarrow>
    find_index (Indexes f ! p) (Indexes f) = Some p" for p
    by (auto simp: find_index_eq_Some nth_eq_iff_index_eq)
  with valid pos show ?thesis
    by (auto simp: ContainsIndex_def not_None_eq)
qed

theorem column_filter_valid_positions_witness:
  "ValidateColumnFilter (TColumnFilter_of_indexes [4, 1]) 5 = Inr () \<and>
   GetPosition (TColumnFilter_of_indexes [4, 1]) 1 = Inr 1"
proof -
  let ?f = "TColumnFilter_of_indexes [4, 1]"
  have f: "\<not> Universal ?f" "Indexes ?f = [4, 1]" by (simp_all add: TColumnFilter_of_indexes_def)
  have ok: "ValidateColumnFilter ?f 5 = Inr ()" by code_simp
  moreover have "GetPosition ?f (Indexes ?f ! 1) = Inr 1"
    using column_filter_valid_positions [of ?f 5] ok f(1) unfolding f(2) by fastforce
  ultimately show ?thesis by (simp add: f(2))
qed

section \<open>Doubles\<close>

text \<open>
  A double is its IEEE 754 bit pattern. Of two numbers that are not NaN, the smaller one
  has the smaller sign-magnitude reading, and both zeros read as 0.
\<close>

definition double_magnitude :: "u64 \<Rightarrow> int" where
  "double_magnitude d = uint (d AND 0x7FFFFFFFFFFFFFFF)"

definition double_isnan :: "u64 \<Rightarrow> bool" where
  "double_isnan d \<longleftrightarrow> 0x7FF0000000000000 < double_magnitude d"

definition double_number :: "u64 \<Rightarrow> int" where
  "double_number d = (if bit d 63 then - double_magnitude d else double_magnitude d)"

definition double_less :: "u64 \<Rightarrow> u64 \<Rightarrow> bool" where
  "double_less lhs rhs \<longleftrightarrow>
     \<not> double_isnan lhs \<and> \<not> double_isnan rhs \<and> double_number lhs < double_number rhs"

definition NaNSafeTernaryCompare :: "u64 \<Rightarrow> u64 \<Rightarrow> int" where
  "NaNSafeTernaryCompare lhs rhs =
     (if double_less lhs rhs then -1
      else if double_less rhs lhs then 1
      else if double_isnan lhs then (if double_isnan rhs then 0 else 1)
      else if double_isnan rhs then -1
      else 0)"

text \<open>All NaNs are one value above every number.\<close>

definition double_rank :: "u64 \<Rightarrow> int" where
  "double_rank d = (if double_isnan d then 2 ^ 63 else double_number d)"

lemma double_number_less: "\<not> double_isnan d \<Longrightarrow> double_number d < 2 ^ 63"
proof -
  have "0 \<le> double_magnitude d" by (simp add: double_magnitude_def)
  then show "\<not> double_isnan d \<Longrightarrow> double_number d < 2 ^ 63"
    by (auto simp: double_isnan_def double_number_def)
qed

lemma NaNSafeTernaryCompare_rank:
  "NaNSafeTernaryCompare lhs rhs = TernaryCompare (double_rank lhs) (double_rank rhs)"
  using double_number_less [of lhs] double_number_less [of rhs]
  by (auto simp: NaNSafeTernaryCompare_def double_less_def double_rank_def TernaryCompare_def)

section \<open>Values\<close>

datatype TUnversionedValueData =
    D_Min | D_TheBottom | D_Null | D_Int64 u64 | D_Uint64 u64 | D_Double u64 | D_Boolean bool
  | D_String "byte list" | D_Any "byte list" | D_Composite "byte list" | D_Max

record TUnversionedValue =
  Id :: u16
  Flags :: byte
  Data :: TUnversionedValueData

fun data_type :: "TUnversionedValueData \<Rightarrow> EValueType" where
  "data_type D_Min = VT_Min"
| "data_type D_TheBottom = VT_TheBottom"
| "data_type D_Null = VT_Null"
| "data_type (D_Int64 _) = VT_Int64"
| "data_type (D_Uint64 _) = VT_Uint64"
| "data_type (D_Double _) = VT_Double"
| "data_type (D_Boolean _) = VT_Boolean"
| "data_type (D_String _) = VT_String"
| "data_type (D_Any _) = VT_Any"
| "data_type (D_Composite _) = VT_Composite"
| "data_type D_Max = VT_Max"

definition Type :: "TUnversionedValue \<Rightarrow> EValueType" where
  "Type v = data_type (Data v)"

text \<open>The string of a string-like value; other values have no string.\<close>

fun data_string :: "TUnversionedValueData \<Rightarrow> byte list" where
  "data_string (D_String s) = s"
| "data_string (D_Any s) = s"
| "data_string (D_Composite s) = s"
| "data_string _ = []"

definition AsStringBuf :: "TUnversionedValue \<Rightarrow> byte list" where
  "AsStringBuf v = data_string (Data v)"

text \<open>The payload of a value-initialised union with the given tag.\<close>

fun zero_data :: "EValueType \<Rightarrow> TUnversionedValueData" where
  "zero_data VT_Min = D_Min"
| "zero_data VT_TheBottom = D_TheBottom"
| "zero_data VT_Null = D_Null"
| "zero_data VT_Int64 = D_Int64 0"
| "zero_data VT_Uint64 = D_Uint64 0"
| "zero_data VT_Double = D_Double 0"
| "zero_data VT_Boolean = D_Boolean False"
| "zero_data VT_String = D_String []"
| "zero_data VT_Any = D_Any []"
| "zero_data VT_Composite = D_Composite []"
| "zero_data VT_Max = D_Max"

text \<open>Identifiers are passed as \<open>int\<close> and stored in 16 bits, lengths in 32 bits.\<close>

definition MakeSentinelValue :: "EValueType \<Rightarrow> int \<Rightarrow> byte \<Rightarrow> TUnversionedValue" where
  "MakeSentinelValue type cid flags = \<lparr>Id = of_int cid, Flags = flags, Data = zero_data type\<rparr>"

definition MakeNullValue :: "int \<Rightarrow> byte \<Rightarrow> TUnversionedValue" where
  "MakeNullValue cid flags = \<lparr>Id = of_int cid, Flags = flags, Data = D_Null\<rparr>"

definition MakeInt64Value :: "u64 \<Rightarrow> int \<Rightarrow> byte \<Rightarrow> TUnversionedValue" where
  "MakeInt64Value v cid flags = \<lparr>Id = of_int cid, Flags = flags, Data = D_Int64 v\<rparr>"

definition MakeUint64Value :: "u64 \<Rightarrow> int \<Rightarrow> byte \<Rightarrow> TUnversionedValue" where
  "MakeUint64Value v cid flags = \<lparr>Id = of_int cid, Flags = flags, Data = D_Uint64 v\<rparr>"

definition MakeDoubleValue :: "u64 \<Rightarrow> int \<Rightarrow> byte \<Rightarrow> TUnversionedValue" where
  "MakeDoubleValue v cid flags = \<lparr>Id = of_int cid, Flags = flags, Data = D_Double v\<rparr>"

definition MakeBooleanValue :: "bool \<Rightarrow> int \<Rightarrow> byte \<Rightarrow> TUnversionedValue" where
  "MakeBooleanValue v cid flags = \<lparr>Id = of_int cid, Flags = flags, Data = D_Boolean v\<rparr>"

fun string_data :: "EValueType \<Rightarrow> byte list \<Rightarrow> TUnversionedValueData" where
  "string_data VT_String s = D_String s"
| "string_data VT_Any s = D_Any s"
| "string_data VT_Composite s = D_Composite s"
| "string_data type s = zero_data type"

definition MakeStringLikeValue :: "EValueType \<Rightarrow> byte list \<Rightarrow> int \<Rightarrow> byte \<Rightarrow> TUnversionedValue" where
  "MakeStringLikeValue valueType v cid flags =
     \<lparr>Id = of_int cid, Flags = flags, Data = string_data valueType (take (length v mod 2 ^ 32) v)\<rparr>"

definition MakeStringValue :: "byte list \<Rightarrow> int \<Rightarrow> byte \<Rightarrow> TUnversionedValue" where
  "MakeStringValue v cid flags = MakeStringLikeValue VT_String v cid flags"

definition MakeAnyValue :: "byte list \<Rightarrow> int \<Rightarrow> byte \<Rightarrow> TUnversionedValue" where
  "MakeAnyValue v cid flags = MakeStringLikeValue VT_Any v cid flags"

definition MakeCompositeValue :: "byte list \<Rightarrow> int \<Rightarrow> byte \<Rightarrow> TUnversionedValue" where
  "MakeCompositeValue v cid flags = MakeStringLikeValue VT_Composite v cid flags"

text \<open>The invariant of values: lengths fit the 32-bit \<open>Length\<close> field.\<close>

definition value_ok :: "TUnversionedValue \<Rightarrow> bool" where
  "value_ok v \<longleftrightarrow> length (AsStringBuf v) < 2 ^ 32"

lemma Type_Make [simp]:
  "Type (MakeSentinelValue type cid flags) = type"
  "Type (MakeNullValue cid flags) = VT_Null"
  "Type (MakeInt64Value x cid flags) = VT_Int64"
  "Type (MakeUint64Value x cid flags) = VT_Uint64"
  "Type (MakeDoubleValue x cid flags) = VT_Double"
  "Type (MakeBooleanValue b cid flags) = VT_Boolean"
  "Type (MakeStringLikeValue type s cid flags) = type"
  by (cases type; simp add: Type_def MakeSentinelValue_def MakeNullValue_def MakeInt64Value_def
      MakeUint64Value_def MakeDoubleValue_def MakeBooleanValue_def MakeStringLikeValue_def)+

lemma AsStringBuf_Make:
  "AsStringBuf (MakeSentinelValue type cid flags) = []"
  "AsStringBuf (MakeStringLikeValue type s cid flags) =
     (if IsStringLikeType type then take (length s mod 2 ^ 32) s else [])"
  by (cases type; simp add: AsStringBuf_def MakeSentinelValue_def MakeStringLikeValue_def
      IsStringLikeType_def IsAnyOrComposite_def)+

lemma value_ok_Make [simp]:
  "value_ok (MakeSentinelValue type cid flags)" "value_ok (MakeStringLikeValue type s cid flags)"
proof -
  have "length s mod 2 ^ 32 < 2 ^ 32" by (rule mod_less_divisor) simp
  then have "length (take (length s mod 2 ^ 32) s) < 2 ^ 32"
    by (metis le_less_trans length_take min.cobounded2)
  then show "value_ok (MakeStringLikeValue type s cid flags)"
    by (simp only: value_ok_def AsStringBuf_Make split: if_split) simp
qed (simp add: value_ok_def AsStringBuf_Make)

lemma AsStringBuf_MakeStringLikeValue:
  "IsStringLikeType type \<Longrightarrow> length s < 2 ^ 32 \<Longrightarrow> AsStringBuf (MakeStringLikeValue type s cid flags) = s"
  by (simp add: AsStringBuf_Make)

section \<open>Data weight\<close>

definition GetDataWeight_type :: "EValueType \<Rightarrow> int res" where
  "GetDataWeight_type type =
     (case type of
        VT_Null \<Rightarrow> Inr 0 | VT_Min \<Rightarrow> Inr 0 | VT_Max \<Rightarrow> Inr 0 | VT_TheBottom \<Rightarrow> Inr 0
      | VT_Int64 \<Rightarrow> Inr 8
      | VT_Uint64 \<Rightarrow> Inr 8
      | VT_Double \<Rightarrow> Inr 8
      | VT_Boolean \<Rightarrow> Inr 1
      | _ \<Rightarrow> Inl (Fatal ''YT_ABORT''))"

definition GetDataWeight_value :: "TUnversionedValue \<Rightarrow> int res" where
  "GetDataWeight_value v =
     (if IsStringLikeType (Type v) then Inr (int (length (AsStringBuf v)))
      else GetDataWeight_type (Type v))"

lemma GetDataWeight_value_total: "\<exists>w. GetDataWeight_value v = Inr w \<and> 0 \<le> w"
  by (cases "Type v") (simp_all add: GetDataWeight_value_def GetDataWeight_type_def
      IsStringLikeType_def IsAnyOrComposite_def)

section \<open>Bitwise equality\<close>

definition BitwiseUnversionedValueEqual :: "TUnversionedValue \<Rightarrow> TUnversionedValue \<Rightarrow> bool" where
  "BitwiseUnversionedValueEqual lhs rhs \<longleftrightarrow>
     (if Id lhs \<noteq> Id rhs then False
      else if Flags lhs \<noteq> Flags rhs then False
      else if Type lhs \<noteq> Type rhs then False
      else case (Data lhs, Data rhs) of
          (D_Int64 a, D_Int64 b) \<Rightarrow> a = b
        | (D_Uint64 a, D_Uint64 b) \<Rightarrow> a = b
        | (D_Double a, D_Double b) \<Rightarrow> NaNSafeTernaryCompare a b = 0
        | (D_Boolean a, D_Boolean b) \<Rightarrow> a = b
        | (D_String a, D_String b) \<Rightarrow> a = b
        | (D_Any a, D_Any b) \<Rightarrow> a = b
        | (D_Composite a, D_Composite b) \<Rightarrow> a = b
        | _ \<Rightarrow> True)"

end
