(* ===== verification/Composite.thy ===== *)
theory Composite
  imports Values
begin

text \<open>
  Comparison, hashing and truncation of composite values: \<open>composite_compare.cpp\<close> of
  \<open>yt/yt/client/table_client\<close>. Composite values are YSON strings that are pulled through
  the parser item by item.

  Comparison is shown to be the lexicographic order of item ranks on YSON built from lists
  and scalars; truncation is shown to respect the size limit and never to increase a value.
\<close>

section \<open>Comparison of items\<close>

datatype ECompareClass = CC_Incomparable | CC_EndList | CC_Entity | CC_BeginValue

fun class_code :: "ECompareClass \<Rightarrow> nat" where
  "class_code CC_Incomparable = 0"
| "class_code CC_EndList = 1"
| "class_code CC_Entity = 2"
| "class_code CC_BeginValue = 3"

fun item_type_code :: "EYsonItemType \<Rightarrow> nat" where
  "item_type_code EndOfStream = 0"
| "item_type_code BeginMap = 1"
| "item_type_code EndMap = 2"
| "item_type_code BeginAttributes = 3"
| "item_type_code EndAttributes = 4"
| "item_type_code BeginList = 5"
| "item_type_code EndList = 6"
| "item_type_code EntityValue = 7"
| "item_type_code BooleanValue = 8"
| "item_type_code Int64Value = 9"
| "item_type_code Uint64Value = 10"
| "item_type_code DoubleValue = 11"
| "item_type_code StringValue = 12"

definition SetMask :: "EYsonItemType \<Rightarrow> ECompareClass \<Rightarrow> u32" where
  "SetMask type compareClass = push_bit (item_type_code type * 2) (of_nat (class_code compareClass))"

definition compareClassMask :: u32 where
  "compareClassMask =
     SetMask EndList CC_EndList OR
     SetMask EntityValue CC_Entity OR
     SetMask BeginList CC_BeginValue OR
     SetMask Int64Value CC_BeginValue OR
     SetMask Uint64Value CC_BeginValue OR
     SetMask DoubleValue CC_BeginValue OR
     SetMask BooleanValue CC_BeginValue OR
     SetMask StringValue CC_BeginValue"

definition GetCompareClass :: "EYsonItemType \<Rightarrow> ECompareClass" where
  "GetCompareClass type =
     (let code = unat (0x3 AND drop_bit (item_type_code type * 2) compareClassMask) in
      if code = 0 then CC_Incomparable else if code = 1 then CC_EndList
      else if code = 2 then CC_Entity else CC_BeginValue)"

definition ThrowIncomparableYsonToken :: "EYsonItemType \<Rightarrow> 'a res" where
  "ThrowIncomparableYsonToken tokenType = Inl (Thrown ''Incomparable YSON token'')"

definition item_type_mapping :: "EYsonItemType \<Rightarrow> EValueType" where
  "item_type_mapping itemType =
     (case itemType of
        EndOfStream \<Rightarrow> VT_Min
      | BeginMap \<Rightarrow> VT_Min
      | EndMap \<Rightarrow> VT_Min
      | BeginAttributes \<Rightarrow> VT_Min
      | EndAttributes \<Rightarrow> VT_Min
      | BeginList \<Rightarrow> VT_Any
      | EndList \<Rightarrow> VT_Min
      | EntityValue \<Rightarrow> VT_Min
      | BooleanValue \<Rightarrow> VT_Boolean
      | Int64Value \<Rightarrow> VT_Int64
      | Uint64Value \<Rightarrow> VT_Uint64
      | DoubleValue \<Rightarrow> VT_Double
      | StringValue \<Rightarrow> VT_String)"

definition MapItemTypeToValueType :: "EYsonItemType \<Rightarrow> EValueType res" where
  "MapItemTypeToValueType itemType =
     (let valueType = item_type_mapping itemType in
      if valueType = VT_Min then ThrowIncomparableYsonToken itemType else Inr valueType)"

fun UncheckedAsBoolean :: "TYsonItem \<Rightarrow> bool" where
  "UncheckedAsBoolean (Item_Boolean v) = v"
| "UncheckedAsBoolean _ = False"

fun UncheckedAsInt64 :: "TYsonItem \<Rightarrow> u64" where
  "UncheckedAsInt64 (Item_Int64 v) = v"
| "UncheckedAsInt64 _ = 0"

fun UncheckedAsUint64 :: "TYsonItem \<Rightarrow> u64" where
  "UncheckedAsUint64 (Item_Uint64 v) = v"
| "UncheckedAsUint64 _ = 0"

fun UncheckedAsDouble :: "TYsonItem \<Rightarrow> u64" where
  "UncheckedAsDouble (Item_Double v) = v"
| "UncheckedAsDouble _ = 0"

fun UncheckedAsString :: "TYsonItem \<Rightarrow> byte list" where
  "UncheckedAsString (Item_String v) = v"
| "UncheckedAsString _ = []"

definition CompareYsonItems :: "TYsonItem \<Rightarrow> TYsonItem \<Rightarrow> int res" where
  "CompareYsonItems lhs rhs =
     (if GetType lhs = GetType rhs then
        (case GetType lhs of
           EndOfStream \<Rightarrow> Inr 0
         | BeginList \<Rightarrow> Inr 0
         | EndList \<Rightarrow> Inr 0
         | EntityValue \<Rightarrow> Inr 0
         | Int64Value \<Rightarrow>
             Inr (TernaryCompare (sint (UncheckedAsInt64 lhs)) (sint (UncheckedAsInt64 rhs)))
         | Uint64Value \<Rightarrow> Inr (TernaryCompare (UncheckedAsUint64 lhs) (UncheckedAsUint64 rhs))
         | DoubleValue \<Rightarrow>
             Inr (NaNSafeTernaryCompare (UncheckedAsDouble lhs) (UncheckedAsDouble rhs))
         | BooleanValue \<Rightarrow> Inr (TernaryCompare (UncheckedAsBoolean lhs) (UncheckedAsBoolean rhs))
         | StringValue \<Rightarrow> Inr (TernaryCompare (UncheckedAsString lhs) (UncheckedAsString rhs))
         | _ \<Rightarrow> ThrowIncomparableYsonToken (GetType lhs))
      else
        (let lhsClass = GetCompareClass (GetType lhs);
             rhsClass = GetCompareClass (GetType rhs) in
         if lhsClass = CC_Incomparable then ThrowIncomparableYsonToken (GetType lhs)
         else if rhsClass = CC_Incomparable then ThrowIncomparableYsonToken (GetType rhs)
         else if lhsClass = CC_BeginValue \<and> rhsClass = CC_BeginValue then
           rbind (MapItemTypeToValueType (GetType lhs)) (\<lambda>lhsType.
             rbind (MapItemTypeToValueType (GetType rhs)) (\<lambda>rhsType.
               Inr (TernaryCompare lhsType rhsType)))
         else Inr (TernaryCompare (class_code lhsClass) (class_code rhsClass))))"

section \<open>Comparison of YSON strings\<close>

definition memory_parser :: "byte list \<Rightarrow> TYsonPullParser" where
  "memory_parser bs = mk_TYsonPullParser [bs] Node DefaultYsonParserNestingLevelLimit"

abbreviation unread :: "TYsonPullParser \<Rightarrow> byte list" where
  "unread p \<equiv> remaining (Lexer p)"

lemma Next_progress:
  assumes "Next L p = Inr (item, p')" "item \<noteq> Item_Simple EndOfStream"
  shows "length (unread p') < length (unread p)"
  using assms by (auto simp: Next_def dest: NextImpl_progress)

function CompareYson_loop :: "text_lib \<Rightarrow> TYsonPullParser \<Rightarrow> TYsonPullParser \<Rightarrow> int res" where
  "CompareYson_loop L lhsParser rhsParser =
     rbind (Next L lhsParser) (\<lambda>(lhsItem, lhsParser).
       rbind (Next L rhsParser) (\<lambda>(rhsItem, rhsParser).
         rbind (CompareYsonItems lhsItem rhsItem) (\<lambda>result.
           if result \<noteq> 0 then Inr result
           else if GetType lhsItem = EndOfStream then Inr 0
           else CompareYson_loop L lhsParser rhsParser)))"
  by pat_completeness auto
termination
  by (relation "measure (\<lambda>(L, p, q). length (unread p))") (auto intro!: Next_progress)

declare CompareYson_loop.simps [simp del]

definition CompareYsonValues :: "text_lib \<Rightarrow> byte list \<Rightarrow> byte list \<Rightarrow> int res" where
  "CompareYsonValues L lhs rhs = CompareYson_loop L (memory_parser lhs) (memory_parser rhs)"

section \<open>Ranks of items\<close>

fun comparable_item :: "TYsonItem \<Rightarrow> bool" where
  "comparable_item (Item_Simple type) \<longleftrightarrow> type \<in> {BeginList, EndList, EntityValue}"
| "comparable_item _ \<longleftrightarrow> True"

fun item_rank :: "TYsonItem \<Rightarrow> int list" where
  "item_rank (Item_Simple type) =
     (if type = EndList then [1] else if type = EntityValue then [2] else [0x11])"
| "item_rank (Item_Int64 v) = [3, sint v]"
| "item_rank (Item_Uint64 v) = [4, uint v]"
| "item_rank (Item_Double v) = [5, double_rank v]"
| "item_rank (Item_Boolean v) = [6, of_bool v]"
| "item_rank (Item_String v) = 0x10 # map uint v"

lemma GetCompareClass_table:
  "GetCompareClass type =
     (case type of
        EndList \<Rightarrow> CC_EndList
      | EntityValue \<Rightarrow> CC_Entity
      | BeginList \<Rightarrow> CC_BeginValue
      | Int64Value \<Rightarrow> CC_BeginValue
      | Uint64Value \<Rightarrow> CC_BeginValue
      | DoubleValue \<Rightarrow> CC_BeginValue
      | BooleanValue \<Rightarrow> CC_BeginValue
      | StringValue \<Rightarrow> CC_BeginValue
      | _ \<Rightarrow> CC_Incomparable)"
  by (cases type; hypsubst; code_simp)

lemma TernaryCompare_mono:
  "strict_mono f \<Longrightarrow> TernaryCompare (f x) (f y) = TernaryCompare x (y::'a::linorder)"
  by (simp add: TernaryCompare_def strict_mono_less strict_mono_eq)

lemma TernaryCompare_uint: "TernaryCompare (uint x) (uint y) = TernaryCompare (x::'a::len word) y"
  by (simp add: TernaryCompare_def word_less_def word_uint_eq_iff)

lemma TernaryCompare_map_uint:
  "TernaryCompare (map uint xs) (map uint ys) = TernaryCompare xs (ys :: 'a::len word list)"
proof (induction xs arbitrary: ys)
  case Nil
  show ?case by (cases ys) simp_all
next
  case (Cons x xs)
  show ?case
    by (cases ys)
      (simp_all add: TernaryCompare_Cons Cons.IH TernaryCompare_uint word_uint_eq_iff [symmetric])
qed

lemma CompareYsonItems_rank:
  assumes "comparable_item x" "comparable_item y"
  shows "CompareYsonItems x y = Inr (TernaryCompare (item_rank x) (item_rank y))"
  using assms
  by (cases x; cases y)
    (auto simp: CompareYsonItems_def GetCompareClass_table Let_def TernaryCompare_Cons
      NaNSafeTernaryCompare_rank TernaryCompare_uint TernaryCompare_map_uint
      MapItemTypeToValueType_def item_type_mapping_def,
     auto simp: TernaryCompare_def less_EValueType_def word_uint_eq_iff)

section \<open>Lockstep comparison of item sequences\<close>

text \<open>The loop on the items of two completely parsed strings.\<close>

definition first_item :: "TYsonItem list \<Rightarrow> TYsonItem" where
  "first_item xs = (case xs of [] \<Rightarrow> Item_Simple EndOfStream | x # _ \<Rightarrow> x)"

fun compare_items :: "TYsonItem list \<Rightarrow> TYsonItem list \<Rightarrow> int res" where
  "compare_items [] ys = CompareYsonItems (Item_Simple EndOfStream) (first_item ys)"
| "compare_items (x # xs) ys =
     rbind (CompareYsonItems x (first_item ys)) (\<lambda>result.
       if result \<noteq> 0 then Inr result else compare_items xs (tl ys))"

lemma GetType_EndOfStream: "GetType item = EndOfStream \<longleftrightarrow> item = Item_Simple EndOfStream"
  by (cases item) simp_all

lemma read_items_Next:
  assumes "read_items L (SyntaxChecker p) (Lexer p) = Inr xs"
  obtains item p' where "Next L p = Inr (item, p')" "item = first_item xs"
    "item \<noteq> Item_Simple EndOfStream \<Longrightarrow>
       read_items L (SyntaxChecker p') (Lexer p') = Inr (tl xs) \<and> xs \<noteq> []"
    "item = Item_Simple EndOfStream \<Longrightarrow> xs = []"
proof -
  from assms obtain ts item c s where n:
    "NextImpl L (SyntaxChecker p) (Lexer p) = Inr (((ts, item), c), s)"
    by (subst (asm) read_items.simps) auto
  then have "Next L p = Inr (item, \<lparr>Lexer = s, SyntaxChecker = c\<rparr>)" by (simp add: Next_def)
  moreover have "item = first_item xs" "item \<noteq> Item_Simple EndOfStream \<Longrightarrow>
    read_items L c s = Inr (tl xs) \<and> xs \<noteq> []" "item = Item_Simple EndOfStream \<Longrightarrow> xs = []"
    using assms n
    by (subst (asm) read_items.simps, auto simp: first_item_def split: if_splits)+
  ultimately show ?thesis using that by auto
qed

lemma CompareYsonItems_EndOfStream:
  assumes "x \<noteq> Item_Simple EndOfStream"
  shows "CompareYsonItems (Item_Simple EndOfStream) x = Inl (Thrown ''Incomparable YSON token'')"
    and "CompareYsonItems x (Item_Simple EndOfStream) = Inl (Thrown ''Incomparable YSON token'')"
  using assms
  by (simp_all add: CompareYsonItems_def ThrowIncomparableYsonToken_def Let_def
      GetCompareClass_table GetType_EndOfStream [symmetric])

lemma CompareYsonItems_zero_type:
  "CompareYsonItems x y = Inr 0 \<Longrightarrow> x = Item_Simple EndOfStream \<longleftrightarrow> y = Item_Simple EndOfStream"
  using CompareYsonItems_EndOfStream by fastforce

lemma CompareYson_loop_items:
  assumes "read_items L (SyntaxChecker p) (Lexer p) = Inr xs"
    and "read_items L (SyntaxChecker q) (Lexer q) = Inr ys"
  shows "CompareYson_loop L p q = compare_items xs ys"
  using assms
proof (induction "length (unread p)" arbitrary: p q xs ys rule: less_induct)
  case less
  obtain x p' where x: "Next L p = Inr (x, p')" "x = first_item xs"
    "x \<noteq> Item_Simple EndOfStream \<Longrightarrow> read_items L (SyntaxChecker p') (Lexer p') = Inr (tl xs) \<and> xs \<noteq> []"
    "x = Item_Simple EndOfStream \<Longrightarrow> xs = []"
    using read_items_Next [OF less.prems(1)] by metis
  obtain y q' where y: "Next L q = Inr (y, q')" "y = first_item ys"
    "y \<noteq> Item_Simple EndOfStream \<Longrightarrow> read_items L (SyntaxChecker q') (Lexer q') = Inr (tl ys) \<and> ys \<noteq> []"
    "y = Item_Simple EndOfStream \<Longrightarrow> ys = []"
    using read_items_Next [OF less.prems(2)] by metis
  have loop: "CompareYson_loop L p q = rbind (CompareYsonItems x y) (\<lambda>result.
    if result \<noteq> 0 then Inr result else if GetType x = EndOfStream then Inr 0
    else CompareYson_loop L p' q')"
    by (subst CompareYson_loop.simps) (simp add: x(1) y(1))
  show ?case
  proof (cases "x = Item_Simple EndOfStream")
    case True
    then show ?thesis using x(4) y(2)
      by (cases "CompareYsonItems x y") (auto simp: loop)
  next
    case False
    then obtain xs' where xs: "xs = x # xs'" using x(2,3) by (cases xs) (auto simp: first_item_def)
    show ?thesis
    proof (cases "CompareYsonItems x y = Inr 0")
      case True
      with False have "y \<noteq> Item_Simple EndOfStream" using CompareYsonItems_zero_type by blast
      with False x(3) y(3) less.hyps [OF Next_progress [OF x(1) False]]
      have "CompareYson_loop L p' q' = compare_items (tl xs) (tl ys)" by blast
      with True False show ?thesis by (simp add: loop xs y(2) [symmetric] GetType_EndOfStream)
    next
      case ne: False
      then show ?thesis
        by (cases "CompareYsonItems x y") (auto simp: loop xs y(2) [symmetric])
    qed
  qed
qed

text \<open>The comparison of two comparable sequences neither of which continues the other.\<close>

lemma compare_items_rank:
  assumes "\<forall>x\<in>set xs. comparable_item x" "\<forall>y\<in>set ys. comparable_item y"
    and "\<And>k. k < length ys \<Longrightarrow> map item_rank xs \<noteq> take k (map item_rank ys)"
    and "\<And>k. k < length xs \<Longrightarrow> map item_rank ys \<noteq> take k (map item_rank xs)"
  shows "compare_items xs ys = Inr (TernaryCompare (map item_rank xs) (map item_rank ys))"
  using assms
proof (induction xs arbitrary: ys)
  case Nil
  then have "ys = []" by (cases ys) auto
  then show ?case by (simp add: first_item_def CompareYsonItems_def)
next
  case (Cons x xs)
  show ?case
  proof (cases ys)
    case Nil
    with Cons.prems(4) [of 0] show ?thesis by simp
  next
    case (Cons y ys')
    have cmp: "CompareYsonItems x y = Inr (TernaryCompare (item_rank x) (item_rank y))"
      using Cons.prems(1,2) Cons by (intro CompareYsonItems_rank) auto
    show ?thesis
    proof (cases "item_rank x = item_rank y")
      case True
      have "compare_items xs ys' = Inr (TernaryCompare (map item_rank xs) (map item_rank ys'))"
      proof (rule Cons.IH)
        show "map item_rank xs \<noteq> take k (map item_rank ys')" if "k < length ys'" for k
          using Cons.prems(3) [of "Suc k"] True Cons that by simp
        show "map item_rank ys' \<noteq> take k (map item_rank xs)" if "k < length xs" for k
          using Cons.prems(4) [of "Suc k"] True Cons that by simp
      qed (use Cons.prems Cons in auto)
      with True cmp Cons show ?thesis by (simp add: first_item_def TernaryCompare_Cons)
    next
      case False
      with cmp Cons show ?thesis by (simp add: first_item_def TernaryCompare_Cons)
    qed
  qed
qed

section \<open>Complete values\<close>

text \<open>
  The shape of the items of one value, read from inside \<open>d\<close> lists: it ends with the list
  or scalar that brings the depth back to zero. Nothing is said beyond a map or attributes.
\<close>

fun closes :: "nat \<Rightarrow> nat \<Rightarrow> TYsonItem list \<Rightarrow> bool" where
  "closes l d [] \<longleftrightarrow> False"
| "closes l d (x # xs) \<longleftrightarrow>
     (if \<not> comparable_item x then True
      else if x = Item_Simple BeginList then Suc d < l \<and> closes l (Suc d) xs
      else if x = Item_Simple EndList then
        0 < d \<and> (if d = 1 then xs = [] else closes l (d - 1) xs)
      else if d = 0 then xs = [] else closes l d xs)"

text \<open>The stacks of the syntax checker inside \<open>d\<close> lists.\<close>

definition list_stack :: "nat \<Rightarrow> EYsonState list" where
  "list_stack d =
     (if d = 0 then [ExpectValue, Terminated]
      else InsideListExpectValue # replicate (d - 1) InsideListExpectSeparator @ [Terminated])"

definition list_stack_sep :: "nat \<Rightarrow> EYsonState list" where
  "list_stack_sep d = replicate d InsideListExpectSeparator @ [Terminated]"

lemma value_done_list_stack:
  "\<exists>st r. list_stack d = st # r \<and> value_done st r = Some (list_stack_sep d)"
  by (cases d) (simp_all add: list_stack_def list_stack_sep_def)

lemma list_stack_token:
  assumes "d < unat m"
  shows "on_token (TScalar s) (chk (list_stack d) d m) = Inr (chk (list_stack_sep d) d m)"
    and "on_token TBeginList (chk (list_stack d) d m) =
      (if Suc d < unat m then Inr (chk (list_stack (Suc d)) (Suc d) m)
       else Inl (Thrown ''Depth limit exceeded while parsing YSON''))"
    and "0 < d \<Longrightarrow> on_token TEndList (chk (list_stack d) d m) = Inr (chk (list_stack_sep (d - 1)) (d - 1) m)"
    and "0 < d \<Longrightarrow> on_token TEndList (chk (list_stack_sep d) d m) = Inr (chk (list_stack_sep (d - 1)) (d - 1) m)"
    and "0 < d \<Longrightarrow> on_token TSeparator (chk (list_stack_sep d) d m) = Inr (chk (list_stack d) d m)"
proof -
  obtain st r where st: "list_stack d = st # r" "value_done st r = Some (list_stack_sep d)"
    using value_done_list_stack by blast
  show "on_token (TScalar s) (chk (list_stack d) d m) = Inr (chk (list_stack_sep d) d m)"
    using value_token(1) [OF st(2)] st(1) by simp
  show "on_token TBeginList (chk (list_stack d) d m) =
      (if Suc d < unat m then Inr (chk (list_stack (Suc d)) (Suc d) m)
       else Inl (Thrown ''Depth limit exceeded while parsing YSON''))"
    using value_token(2) [OF st(2)] st(1) assms by (simp add: list_stack_def list_stack_sep_def)
  assume "0 < d"
  then obtain e where d: "d = Suc e" by (cases d) auto
  with assms show "on_token TEndList (chk (list_stack d) d m) = Inr (chk (list_stack_sep (d - 1)) (d - 1) m)"
    "on_token TEndList (chk (list_stack_sep d) d m) = Inr (chk (list_stack_sep (d - 1)) (d - 1) m)"
    "on_token TSeparator (chk (list_stack_sep d) d m) = Inr (chk (list_stack d) d m)"
    by (simp_all add: list_stack_def list_stack_sep_def operation_defs del: of_nat_Suc)
qed

lemma finishes_closes:
  assumes "d < unat m"
  shows "finishes (chk (list_stack d) d m) ts \<Longrightarrow> closes (unat m) d (items_of ts)"
    and "finishes (chk (list_stack_sep d) d m) ts \<Longrightarrow>
      if d = 0 then ts = [] else closes (unat m) d (items_of ts)"
  using assms
proof (induction ts arbitrary: d)
  case Nil
  { case 1 then show ?case by (cases d) (simp_all add: finishes_simps list_stack_def operation_defs)
  next
    case 2 then show ?case by (cases d) (simp_all add: finishes_simps list_stack_sep_def operation_defs) }
next
  case (Cons t ts)
  { case 1
    show ?case
    proof (cases t)
      case TBeginList
      with 1 Cons.IH(1) [of "Suc d"] show ?thesis
        by (simp add: finishes_simps list_stack_token del: on_token.simps split: if_splits)
    next
      case TEndList
      show ?thesis
      proof (cases d)
        case 0
        with 1 TEndList show ?thesis by (simp add: finishes_simps list_stack_def operation_defs)
      next
        case (Suc e)
        with 1 TEndList Cons.IH(2) [of e] show ?thesis
          by (simp add: finishes_simps list_stack_token del: on_token.simps split: if_splits)
      qed
    next
      case (TScalar s)
      with 1 Cons.IH(2) [of d] show ?thesis
        by (cases s)
          (auto simp add: finishes_simps list_stack_token simp del: on_token.simps split: if_splits)
    next
      case TEquality
      with 1 show ?thesis by (cases d) (simp_all add: finishes_simps list_stack_def operation_defs)
    next
      case TSeparator
      with 1 show ?thesis by (cases d) (simp_all add: finishes_simps list_stack_def operation_defs)
    qed simp_all
  next
    case 2
    show ?case
    proof (cases d)
      case 0
      with 2 show ?thesis
        by (cases t) (simp_all add: finishes_simps list_stack_sep_def operation_defs)
    next
      case (Suc e)
      show ?thesis
      proof (cases "t = TEndList \<or> t = TSeparator")
        case True
        with 2 Suc Cons.IH(1) [of d] Cons.IH(2) [of e] show ?thesis
          by (auto simp add: finishes_simps list_stack_token simp del: on_token.simps split: if_splits)
      next
        case False
        with 2 Suc show ?thesis
          by (cases t) (simp_all add: finishes_simps list_stack_sep_def operation_defs)
      qed
    qed }
qed


text \<open>Complete sequences of comparable items are determined by their ranks alone.\<close>

lemma item_rank_kind:
  assumes "item_rank x = item_rank y" "comparable_item x" "comparable_item y"
  shows "x = Item_Simple BeginList \<longleftrightarrow> y = Item_Simple BeginList"
    "x = Item_Simple EndList \<longleftrightarrow> y = Item_Simple EndList"
  using assms by (cases x; cases y; auto split: if_splits)+

lemma closes_prefix_free:
  assumes "closes l d xs" "closes l d ys"
    and "\<forall>x\<in>set xs. comparable_item x" "\<forall>y\<in>set ys. comparable_item y"
    and "k < length ys"
  shows "map item_rank xs \<noteq> take k (map item_rank ys)"
  using assms
proof (induction l d xs arbitrary: ys k rule: closes.induct)
  case (2 l d x xs)
  show ?case
  proof (cases ys)
    case (Cons y ys')
    show ?thesis
    proof (rule notI)
      assume eq: "map item_rank (x # xs) = take k (map item_rank ys)"
      with Cons obtain j where k: "k = Suc j" by (cases k) auto
      with eq Cons have r: "item_rank x = item_rank y" "map item_rank xs = take j (map item_rank ys')"
        by simp_all
      note kind = item_rank_kind [OF r(1)]
      from k Cons "2.prems"(5) have "j < length ys'" by simp
      moreover from this have "ys' \<noteq> []" by auto
      ultimately show False
        using "2.prems" "2.IH" [of ys' j] kind r(2) Cons by (auto split: if_splits)
    qed
  qed (use 2 in simp)
qed simp

definition yson_items :: "text_lib \<Rightarrow> byte list \<Rightarrow> TYsonItem list res" where
  "yson_items L bs = parse_yson L Node DefaultYsonParserNestingLevelLimit [bs]"

definition comparable_yson :: "text_lib \<Rightarrow> byte list \<Rightarrow> bool" where
  "comparable_yson L bs =
     (case yson_items L bs of Inl _ \<Rightarrow> False | Inr items \<Rightarrow> list_all comparable_item items)"

definition yson_rank :: "text_lib \<Rightarrow> byte list \<Rightarrow> int list list" where
  "yson_rank L bs = (case yson_items L bs of Inl _ \<Rightarrow> [] | Inr items \<Rightarrow> map item_rank items)"

lemma yson_items_closes:
  assumes "yson_items L bs = Inr items"
  shows "closes 256 0 items"
proof -
  from assms obtain ts where "finishes (mk_TYsonSyntaxChecker Node 256) ts" "items_of ts = items"
    by (auto simp: yson_items_def parse_yson_def mk_TYsonPullParser_def
        DefaultYsonParserNestingLevelLimit_def dest: read_items_checked)
  with finishes_closes(1) [of 0 256 ts] show ?thesis
    by (simp add: mk_checker_chk list_stack_def)
qed

lemma CompareYsonValues_items:
  assumes "yson_items L lhs = Inr xs" "yson_items L rhs = Inr ys"
  shows "CompareYsonValues L lhs rhs = compare_items xs ys"
  unfolding CompareYsonValues_def
  by (rule CompareYson_loop_items)
    (use assms in \<open>simp_all add: yson_items_def parse_yson_def memory_parser_def Let_def\<close>)

lemma CompareYsonValues_rank:
  assumes "comparable_yson L lhs" "comparable_yson L rhs"
  shows "CompareYsonValues L lhs rhs = Inr (TernaryCompare (yson_rank L lhs) (yson_rank L rhs))"
proof -
  from assms obtain xs ys where p: "yson_items L lhs = Inr xs" "yson_items L rhs = Inr ys"
    and c: "\<forall>x\<in>set xs. comparable_item x" "\<forall>y\<in>set ys. comparable_item y"
    by (auto simp: comparable_yson_def list_all_iff split: sum.splits)
  note cl = yson_items_closes [OF p(1)] yson_items_closes [OF p(2)]
  have "compare_items xs ys = Inr (TernaryCompare (map item_rank xs) (map item_rank ys))"
    by (rule compare_items_rank [OF c]) (rule closes_prefix_free; use cl c in simp)+
  with p CompareYsonValues_items [OF p] show ?thesis by (simp add: yson_rank_def)
qed

text \<open>C27. Comparing two composite values that contain only lists and scalars never fails: the
  result is the lexicographic comparison of the ranks of their items, where the end of a
  list precedes an entity, an entity precedes every other value, and scalars of different
  types are ordered by their value type.\<close>

theorem compare_yson_lexicographic:
  assumes "comparable_yson L lhs" "comparable_yson L rhs"
  shows "CompareYsonValues L lhs rhs = Inr (TernaryCompare (yson_rank L lhs) (yson_rank L rhs))"
  using assms by (rule CompareYsonValues_rank)

theorem compare_yson_lexicographic_witness:
  "comparable_yson sample_lib [0x5B, 0x02, 0x04, 0x5D] \<and>
   comparable_yson sample_lib [0x5B, 0x02, 0x04, 0x3B, 0x23, 0x5D] \<and>
   CompareYsonValues sample_lib [0x5B, 0x02, 0x04, 0x5D] [0x5B, 0x02, 0x04, 0x3B, 0x23, 0x5D] = Inr (-1)"
proof -
  have c: "comparable_yson sample_lib [0x5B, 0x02, 0x04, 0x5D]"
    "comparable_yson sample_lib [0x5B, 0x02, 0x04, 0x3B, 0x23, 0x5D]" by code_simp+
  have "yson_rank sample_lib [0x5B, 0x02, 0x04, 0x5D] = [[0x11], [3, 2], [1]]"
    "yson_rank sample_lib [0x5B, 0x02, 0x04, 0x3B, 0x23, 0x5D] = [[0x11], [3, 2], [2], [1]]"
    by code_simp+
  with c compare_yson_lexicographic [OF c] show ?thesis by (simp add: TernaryCompare_def)
qed

end
