(* ===== verification/CompositeTruncate.thy ===== *)
theory CompositeTruncate
  imports Composite
begin

text \<open>
  Truncation of a composite value to a size limit: \<open>TruncateYsonValue\<close> of
  \<open>composite_compare.cpp\<close>. Truncated values serve as approximate key bounds, so the result
  must fit into the limit, must be a value again and must not exceed the original.

  The writer is the unchecked one of a release build; the output is shown to be a token
  sequence that the checked writer of a debug build accepts as well.
\<close>

section \<open>Truncation\<close>

definition GetMinResultingSize :: "TYsonItem \<Rightarrow> bool \<Rightarrow> int res" where
  "GetMinResultingSize item isInsideList =
     (if GetType item = EndList then Inr 0
      else let resultingSize = GetBinarySize item in
        rbind (if GetType item = StringValue
               then let resultingSize = resultingSize - int (length (UncheckedAsString item)) in
                    rbind (verify (0 \<le> resultingSize) ''resultingSize >= 0'') (\<lambda>_. Inr resultingSize)
               else Inr resultingSize) (\<lambda>resultingSize.
        let resultingSize =
              (if GetType item = BeginList
               then resultingSize + GetBinarySize (Item_Simple EndList) else resultingSize)
        in Inr (if isInsideList then resultingSize + 1 else resultingSize)))"

text \<open>
  The switch over the item: the bytes that are written, the size that is added to
  \<open>resultingItemSize\<close> and the new \<open>unclosedListCount\<close>, or nothing when it sets \<open>isEof\<close>.
  The first argument after the item is \<open>remainingBytes - resultingItemSize\<close>.
\<close>

definition TruncateItem :: "TYsonItem \<Rightarrow> int \<Rightarrow> int \<Rightarrow> (byte list \<times> int \<times> int) option" where
  "TruncateItem item available unclosedListCount =
     (case GetType item of
        BeginList \<Rightarrow> Some (write_token TBeginList, 0, unclosedListCount + 1)
      | EndList \<Rightarrow> Some (write_token TEndList, 0, unclosedListCount - 1)
      | EntityValue \<Rightarrow> Some (WriteEntity, 0, unclosedListCount)
      | Int64Value \<Rightarrow> Some (WriteBinaryInt64 (UncheckedAsInt64 item), 0, unclosedListCount)
      | Uint64Value \<Rightarrow> Some (WriteBinaryUint64 (UncheckedAsUint64 item), 0, unclosedListCount)
      | DoubleValue \<Rightarrow> Some (WriteBinaryDouble (UncheckedAsDouble item), 0, unclosedListCount)
      | BooleanValue \<Rightarrow> Some (WriteBinaryBoolean (UncheckedAsBoolean item), 0, unclosedListCount)
      | StringValue \<Rightarrow>
          (let truncatedString = take (nat available) (UncheckedAsString item) in
           Some (WriteBinaryString truncatedString, int (length truncatedString), unclosedListCount))
      | BeginAttributes \<Rightarrow> None
      | EndAttributes \<Rightarrow> None
      | BeginMap \<Rightarrow> None
      | EndMap \<Rightarrow> None
      | EndOfStream \<Rightarrow> None)"

function Truncate_loop ::
  "text_lib \<Rightarrow> TYsonPullParser \<Rightarrow> int \<Rightarrow> int \<Rightarrow> bool \<Rightarrow> byte list \<Rightarrow> (int \<times> bool \<times> byte list) res" where
  "Truncate_loop L valueParser remainingBytes unclosedListCount emptyResult truncatedYson =
     rbind (Next L valueParser) (\<lambda>(item, valueParser).
       rbind (GetMinResultingSize item (0 < unclosedListCount)) (\<lambda>resultingItemSize.
         if remainingBytes < resultingItemSize
         then Inr (unclosedListCount, emptyResult, truncatedYson)
         else (case TruncateItem item (remainingBytes - resultingItemSize) unclosedListCount of
             None \<Rightarrow> Inr (unclosedListCount, emptyResult, truncatedYson)
           | Some (written, extra, unclosedListCount) \<Rightarrow>
               Truncate_loop L valueParser (remainingBytes - (resultingItemSize + extra))
                 unclosedListCount False
                 (truncatedYson @ written @
                   (if unclosedListCount \<noteq> 0 \<and> GetType item \<noteq> BeginList
                    then write_token TSeparator else [])))))"
  by pat_completeness auto
termination
  by (relation "measure (\<lambda>(L, p, _). length (unread p))")
    (auto intro!: Next_progress simp: TruncateItem_def)

declare Truncate_loop.simps [simp del]

fun CloseLists :: "nat \<Rightarrow> byte list" where
  "CloseLists 0 = []"
| "CloseLists (Suc unclosedListCount) =
     write_token TEndList @
     (if unclosedListCount \<noteq> 0 then write_token TSeparator else []) @ CloseLists unclosedListCount"

definition TruncateYsonValue :: "text_lib \<Rightarrow> byte list \<Rightarrow> int \<Rightarrow> byte list option res" where
  "TruncateYsonValue L originalYson maxSize =
     rbind (verify (0 \<le> maxSize) ''size >= 0'') (\<lambda>_.
       if maxSize = 0 then Inr None
       else rbind (Truncate_loop L (memory_parser originalYson) maxSize 0 True [])
         (\<lambda>(unclosedListCount, emptyResult, truncatedYson).
           rbind (verify (0 \<le> unclosedListCount) ''unclosedListCount >= 0'') (\<lambda>_.
             let truncatedYson = truncatedYson @ CloseLists (nat unclosedListCount) in
             if emptyResult then Inr None else Inr (Some truncatedYson))))"

section \<open>Truncation of item sequences\<close>

text \<open>The same on the items of the value; \<open>d\<close> is the number of lists to be closed.\<close>

definition item_reserve :: "TYsonItem \<Rightarrow> nat \<Rightarrow> int" where
  "item_reserve x d =
     (if x = Item_Simple EndList then 0
      else GetBinarySize x - int (length (UncheckedAsString x)) +
        (if x = Item_Simple BeginList then 1 else 0) + (if 0 < d then 1 else 0))"

fun depth_after :: "TYsonItem \<Rightarrow> nat \<Rightarrow> nat" where
  "depth_after (Item_Simple type) d =
     (if type = BeginList then Suc d else if type = EndList then d - 1 else d)"
| "depth_after _ d = d"

fun cut_item :: "TYsonItem \<Rightarrow> int \<Rightarrow> TYsonItem" where
  "cut_item (Item_String s) available = Item_String (take (nat available) s)"
| "cut_item x available = x"

fun truncate_items :: "int \<Rightarrow> nat \<Rightarrow> TYsonItem list \<Rightarrow> TYsonItem list" where
  "truncate_items rem d [] = replicate d (Item_Simple EndList)"
| "truncate_items rem d (x # xs) =
     (if rem < item_reserve x d \<or> \<not> comparable_item x then replicate d (Item_Simple EndList)
      else let y = cut_item x (rem - item_reserve x d) in
        y # truncate_items (rem - item_reserve x d - int (length (UncheckedAsString y)))
              (depth_after x d) xs)"

fun item_token :: "TYsonItem \<Rightarrow> yson_token" where
  "item_token (Item_Simple type) =
     (if type = BeginList then TBeginList else if type = EndList then TEndList else TScalar Entity)"
| "item_token (Item_Int64 v) = TScalar (I64 v)"
| "item_token (Item_Uint64 v) = TScalar (U64 v)"
| "item_token (Item_Double v) = TScalar (Dbl v)"
| "item_token (Item_Boolean v) = TScalar (Bool v)"
| "item_token (Item_String v) = TScalar (Str v)"

fun list_tokens :: "nat \<Rightarrow> TYsonItem list \<Rightarrow> yson_token list" where
  "list_tokens d [] = []"
| "list_tokens d (x # xs) =
     item_token x # (if depth_after x d \<noteq> 0 \<and> x \<noteq> Item_Simple BeginList then [TSeparator] else []) @
     list_tokens (depth_after x d) xs"

section \<open>The loop truncates the items\<close>

definition parsed_item :: "TYsonItem \<Rightarrow> bool" where
  "parsed_item x \<longleftrightarrow> (\<exists>t. token_item t = Some x)"

lemma items_of_parsed: "x \<in> set (items_of ts) \<Longrightarrow> parsed_item x"
  by (induction ts) (auto simp: parsed_item_def split: option.splits)

lemma parsed_item_Simple:
  "parsed_item (Item_Simple type) \<longleftrightarrow> type \<in> {BeginList, EndList, BeginMap, EndMap,
     BeginAttributes, EndAttributes, EntityValue}"
proof
  assume "parsed_item (Item_Simple type)"
  then obtain t where "token_item t = Some (Item_Simple type)" by (auto simp: parsed_item_def)
  then show "type \<in> {BeginList, EndList, BeginMap, EndMap, BeginAttributes, EndAttributes, EntityValue}"
    by (cases t rule: token_item.cases) auto
next
  assume "type \<in> {BeginList, EndList, BeginMap, EndMap, BeginAttributes, EndAttributes, EntityValue}"
  moreover have "token_item (TScalar Entity) = Some (Item_Simple EntityValue)" by simp
  ultimately show "parsed_item (Item_Simple type)"
    unfolding parsed_item_def by (metis insertE empty_iff token_item.simps(1-7))
qed

lemma GetMinResultingSize_eq:
  "parsed_item x \<Longrightarrow> GetMinResultingSize x (0 < d) = Inr (item_reserve x d)"
  by (cases x) (auto simp: GetMinResultingSize_def item_reserve_def Let_def parsed_item_Simple)

lemma TruncateItem_eq:
  assumes "parsed_item x" "x = Item_Simple EndList \<longrightarrow> 0 < d"
  shows "TruncateItem x available (int d) =
    (if comparable_item x
     then let y = cut_item x available
          in Some (write_token (item_token y), int (length (UncheckedAsString y)), int (depth_after x d))
     else None)"
  using assms by (cases x) (auto simp: TruncateItem_def Let_def parsed_item_Simple WriteEntity_def)

lemma write_tokens_simps [simp]:
  "write_tokens [] = []" "write_tokens (t # ts) = write_token t @ write_tokens ts"
  "write_tokens (ts @ us) = write_tokens ts @ write_tokens us"
  by (simp_all add: write_tokens_def)

lemma CloseLists_tokens: "CloseLists d = write_tokens (list_tokens d (replicate d (Item_Simple EndList)))"
  by (induction d) simp_all

lemma cut_item_simps [simp]:
  "cut_item x n = Item_Simple type \<longleftrightarrow> x = Item_Simple type"
  "depth_after (cut_item x n) d = depth_after x d"
  "comparable_item (cut_item x n) = comparable_item x"
  "GetType (cut_item x n) = GetType x"
  by (cases x; simp)+

definition taken :: "int \<Rightarrow> nat \<Rightarrow> TYsonItem list \<Rightarrow> bool" where
  "taken rem d xs \<longleftrightarrow> xs \<noteq> [] \<and> item_reserve (hd xs) d \<le> rem \<and> comparable_item (hd xs)"

definition closes_rest :: "nat \<Rightarrow> nat \<Rightarrow> TYsonItem list \<Rightarrow> bool" where
  "closes_rest l d xs \<longleftrightarrow> (if d = 0 then xs = [] else closes l d xs)"

lemma closes_Cons:
  assumes "comparable_item x"
  shows "closes l d (x # xs) \<longleftrightarrow> (x = Item_Simple EndList \<longrightarrow> 0 < d) \<and>
    (x = Item_Simple BeginList \<longrightarrow> Suc d < l) \<and> closes_rest l (depth_after x d) xs"
  using assms by (cases x) (auto simp: closes_rest_def)

lemma closes_Cons_cut:
  "comparable_item x \<Longrightarrow> closes l d (cut_item x n # xs) \<longleftrightarrow> closes l d (x # xs)"
  using closes_Cons [of x l d xs] closes_Cons [of "cut_item x n" l d xs] by (simp del: closes.simps)

lemma Truncate_loop_items:
  assumes "read_items L (SyntaxChecker p) (Lexer p) = Inr xs" "closes l d xs \<or> closes_rest l d xs"
    and "\<forall>x\<in>set xs. parsed_item x"
  shows "\<exists>u out'. Truncate_loop L p rem (int d) e out =
      Inr (int u, e \<and> \<not> taken rem d xs, out') \<and>
    out' @ CloseLists u = out @ write_tokens (list_tokens d (truncate_items rem d xs))"
  using assms
proof (induction xs arbitrary: p d rem e out)
  case Nil
  obtain p' where "Next L p = Inr (Item_Simple EndOfStream, p')"
    using read_items_Next [OF Nil.prems(1)] by (auto simp: first_item_def)
  then have "Truncate_loop L p rem (int d) e out = Inr (int d, e, out)"
    by (subst Truncate_loop.simps) (simp add: GetMinResultingSize_def TruncateItem_def)
  then show ?case
    by (intro exI [of _ d] exI [of _ out] conjI) (simp_all add: taken_def CloseLists_tokens [of d])
next
  case (Cons x xs)
  obtain p' where n: "Next L p = Inr (x, p')" "read_items L (SyntaxChecker p') (Lexer p') = Inr xs"
  proof -
    obtain item p' where "Next L p = Inr (item, p')" "item = x"
      "item \<noteq> Item_Simple EndOfStream \<Longrightarrow> read_items L (SyntaxChecker p') (Lexer p') = Inr xs"
      using read_items_Next [OF Cons.prems(1)] by (metis first_item_def list.case(2) list.sel(3))
    moreover from Cons.prems(3) have "x \<noteq> Item_Simple EndOfStream" by (auto simp: parsed_item_Simple)
    ultimately show ?thesis using that by blast
  qed
  have pi: "parsed_item x" using Cons.prems(3) by simp
  from Cons.prems(2) have cl: "closes l d (x # xs)" by (auto simp: closes_rest_def split: if_splits)
  let ?a = "rem - item_reserve x d"
  let ?y = "cut_item x ?a"
  have none: "\<not> comparable_item x \<Longrightarrow> TruncateItem x n (int d) = None" for n
    using pi by (cases x) (auto simp: TruncateItem_def parsed_item_Simple)
  show ?case
  proof (cases "item_reserve x d \<le> rem \<and> comparable_item x")
    case False
    then have "Truncate_loop L p rem (int d) e out = Inr (int d, e, out)"
      by (subst Truncate_loop.simps) (auto simp: n GetMinResultingSize_eq [OF pi] none)
    with False show ?thesis
      by (intro exI [of _ d] exI [of _ out]) (auto simp: taken_def CloseLists_tokens)
  next
    case True
    have loop: "Truncate_loop L p rem (int d) e out =
      Truncate_loop L p' (?a - int (length (UncheckedAsString ?y))) (int (depth_after x d)) False
       (out @ write_token (item_token ?y) @
         (if depth_after x d \<noteq> 0 \<and> GetType x \<noteq> BeginList then write_token TSeparator else []))"
      using True closes_Cons cl
      by (subst Truncate_loop.simps)
        (simp add: n GetMinResultingSize_eq [OF pi] TruncateItem_eq [OF pi] Let_def algebra_simps)
    have ty: "GetType x \<noteq> BeginList \<longleftrightarrow> x \<noteq> Item_Simple BeginList" by (cases x) auto
    have "closes_rest l (depth_after x d) xs" using closes_Cons [of x l d xs] cl True by blast
    with Cons.prems(3) Cons.IH [OF n(2), of "depth_after x d"
      "?a - int (length (UncheckedAsString ?y))" False]
    obtain u out' where "Truncate_loop L p rem (int d) e out = Inr (int u, False, out')"
      "out' @ CloseLists u = (out @ write_token (item_token ?y) @
         (if depth_after x d \<noteq> 0 \<and> x \<noteq> Item_Simple BeginList then write_token TSeparator else [])) @
       write_tokens (list_tokens (depth_after x d) (truncate_items
         (?a - int (length (UncheckedAsString ?y))) (depth_after x d) xs))"
      unfolding loop ty by force
    with True show ?thesis
      by (intro exI [of _ u] exI [of _ out']) (simp add: taken_def Let_def)
  qed
qed

section \<open>The truncated items form a value again\<close>

lemma replicate_EndList_closes: "0 < d \<Longrightarrow> closes l d (replicate d (Item_Simple EndList))"
  by (induction d) (auto simp: gr0_conv_Suc)

lemma truncate_items_comparable: "x \<in> set (truncate_items rem d xs) \<Longrightarrow> comparable_item x"
  by (induction rem d xs rule: truncate_items.induct) (auto simp: Let_def split: if_splits)

lemma truncate_items_closes:
  assumes "closes l d xs" "0 < d \<or> taken rem d xs"
  shows "closes l d (truncate_items rem d xs)"
  using assms
proof (induction rem d xs rule: truncate_items.induct)
  case (2 rem d x xs)
  show ?case
  proof (cases "rem < item_reserve x d \<or> \<not> comparable_item x")
    case True
    with 2 show ?thesis by (auto simp: taken_def replicate_EndList_closes)
  next
    case False
    let ?a = "rem - item_reserve x d" and ?d = "depth_after x d"
    let ?ys = "truncate_items (?a - int (length (UncheckedAsString (cut_item x ?a)))) ?d xs"
    have "closes_rest l ?d ?ys"
      using closes_Cons [of x l d xs] False "2.prems" "2.IH" [OF False refl]
      by (auto simp: closes_rest_def simp del: closes.simps)
    with closes_Cons [of x l d] False "2.prems"(1) have "closes l d (x # ?ys)" by blast
    with closes_Cons_cut [of x] False show ?thesis by (simp add: Let_def del: closes.simps)
  qed
qed simp

lemma list_tokens_finishes:
  assumes "closes (unat m) d xs" "d < unat m" "\<forall>x\<in>set xs. comparable_item x"
  shows "finishes (chk (list_stack d) d m) (list_tokens d xs)"
  using assms
proof (induction xs arbitrary: d)
  case (Cons x xs)
  have fin: "finishes (chk (list_stack_sep 0) 0 m) []"
    by (simp add: finishes_simps list_stack_sep_def operation_defs)
  consider "x = Item_Simple BeginList" | "x = Item_Simple EndList"
    | s where "item_token x = TScalar s" "depth_after x d = d" "x \<noteq> Item_Simple BeginList"
        "x \<noteq> Item_Simple EndList"
    using Cons.prems(3) by (cases x) auto
  then show ?case
  proof cases
    case 1
    with Cons.prems Cons.IH [of "Suc d"] show ?thesis
      by (auto simp: finishes_simps list_stack_token simp del: on_token.simps)
  next
    case 2
    with Cons.prems Cons.IH [of "d - 1"] fin show ?thesis
      by (cases "d = 1") (auto simp: finishes_simps list_stack_token simp del: on_token.simps)
  next
    case 3
    with Cons.prems Cons.IH [of d] fin show ?thesis
      by (cases "d = 0") (auto simp: finishes_simps list_stack_token simp del: on_token.simps)
  qed
qed simp

lemma items_of_list_tokens: "\<forall>x\<in>set xs. comparable_item x \<Longrightarrow> items_of (list_tokens d xs) = xs"
proof (induction xs arbitrary: d)
  case (Cons x xs)
  then show ?case by (cases x) auto
qed simp

section \<open>The truncated value fits\<close>

lemma length_varint_mono: "m \<le> n \<Longrightarrow> length (varint m) \<le> length (varint n)"
proof (induction n arbitrary: m rule: less_induct)
  case (less n)
  show ?case
  proof (cases "m < 128")
    case True
    then show ?thesis by (subst varint.simps) (simp add: Suc_le_eq)
  next
    case False
    with less.prems have "length (varint (m div 128)) \<le> length (varint (n div 128))"
      by (intro less.IH div_le_mono) auto
    with False less.prems show ?thesis by (subst (1 2) varint.simps) simp
  qed
qed

lemma unat_ucast_u32: "unat (ucast (w::u32) :: u64) = unat w"
  using unat_u32_less [of w] by (simp add: unsigned_ucast_eq take_bit_eq_mod)

lemma unat_ZigZagEncode32_of_nat:
  assumes "k < 2 ^ 31"
  shows "unat (ZigZagEncode32 (of_nat k)) = 2 * k"
proof -
  have "uint (ZigZagEncode32 (of_nat k)) = 2 * int k"
    unfolding ZigZagEncode32_def
    by (subst uint_zigzag [where k = 31]) (simp_all add: sint_of_nat_u32 [OF assms])
  then show ?thesis by (simp add: unat_eq_nat_uint)
qed

lemma length_WriteVarInt32_mono:
  assumes "m \<le> n" "n < 2 ^ 31"
  shows "length (WriteVarInt32 (of_nat m)) \<le> length (WriteVarInt32 (of_nat n))"
proof -
  from assms have "m < 2 ^ 31" by simp
  with assms show ?thesis
    by (simp only: WriteVarInt32_def WriteVarUint32_def WriteVarUint64_eq_varint unat_ucast_u32
        unat_ZigZagEncode32_of_nat) (simp add: length_varint_mono)
qed

definition closing_size :: "nat \<Rightarrow> int" where
  "closing_size d = (if d = 0 then 0 else 2 * int d - 1)"

definition item_bytes :: "TYsonItem \<Rightarrow> nat \<Rightarrow> int" where
  "item_bytes x d = int (length (write_token (item_token x))) +
     (if depth_after x d \<noteq> 0 \<and> x \<noteq> Item_Simple BeginList then 1 else 0)"

lemma item_bytes_eq:
  assumes "comparable_item x" "x = Item_Simple EndList \<longrightarrow> 0 < d"
  shows "item_bytes x d = item_reserve x d + int (length (UncheckedAsString x)) +
    closing_size d - closing_size (depth_after x d)"
  using assms
  by (cases x) (auto simp: item_bytes_def item_reserve_def closing_size_def WriteEntity_def
      WriteBinaryBoolean_def WriteBinaryInt64_def WriteBinaryUint64_def WriteBinaryDouble_def
      WriteBinaryString_def)

lemma length_list_tokens:
  "int (length (write_tokens (list_tokens d (x # xs)))) =
   item_bytes x d + int (length (write_tokens (list_tokens (depth_after x d) xs)))"
  by (simp add: item_bytes_def)

definition short_item :: "TYsonItem \<Rightarrow> bool" where
  "short_item x \<longleftrightarrow> length (UncheckedAsString x) < 2 ^ 31"

lemma item_reserve_cut: "short_item x \<Longrightarrow> item_reserve (cut_item x n) d \<le> item_reserve x d"
  by (cases x) (auto simp: item_reserve_def short_item_def intro!: length_WriteVarInt32_mono)

lemma length_closing: "int (length (CloseLists d)) = closing_size d"
  by (induction d) (auto simp: closing_size_def)

lemma truncate_items_fits:
  assumes "closes l d xs \<or> closes_rest l d xs" "\<forall>x\<in>set xs. short_item x" "0 \<le> rem"
  shows "int (length (write_tokens (list_tokens d (truncate_items rem d xs)))) \<le> rem + closing_size d"
  using assms
proof (induction rem d xs rule: truncate_items.induct)
  case (1 rem d)
  then show ?case by (simp add: CloseLists_tokens [symmetric] length_closing)
next
  case (2 rem d x xs)
  from "2.prems"(1) have cl: "closes l d (x # xs)" by (auto simp: closes_rest_def split: if_splits)
  show ?case
  proof (cases "rem < item_reserve x d \<or> \<not> comparable_item x")
    case True
    with "2.prems"(3) show ?thesis
      by (auto simp: CloseLists_tokens [symmetric] length_closing)
  next
    case False
    let ?a = "rem - item_reserve x d" and ?d = "depth_after x d"
    let ?y = "cut_item x ?a"
    let ?r = "?a - int (length (UncheckedAsString ?y))"
    have "int (length (UncheckedAsString ?y)) \<le> ?a" using False by (cases x) auto
    with 2 False cl closes_Cons [of x l d xs]
    have IH: "int (length (write_tokens (list_tokens ?d (truncate_items ?r ?d xs)))) \<le> ?r + closing_size ?d"
      by (auto simp del: closes.simps)
    have "item_bytes ?y d = item_reserve ?y d + int (length (UncheckedAsString ?y)) +
      closing_size d - closing_size ?d"
      using item_bytes_eq [of ?y d] False cl closes_Cons [of x l d xs] by (simp del: closes.simps)
    with IH item_reserve_cut [of x ?a d] "2.prems"(2)
    have "int (length (write_tokens (list_tokens d (?y # truncate_items ?r ?d xs)))) \<le> rem + closing_size d"
      unfolding length_list_tokens by simp
    with False show ?thesis by (simp add: Let_def)
  qed
qed

section \<open>The truncated value is not greater and is kept when it fits\<close>

lemma item_rank_EndList: "comparable_item x \<Longrightarrow> x \<noteq> Item_Simple EndList \<Longrightarrow> [1] < item_rank x"
  by (cases x) auto

lemma take_le: "take n xs \<le> (xs :: 'a::linorder list)"
  by (induction xs arbitrary: n) (auto simp: take_Cons split: nat.splits)

lemma item_rank_cut: "item_rank (cut_item x n) \<le> item_rank x"
  using take_le [of "nat n"] by (cases x) (simp_all add: take_map [symmetric])

lemma truncate_items_le:
  assumes "closes l d xs \<or> closes_rest l d xs" "\<forall>x\<in>set xs. comparable_item x" "0 \<le> rem"
  shows "map item_rank (truncate_items rem d xs) \<le> map item_rank xs"
  using assms
proof (induction rem d xs rule: truncate_items.induct)
  case (1 rem d)
  then show ?case by (auto simp: closes_rest_def split: if_splits)
next
  case (2 rem d x xs)
  from "2.prems"(1) have cl: "closes l d (x # xs)" by (auto simp: closes_rest_def split: if_splits)
  show ?case
  proof (cases "rem < item_reserve x d")
    case True
    with "2.prems"(3) have "x \<noteq> Item_Simple EndList" by (auto simp: item_reserve_def)
    with True "2.prems"(2) item_rank_EndList [of x] show ?thesis by (cases d) auto
  next
    case False
    let ?a = "rem - item_reserve x d" and ?d = "depth_after x d"
    let ?y = "cut_item x ?a"
    have "int (length (UncheckedAsString ?y)) \<le> ?a" using False by (cases x) auto
    moreover have "closes_rest l ?d xs" using closes_Cons [of x l d xs] cl "2.prems"(2) by simp
    ultimately have "map item_rank (truncate_items (?a - int (length (UncheckedAsString ?y))) ?d xs)
      \<le> map item_rank xs"
      using "2.IH" [OF _ refl] "2.prems"(2) False by simp
    with item_rank_cut [of x ?a] False "2.prems"(2) show ?thesis
      by (auto simp: Let_def order_le_less)
  qed
qed

lemma closing_size_le_length:
  assumes "closes_rest l d xs" "\<forall>x\<in>set xs. comparable_item x"
  shows "closing_size d \<le> int (length (write_tokens (list_tokens d xs)))"
  using assms
proof (induction xs arbitrary: d)
  case Nil
  then show ?case by (auto simp: closes_rest_def closing_size_def split: if_splits)
next
  case (Cons x xs)
  then have cl: "closes l d (x # xs)" by (auto simp: closes_rest_def split: if_splits)
  then have "closing_size (depth_after x d) \<le> int (length (write_tokens (list_tokens (depth_after x d) xs)))"
    using closes_Cons [of x l d xs] Cons by simp
  moreover have "0 \<le> item_reserve x d"
    by (cases x) (auto simp: item_reserve_def split: EYsonItemType.splits)
  moreover have "item_bytes x d = item_reserve x d + int (length (UncheckedAsString x)) +
    closing_size d - closing_size (depth_after x d)"
    using item_bytes_eq [of x d] Cons.prems(2) cl closes_Cons [of x l d xs] by (simp del: closes.simps)
  ultimately show ?case unfolding length_list_tokens by linarith
qed

lemma truncate_items_keeps:
  assumes "closes l d xs \<or> closes_rest l d xs" "\<forall>x\<in>set xs. comparable_item x"
    and "int (length (write_tokens (list_tokens d xs))) \<le> rem + closing_size d"
  shows "truncate_items rem d xs = xs"
  using assms
proof (induction xs arbitrary: d rem)
  case Nil
  then show ?case by (auto simp: closes_rest_def split: if_splits)
next
  case (Cons x xs)
  let ?d = "depth_after x d" and ?n = "int (length (UncheckedAsString x))"
  from Cons.prems(1) have cl: "closes l d (x # xs)" by (auto simp: closes_rest_def split: if_splits)
  then have rest: "closes_rest l ?d xs" using closes_Cons [of x l d xs] Cons.prems(2) by simp
  have "item_bytes x d = item_reserve x d + ?n + closing_size d - closing_size ?d"
    using item_bytes_eq [of x d] Cons.prems(2) cl closes_Cons [of x l d xs] by (simp del: closes.simps)
  with Cons.prems(3) have len: "int (length (write_tokens (list_tokens ?d xs))) \<le>
    rem - item_reserve x d - ?n + closing_size ?d" unfolding length_list_tokens by simp
  with closing_size_le_length [OF rest] Cons.prems(2)
  have fits: "item_reserve x d + ?n \<le> rem" by simp
  have cut: "cut_item x (rem - item_reserve x d) = x" using fits by (cases x) auto
  have "truncate_items (rem - item_reserve x d - ?n) ?d xs = xs"
    using Cons.IH [of ?d] rest len Cons.prems(2) by simp
  with cut fits Cons.prems(2) show ?case by (simp add: Let_def)
qed

section \<open>Correctness of truncation\<close>

lemma read_list_tokens:
  assumes "closes 256 0 ys" "\<forall>y\<in>set ys. comparable_item y \<and> short_item y"
  shows "yson_items L (write_tokens (list_tokens 0 ys)) = Inr ys"
proof -
  have "finishes (chk (list_stack 0) 0 256) (list_tokens 0 ys)"
    using list_tokens_finishes [of 256 0 ys] assms by simp
  moreover have "\<forall>t\<in>set (list_tokens d ys). valid_token t" for d
    using assms(2)
  proof (induction ys arbitrary: d)
    case (Cons y ys)
    then show ?case by (cases y) (auto simp: short_item_def)
  qed simp
  moreover have "write_tokens (list_tokens 0 ys) \<noteq> []"
    using assms(1) by (cases ys; cases "hd ys") (auto simp: WriteEntity_def WriteBinaryBoolean_def
        WriteBinaryInt64_def WriteBinaryUint64_def WriteBinaryDouble_def WriteBinaryString_def)
  ultimately show ?thesis
    using read_items_write [where rest = "[]", of "chk (list_stack 0) 0 256" "list_tokens 0 ys"]
      items_of_list_tokens [of ys 0] assms(2)
    by (simp add: yson_items_def parse_yson_def mk_TYsonPullParser_def mk_checker_chk
        DefaultYsonParserNestingLevelLimit_def list_stack_def remaining_mk_TBlockStream)
qed

lemma truncate_items_short:
  "\<forall>x\<in>set xs. short_item x \<Longrightarrow> y \<in> set (truncate_items rem d xs) \<Longrightarrow> short_item y"
proof (induction rem d xs rule: truncate_items.induct)
  case (1 rem d)
  then show ?case by (simp add: short_item_def)
next
  case (2 rem d x xs)
  have "short_item (cut_item x n)" for n using "2.prems"(1) by (cases x) (auto simp: short_item_def)
  with 2 show ?case by (auto simp: Let_def short_item_def split: if_splits)
qed

lemma TruncateYsonValue_items:
  assumes "yson_items L yson = Inr items" "0 \<le> maxSize"
  shows "TruncateYsonValue L yson maxSize =
    Inr (if taken maxSize 0 items
         then Some (write_tokens (list_tokens 0 (truncate_items maxSize 0 items))) else None)"
proof (cases "maxSize = 0")
  case True
  have "\<not> taken 0 0 items"
    using yson_items_closes [OF assms(1)]
    by (cases items; cases "hd items")
      (auto simp: taken_def item_reserve_def split: EYsonItemType.splits if_splits)
  with True show ?thesis by (simp add: TruncateYsonValue_def)
next
  case False
  let ?p = "memory_parser yson"
  have r: "read_items L (SyntaxChecker ?p) (Lexer ?p) = Inr items"
    using assms(1) by (simp add: yson_items_def parse_yson_def memory_parser_def Let_def)
  with read_items_checked have "\<forall>x\<in>set items. parsed_item x" using items_of_parsed by blast
  from Truncate_loop_items [OF r disjI1 [OF yson_items_closes [OF assms(1)]] this, of maxSize True "[]"]
  obtain u out' where "Truncate_loop L ?p maxSize 0 True [] = Inr (int u, \<not> taken maxSize 0 items, out')"
    "out' @ CloseLists u = write_tokens (list_tokens 0 (truncate_items maxSize 0 items))" by auto
  with False assms(2) show ?thesis by (simp add: TruncateYsonValue_def Let_def)
qed

text \<open>C7. Truncating a composite value that parses, whose strings are shorter than 2 GiB, always
  succeeds. It yields nothing exactly when the first item does not fit or is a map or an
  attribute; otherwise the result fits into the limit, is itself a comparable value and, if
  the original is comparable, does not compare greater than it; an original whose binary
  form fits already is left equal.\<close>

theorem truncate_yson_fits_and_bounds:
  assumes "yson_items L yson = Inr items" "list_all short_item items" "0 \<le> maxSize"
  shows "(TruncateYsonValue L yson maxSize = Inr None \<and> \<not> taken maxSize 0 items) \<or>
    (\<exists>out. TruncateYsonValue L yson maxSize = Inr (Some out) \<and> taken maxSize 0 items \<and>
      int (length out) \<le> maxSize \<and> comparable_yson L out \<and>
      (comparable_yson L yson \<longrightarrow> (\<exists>r\<le>0. CompareYsonValues L out yson = Inr r) \<and>
        (int (length (write_tokens (list_tokens 0 items))) \<le> maxSize \<longrightarrow>
           CompareYsonValues L out yson = Inr 0)))"
proof (cases "taken maxSize 0 items")
  case False
  with TruncateYsonValue_items [OF assms(1,3)] show ?thesis by simp
next
  case True
  let ?ys = "truncate_items maxSize 0 items"
  let ?out = "write_tokens (list_tokens 0 ?ys)"
  note cl = yson_items_closes [OF assms(1)]
  from assms(2) have short: "\<forall>x\<in>set items. short_item x" by (simp add: list_all_iff)
  have out: "TruncateYsonValue L yson maxSize = Inr (Some ?out)"
    using TruncateYsonValue_items [OF assms(1,3)] True by simp
  have ys: "yson_items L ?out = Inr ?ys"
    using truncate_items_closes [OF cl] True truncate_items_comparable truncate_items_short [OF short]
    by (intro read_list_tokens) auto
  then have comp: "comparable_yson L ?out"
    by (auto simp: comparable_yson_def list_all_iff dest: truncate_items_comparable)
  have fits: "int (length ?out) \<le> maxSize"
    using truncate_items_fits [OF disjI1 [OF cl] short assms(3)] by (simp add: closing_size_def)
  have le: "(\<exists>r\<le>0. CompareYsonValues L ?out yson = Inr r) \<and>
      (int (length (write_tokens (list_tokens 0 items))) \<le> maxSize \<longrightarrow>
        CompareYsonValues L ?out yson = Inr 0)" if c: "comparable_yson L yson"
  proof -
    from c assms(1) have all: "\<forall>x\<in>set items. comparable_item x"
      by (simp add: comparable_yson_def list_all_iff)
    have "CompareYsonValues L ?out yson = Inr (TernaryCompare (map item_rank ?ys) (map item_rank items))"
      using CompareYsonValues_rank [OF comp c] ys assms(1) by (simp add: yson_rank_def)
    with truncate_items_le [OF disjI1 [OF cl] all assms(3)]
      truncate_items_keeps [OF disjI1 [OF cl] all, of maxSize]
    show ?thesis by (auto simp: closing_size_def)
  qed
  from True out fits comp le show ?thesis by blast
qed

theorem truncate_yson_fits_and_bounds_witness:
  "TruncateYsonValue sample_lib [0x5B, 0x01, 0x04, 0x61, 0x62, 0x3B, 0x02, 0x0A, 0x5D] 6 =
     Inr (Some [0x5B, 0x01, 0x02, 0x61, 0x3B, 0x5D]) \<and>
   (\<exists>r\<le>0. CompareYsonValues sample_lib [0x5B, 0x01, 0x02, 0x61, 0x3B, 0x5D]
      [0x5B, 0x01, 0x04, 0x61, 0x62, 0x3B, 0x02, 0x0A, 0x5D] = Inr r)"
proof -
  let ?yson = "[0x5B, 0x01, 0x04, 0x61, 0x62, 0x3B, 0x02, 0x0A, 0x5D]"
  have items: "yson_items sample_lib ?yson =
    Inr [Item_Simple BeginList, Item_String [0x61, 0x62], Item_Int64 5, Item_Simple EndList]"
    by code_simp
  then have "comparable_yson sample_lib ?yson" by (simp add: comparable_yson_def)
  moreover have "TruncateYsonValue sample_lib ?yson 6 = Inr (Some [0x5B, 0x01, 0x02, 0x61, 0x3B, 0x5D])"
    by code_simp
  ultimately show ?thesis
    using truncate_yson_fits_and_bounds [OF items, of 6] by (auto simp: short_item_def)
qed

end
