(* ===== verification/FarmHash.thy ===== *)
theory FarmHash
  imports Prelude
begin

unbundle bit_operations_syntax

text \<open>
  The fingerprint functions behind the hashes of table values: \<open>farmhashna.cc\<close> and the
  inline fingerprints of \<open>farmhash.h\<close> under \<open>contrib/libs/farmhash\<close>, and their wrappers in
  \<open>library/cpp/yt/farmhash/farm_hash.h\<close>.

  A buffer is a list of bytes; a fetch that touches a byte behind its end is the error
  \<open>Undefined\<close>. Arithmetic is that of 64-bit words. The hash of a buffer is shown to stay
  inside the buffer for every length; the fingerprint of an integer is shown to be
  injective, and that of a pair to be injective in its first component.
\<close>

section \<open>Fetching and mixing\<close>

abbreviation "k0 \<equiv> 0xc3a5c85c97cb3127 :: u64"
abbreviation "k1 \<equiv> 0xb492b66fbe98f273 :: u64"
abbreviation "k2 \<equiv> 0x9ae16a3b2f90404f :: u64"
abbreviation "kMul \<equiv> 0x9ddfea08eb382d69 :: u64"

fun little_endian :: "byte list \<Rightarrow> u64" where
  "little_endian [] = 0"
| "little_endian (b # bs) = ucast b OR push_bit 8 (little_endian bs)"

definition fetch :: "nat \<Rightarrow> byte list \<Rightarrow> nat \<Rightarrow> u64 res" where
  "fetch n s p =
     (if p + n \<le> length s then Inr (little_endian (take n (drop p s)))
      else Inl (Undefined ''read behind the buffer''))"

definition Fetch64 :: "byte list \<Rightarrow> nat \<Rightarrow> u64 res" where
  "Fetch64 s p = fetch 8 s p"

definition Fetch32 :: "byte list \<Rightarrow> nat \<Rightarrow> u64 res" where
  "Fetch32 s p = fetch 4 s p"

definition Rotate64 :: "u64 \<Rightarrow> nat \<Rightarrow> u64" where
  "Rotate64 val shift = (if shift = 0 then val else drop_bit shift val OR push_bit (64 - shift) val)"

definition ShiftMix :: "u64 \<Rightarrow> u64" where
  "ShiftMix val = val XOR drop_bit 47 val"

definition HashLen16_mul :: "u64 \<Rightarrow> u64 \<Rightarrow> u64 \<Rightarrow> u64" where
  "HashLen16_mul u v mul =
     (let a = (u XOR v) * mul;
          a = a XOR drop_bit 47 a;
          b = (v XOR a) * mul;
          b = b XOR drop_bit 47 b
      in b * mul)"

definition Hash128to64 :: "u64 \<Rightarrow> u64 \<Rightarrow> u64" where
  "Hash128to64 lo hi =
     (let a = (lo XOR hi) * kMul;
          a = a XOR drop_bit 47 a;
          b = (hi XOR a) * kMul;
          b = b XOR drop_bit 47 b
      in b * kMul)"

section \<open>Hashing a buffer\<close>

definition HashLen0to16 :: "byte list \<Rightarrow> u64 res" where
  "HashLen0to16 s =
     (let len = length s; mul = k2 + of_nat len * 2 in
      if 8 \<le> len then
        rbind (Fetch64 s 0) (\<lambda>f.
        rbind (Fetch64 s (len - 8)) (\<lambda>b.
          let a = f + k2;
              c = Rotate64 b 37 * mul + a;
              d = (Rotate64 a 25 + b) * mul
          in Inr (HashLen16_mul c d mul)))
      else if 4 \<le> len then
        rbind (Fetch32 s 0) (\<lambda>a.
        rbind (Fetch32 s (len - 4)) (\<lambda>b.
          Inr (HashLen16_mul (of_nat len + push_bit 3 a) b mul)))
      else if 0 < len then
        rbind (fetch 1 s 0) (\<lambda>a.
        rbind (fetch 1 s (len div 2)) (\<lambda>b.
        rbind (fetch 1 s (len - 1)) (\<lambda>c.
          let y = ucast a + push_bit 8 (ucast b) :: u32;
              z = ucast (of_nat len + push_bit 2 c) :: u32
          in Inr (ShiftMix (ucast y * k2 XOR ucast z * k0) * k2))))
      else Inr k2)"

definition HashLen17to32 :: "byte list \<Rightarrow> u64 res" where
  "HashLen17to32 s =
     (let len = length s; mul = k2 + of_nat len * 2 in
      rbind (Fetch64 s 0) (\<lambda>f0.
      rbind (Fetch64 s 8) (\<lambda>b.
      rbind (Fetch64 s (len - 8)) (\<lambda>f8.
      rbind (Fetch64 s (len - 16)) (\<lambda>f16.
        let a = f0 * k1; c = f8 * mul; d = f16 * k2
        in Inr (HashLen16_mul (Rotate64 (a + b) 43 + Rotate64 c 30 + d)
                 (a + Rotate64 (b + k2) 18 + c) mul))))))"

definition WeakHashLen32WithSeeds ::
  "u64 \<Rightarrow> u64 \<Rightarrow> u64 \<Rightarrow> u64 \<Rightarrow> u64 \<Rightarrow> u64 \<Rightarrow> u64 \<times> u64" where
  "WeakHashLen32WithSeeds w x y z a b =
     (let a = a + w;
          b = Rotate64 (b + a + z) 21;
          c = a;
          a = a + x;
          a = a + y;
          b = b + Rotate64 a 44
      in (a + z, b + c))"

definition WeakHashLen32WithSeeds_at :: "byte list \<Rightarrow> nat \<Rightarrow> u64 \<Rightarrow> u64 \<Rightarrow> (u64 \<times> u64) res" where
  "WeakHashLen32WithSeeds_at s p a b =
     rbind (Fetch64 s p) (\<lambda>w.
     rbind (Fetch64 s (p + 8)) (\<lambda>x.
     rbind (Fetch64 s (p + 16)) (\<lambda>y.
     rbind (Fetch64 s (p + 24)) (\<lambda>z.
       Inr (WeakHashLen32WithSeeds w x y z a b)))))"

definition HashLen33to64 :: "byte list \<Rightarrow> u64 res" where
  "HashLen33to64 s =
     (let len = length s; mul = k2 + of_nat len * 2 in
      rbind (Fetch64 s 0) (\<lambda>f0.
      rbind (Fetch64 s 8) (\<lambda>b.
      rbind (Fetch64 s (len - 8)) (\<lambda>f8.
      rbind (Fetch64 s (len - 16)) (\<lambda>f16.
      rbind (Fetch64 s 16) (\<lambda>g16.
      rbind (Fetch64 s 24) (\<lambda>f.
      rbind (Fetch64 s (len - 32)) (\<lambda>f32.
      rbind (Fetch64 s (len - 24)) (\<lambda>f24.
        let a = f0 * k2;
            c = f8 * mul;
            d = f16 * k2;
            y = Rotate64 (a + b) 43 + Rotate64 c 30 + d;
            z = HashLen16_mul y (a + Rotate64 (b + k2) 18 + c) mul;
            e = g16 * mul;
            g = (y + f32) * mul;
            h = (z + f24) * mul
        in Inr (HashLen16_mul (Rotate64 (e + f) 43 + Rotate64 g 30 + h)
                 (e + Rotate64 (f + a) 18 + g) mul))))))))))"

text \<open>The registers of the loop over 64-byte blocks.\<close>

record hash_state =
  hx :: u64
  hy :: u64
  hz :: u64
  hv :: "u64 \<times> u64"
  hw :: "u64 \<times> u64"

text \<open>
  One block at position \<open>p\<close> with multiplier \<open>mul\<close>; the pass over the last block also scales
  two terms by 9, here the factor \<open>n\<close>, which is 1 inside the loop.
\<close>

definition hash_block :: "byte list \<Rightarrow> nat \<Rightarrow> u64 \<Rightarrow> u64 \<Rightarrow> hash_state \<Rightarrow> hash_state res" where
  "hash_block s p mul n h =
     rbind (Fetch64 s (p + 8)) (\<lambda>f8.
     rbind (Fetch64 s (p + 48)) (\<lambda>f48.
     rbind (Fetch64 s (p + 40)) (\<lambda>f40.
       let x = Rotate64 (hx h + hy h + fst (hv h) + f8) 37 * mul;
           y = Rotate64 (hy h + snd (hv h) + f48) 42 * mul;
           x = x XOR snd (hw h) * n;
           y = y + (fst (hv h) * n + f40);
           z = Rotate64 (hz h + fst (hw h)) 33 * mul
       in rbind (WeakHashLen32WithSeeds_at s p (snd (hv h) * mul) (x + fst (hw h))) (\<lambda>v.
          rbind (Fetch64 s (p + 16)) (\<lambda>f16.
          rbind (WeakHashLen32WithSeeds_at s (p + 32) (z + snd (hw h)) (y + f16)) (\<lambda>w.
            Inr \<lparr>hx = z, hy = y, hz = x, hv = v, hw = w\<rparr>))))))"

lemma fetch_Inr_le: "fetch n s p = Inr w \<Longrightarrow> p + n \<le> length s"
  by (simp add: fetch_def split: if_splits)

lemma hash_block_inside: "hash_block s p mul n h = Inr h' \<Longrightarrow> p + 8 < length s"
  by (auto simp: hash_block_def Fetch64_def dest!: fetch_Inr_le)

function hash_loop :: "byte list \<Rightarrow> nat \<Rightarrow> nat \<Rightarrow> hash_state \<Rightarrow> hash_state res" where
  "hash_loop s endpos p h =
     rbind (hash_block s p k1 1 h) (\<lambda>h.
       let p = p + 64 in if p \<noteq> endpos then hash_loop s endpos p h else Inr h)"
  by pat_completeness auto
termination
  by (relation "measure (\<lambda>(s, e, p, h). length s - p)") (auto dest!: hash_block_inside)

declare hash_loop.simps [simp del]

definition Hash64 :: "byte list \<Rightarrow> u64 res" where
  "Hash64 s =
     (let len = length s; seed = 81 in
      if len \<le> 32 then (if len \<le> 16 then HashLen0to16 s else HashLen17to32 s)
      else if len \<le> 64 then HashLen33to64 s
      else
        rbind (Fetch64 s 0) (\<lambda>f0.
          let x = seed;
              y = seed * k1 + 113;
              z = ShiftMix (y * k2 + 113) * k2;
              x = x * k2 + f0;
              endpos = (len - 1) div 64 * 64;
              last64 = endpos + (len - 1) mod 64 - 63
          in rbind (hash_loop s endpos 0 \<lparr>hx = x, hy = y, hz = z, hv = (0, 0), hw = (0, 0)\<rparr>) (\<lambda>h.
               let mul = k1 + push_bit 1 (hz h AND 0xff);
                   w1 = fst (hw h) + of_nat ((len - 1) mod 64);
                   v1 = fst (hv h) + w1;
                   w1 = w1 + v1
               in rbind (hash_block s last64 mul 9 (h\<lparr>hv := (v1, snd (hv h)), hw := (w1, snd (hw h))\<rparr>))
                 (\<lambda>h. Inr (HashLen16_mul
                      (HashLen16_mul (fst (hv h)) (fst (hw h)) mul + ShiftMix (hy h) * k0 + hz h)
                      (HashLen16_mul (snd (hv h)) (snd (hw h)) mul + hx h)
                      mul)))))"

section \<open>Fingerprints\<close>

definition Fingerprint_u128 :: "u64 \<Rightarrow> u64 \<Rightarrow> u64" where
  "Fingerprint_u128 lo hi =
     (let a = (lo XOR hi) * kMul;
          a = a XOR drop_bit 47 a;
          b = (hi XOR a) * kMul;
          b = b XOR drop_bit 44 b;
          b = b * kMul;
          b = b XOR drop_bit 41 b
      in b * kMul)"

definition Fingerprint_u64 :: "u64 \<Rightarrow> u64" where
  "Fingerprint_u64 x =
     (let b = x * kMul;
          b = b XOR drop_bit 44 b;
          b = b * kMul;
          b = b XOR drop_bit 41 b
      in b * kMul)"

definition FarmFingerprint :: "u64 \<Rightarrow> u64" where
  "FarmFingerprint v = Fingerprint_u64 v"

definition FarmFingerprint_buf :: "byte list \<Rightarrow> u64 res" where
  "FarmFingerprint_buf buf = Hash64 buf"

definition FarmFingerprint2 :: "u64 \<Rightarrow> u64 \<Rightarrow> u64" where
  "FarmFingerprint2 first second = Fingerprint_u128 first second"

text \<open>The fingerprint of a range folds those of its elements.\<close>

fun FarmFingerprint_fold :: "('a \<Rightarrow> u64 res) \<Rightarrow> u64 \<Rightarrow> 'a list \<Rightarrow> u64 res" where
  "FarmFingerprint_fold hash result [] = Inr result"
| "FarmFingerprint_fold hash result (v # vs) =
     rbind (hash v) (\<lambda>h. FarmFingerprint_fold hash (FarmFingerprint2 result h) vs)"

definition FarmFingerprint_range :: "('a \<Rightarrow> u64 res) \<Rightarrow> 'a list \<Rightarrow> u64 res" where
  "FarmFingerprint_range hash vs =
     rbind (FarmFingerprint_fold hash 0xdeadc0de vs) (\<lambda>result. Inr (result XOR of_nat (length vs)))"

section \<open>No read leaves the buffer\<close>

lemma fetch_inside: "p + n \<le> length s \<Longrightarrow> \<exists>w. fetch n s p = Inr w"
  by (simp add: fetch_def)

lemma hash_block_total:
  assumes "p + 64 \<le> length s"
  shows "\<exists>h'. hash_block s p mul n h = Inr h'"
  using assms by (simp add: hash_block_def WeakHashLen32WithSeeds_at_def Fetch64_def fetch_def Let_def)

lemma hash_loop_total:
  assumes "endpos = p + 64 * k" "0 < k" "endpos \<le> length s"
  shows "\<exists>h'. hash_loop s endpos p h = Inr h'"
  using assms
proof (induction k arbitrary: p h)
  case (Suc k)
  obtain h' where h': "hash_block s p k1 1 h = Inr h'"
    using hash_block_total [of p s k1 1 h] Suc.prems by auto
  show ?case
  proof (cases k)
    case 0
    with Suc.prems h' show ?thesis by (subst hash_loop.simps) simp
  next
    case (Suc j)
    with Suc.IH [of "p + 64"] Suc.prems h' show ?thesis
      by (subst hash_loop.simps) (simp add: Let_def)
  qed
qed simp

lemma last_block:
  fixes len :: nat
  assumes "64 < len"
  shows "(len - 1) div 64 * 64 + (len - 1) mod 64 - 63 = len - 64"
  using assms by (simp add: div_mult_mod_eq)

lemma rbind_total:
  "\<exists>x. m = Inr x \<Longrightarrow> (\<And>x. m = Inr x \<Longrightarrow> \<exists>y. f x = Inr y) \<Longrightarrow> \<exists>y. rbind m f = Inr y"
  by auto

lemma Hash64_total: "\<exists>h. Hash64 s = Inr h"
proof -
  consider "length s \<le> 16" | "16 < length s" "length s \<le> 32"
    | "32 < length s" "length s \<le> 64" | "64 < length s" by linarith
  then show ?thesis
  proof cases
    case 4
    let ?e = "(length s - 1) div 64 * 64"
    have "0 < (length s - 1) div 64" "?e \<le> length s" using 4 by (auto simp: div_greater_zero_iff)
    then have loop: "\<exists>h'. hash_loop s ?e 0 h = Inr h'" for h
      by (intro hash_loop_total [where k = "(length s - 1) div 64"]) simp_all
    have block: "\<exists>h'. hash_block s (length s - 64) mul n h = Inr h'" for mul n h
      using 4 by (intro hash_block_total) simp
    have f0: "\<exists>f0. Fetch64 s 0 = Inr f0"
      using fetch_inside [of 0 8 s] 4 by (auto simp: Fetch64_def)
    from 4 have len: "\<not> length s \<le> 32" "\<not> length s \<le> 64" by simp_all
    show ?thesis
      unfolding Hash64_def Let_def last_block [OF 4] if_not_P [OF len(1)] if_not_P [OF len(2)]
      by (intro rbind_total loop block f0) simp
  qed (auto simp: Hash64_def HashLen0to16_def HashLen17to32_def HashLen33to64_def
      Fetch64_def Fetch32_def fetch_def Let_def Suc_le_eq)
qed

section \<open>Injectivity of the integer fingerprints\<close>

lemma xorshift_inj:
  assumes "32 \<le> k"
  shows "inj (\<lambda>x::u64. x XOR drop_bit k x)"
proof (rule inj_on_inverseI [where g = "\<lambda>x. x XOR drop_bit k x"])
  fix x :: u64
  have "drop_bit (k + k) x = 0"
    using assms by (intro bit_eqI) (auto simp: bit_simps dest: bit_imp_le_length)
  then show "(x XOR drop_bit k x) XOR drop_bit k (x XOR drop_bit k x) = x"
    by (simp add: xor.assoc drop_bit_drop_bit)
qed

lemma mul_inj:
  assumes "(c::u64) * c' = 1"
  shows "inj (\<lambda>x. x * c)"
proof (rule inj_on_inverseI [where g = "\<lambda>x. x * c'"])
  show "x * c * c' = x" for x using assms by (simp add: mult.assoc)
qed

lemma kMul_inj: "inj (\<lambda>x. x * kMul)"
  by (rule mul_inj [where c' = "0xdc56e6f5090b32d9"]) simp

lemma inj_comp: "inj f \<Longrightarrow> inj g \<Longrightarrow> inj (\<lambda>x. f (g x))"
  by (auto simp: inj_def)

lemma xor_inj: "inj (\<lambda>x::u64. c XOR x)" "inj (\<lambda>x::u64. x XOR c)"
proof -
  show "inj (\<lambda>x::u64. c XOR x)"
    by (rule inj_on_inverseI [where g = "\<lambda>x. c XOR x"]) (simp add: xor.assoc [symmetric])
  then show "inj (\<lambda>x::u64. x XOR c)" by (simp add: xor.commute)
qed

lemmas mixing_inj = xorshift_inj kMul_inj xor_inj

lemma Fingerprint_u64_inj: "inj Fingerprint_u64"
  unfolding Fingerprint_u64_def Let_def
  by (rule inj_comp [OF kMul_inj inj_comp [OF xorshift_inj [of 41] inj_comp [OF kMul_inj
        inj_comp [OF xorshift_inj [of 44] kMul_inj]]]]) simp_all

lemma Fingerprint_u128_inj: "inj (\<lambda>lo. Fingerprint_u128 lo hi)"
  unfolding Fingerprint_u128_def Let_def
  by (rule inj_comp [OF kMul_inj inj_comp [OF xorshift_inj [of 41] inj_comp [OF kMul_inj
        inj_comp [OF xorshift_inj [of 44] inj_comp [OF kMul_inj inj_comp [OF xor_inj(1)
        inj_comp [OF xorshift_inj [of 47] inj_comp [OF kMul_inj xor_inj(2)]]]]]]]]) simp_all

text \<open>C28. The fingerprints used for table values are safe and lose nothing that they need not
  lose: hashing a string of any length never reads outside it, different integers have
  different fingerprints, and combining an accumulated hash with a given value never merges
  two different accumulated hashes.\<close>

theorem farm_fingerprints_safe_and_injective:
  "(\<exists>h. FarmFingerprint_buf s = Inr h) \<and>
   (FarmFingerprint x = FarmFingerprint y \<longleftrightarrow> x = y) \<and>
   (FarmFingerprint2 x z = FarmFingerprint2 y z \<longleftrightarrow> x = y)"
  using Hash64_total [of s] inj_eq [OF Fingerprint_u64_inj] inj_eq [OF Fingerprint_u128_inj]
  by (simp add: FarmFingerprint_buf_def FarmFingerprint_def FarmFingerprint2_def)

end
