(* ===== verification/Rows.thy ===== *)
theory Rows
  imports CompositeTruncate
begin

text \<open>
  Comparison of values and rows, and the legacy keys built from rows: the parts of
  \<open>unversioned_row.cpp\<close> of \<open>yt/yt/client/table_client\<close> from \<open>CompareRowValues\<close> to the key
  successors and widened keys.

  Values of one column are shown to be ordered by a rank, rows by the lexicographic order
  of their ranks; the successors of a key are shown to be the least key above it and the
  least key above all keys with its prefix.
\<close>

type_synonym TUnversionedRow = "TUnversionedValue list option"
type_synonym TLegacyKey = "TUnversionedValue list"

section \<open>Comparison of values\<close>

definition ThrowIncomparableTypes :: "TUnversionedValue \<Rightarrow> TUnversionedValue \<Rightarrow> 'a res" where
  "ThrowIncomparableTypes lhs rhs = Inl (Thrown ''Cannot compare values of types'')"

text \<open>Exceptions are rethrown with a new message; fatal errors are not exceptions.\<close>

definition CompareComplexValues :: "text_lib \<Rightarrow> TUnversionedValue \<Rightarrow> TUnversionedValue \<Rightarrow> int res" where
  "CompareComplexValues L lhs rhs =
     (case CompareYsonValues L (AsStringBuf lhs) (AsStringBuf rhs) of
        Inl (Thrown _) \<Rightarrow> Inl (Thrown ''Cannot compare complex values'')
      | r \<Rightarrow> r)"

definition CompareRowValues :: "text_lib \<Rightarrow> TUnversionedValue \<Rightarrow> TUnversionedValue \<Rightarrow> int res" where
  "CompareRowValues L lhs rhs =
     (if Type lhs = VT_Any \<or> Type rhs = VT_Any then
        if Type lhs \<noteq> Type rhs then
          if Type lhs = VT_Composite \<or> Type rhs = VT_Composite then ThrowIncomparableTypes lhs rhs
          else Inr (TernaryCompare (Type lhs) (Type rhs))
        else CompareComplexValues L lhs rhs
      else if Type lhs = VT_Composite \<or> Type rhs = VT_Composite then
        if Type lhs \<noteq> Type rhs then
          if \<not> IsSentinel (Type lhs) \<and> Type lhs \<noteq> VT_Null \<and>
             \<not> IsSentinel (Type rhs) \<and> Type rhs \<noteq> VT_Null
          then ThrowIncomparableTypes lhs rhs
          else Inr (TernaryCompare (Type lhs) (Type rhs))
        else CompareComplexValues L lhs rhs
      else if Type lhs \<noteq> Type rhs then Inr (TernaryCompare (Type lhs) (Type rhs))
      else (case (Data lhs, Data rhs) of
          (D_Int64 a, D_Int64 b) \<Rightarrow> Inr (TernaryCompare (sint a) (sint b))
        | (D_Uint64 a, D_Uint64 b) \<Rightarrow> Inr (TernaryCompare a b)
        | (D_Double a, D_Double b) \<Rightarrow> Inr (NaNSafeTernaryCompare a b)
        | (D_Boolean a, D_Boolean b) \<Rightarrow> Inr (TernaryCompare a b)
        | (D_String a, D_String b) \<Rightarrow> Inr (TernaryCompare a b)
        | _ \<Rightarrow> Inr 0))"

definition value_eq :: "text_lib \<Rightarrow> TUnversionedValue \<Rightarrow> TUnversionedValue \<Rightarrow> bool res" where
  "value_eq L lhs rhs = rbind (CompareRowValues L lhs rhs) (\<lambda>r. Inr (r = 0))"

definition value_le :: "text_lib \<Rightarrow> TUnversionedValue \<Rightarrow> TUnversionedValue \<Rightarrow> bool res" where
  "value_le L lhs rhs = rbind (CompareRowValues L lhs rhs) (\<lambda>r. Inr (r \<le> 0))"

definition value_lt :: "text_lib \<Rightarrow> TUnversionedValue \<Rightarrow> TUnversionedValue \<Rightarrow> bool res" where
  "value_lt L lhs rhs = rbind (CompareRowValues L lhs rhs) (\<lambda>r. Inr (r < 0))"

definition value_ge :: "text_lib \<Rightarrow> TUnversionedValue \<Rightarrow> TUnversionedValue \<Rightarrow> bool res" where
  "value_ge L lhs rhs = rbind (CompareRowValues L lhs rhs) (\<lambda>r. Inr (r \<ge> 0))"

definition value_gt :: "text_lib \<Rightarrow> TUnversionedValue \<Rightarrow> TUnversionedValue \<Rightarrow> bool res" where
  "value_gt L lhs rhs = rbind (CompareRowValues L lhs rhs) (\<lambda>r. Inr (r > 0))"

section \<open>Comparison of rows\<close>

fun CompareValueRanges_loop ::
  "text_lib \<Rightarrow> TUnversionedValue list \<Rightarrow> TUnversionedValue list \<Rightarrow> int \<Rightarrow> int res" where
  "CompareValueRanges_loop L (l # lhs) (r # rhs) lengths =
     rbind (CompareRowValues L l r) (\<lambda>result.
       if result \<noteq> 0 then Inr result else CompareValueRanges_loop L lhs rhs lengths)"
| "CompareValueRanges_loop L lhs rhs lengths = Inr lengths"

definition CompareValueRanges ::
  "text_lib \<Rightarrow> TUnversionedValue list \<Rightarrow> TUnversionedValue list \<Rightarrow> int res" where
  "CompareValueRanges L lhs rhs =
     CompareValueRanges_loop L lhs rhs (int (length lhs) - int (length rhs))"

definition CompareRows :: "text_lib \<Rightarrow> TUnversionedRow \<Rightarrow> TUnversionedRow \<Rightarrow> nat \<Rightarrow> int res" where
  "CompareRows L lhs rhs prefixLength =
     (case (lhs, rhs) of
        (None, None) \<Rightarrow> Inr 0
      | (Some _, None) \<Rightarrow> Inr 1
      | (None, Some _) \<Rightarrow> Inr (-1)
      | (Some lhs, Some rhs) \<Rightarrow>
          CompareValueRanges L (take (min (length lhs) prefixLength) lhs)
            (take (min (length rhs) prefixLength) rhs))"

text \<open>The operators compare complete rows: the default prefix length is the maximal \<open>ui32\<close>.\<close>

abbreviation "max_ui32 \<equiv> 2 ^ 32 - 1 :: nat"

definition row_eq :: "text_lib \<Rightarrow> TUnversionedRow \<Rightarrow> TUnversionedRow \<Rightarrow> bool res" where
  "row_eq L lhs rhs = rbind (CompareRows L lhs rhs max_ui32) (\<lambda>r. Inr (r = 0))"

definition row_le :: "text_lib \<Rightarrow> TUnversionedRow \<Rightarrow> TUnversionedRow \<Rightarrow> bool res" where
  "row_le L lhs rhs = rbind (CompareRows L lhs rhs max_ui32) (\<lambda>r. Inr (r \<le> 0))"

definition row_lt :: "text_lib \<Rightarrow> TUnversionedRow \<Rightarrow> TUnversionedRow \<Rightarrow> bool res" where
  "row_lt L lhs rhs = rbind (CompareRows L lhs rhs max_ui32) (\<lambda>r. Inr (r < 0))"

definition row_ge :: "text_lib \<Rightarrow> TUnversionedRow \<Rightarrow> TUnversionedRow \<Rightarrow> bool res" where
  "row_ge L lhs rhs = rbind (CompareRows L lhs rhs max_ui32) (\<lambda>r. Inr (r \<ge> 0))"

definition row_gt :: "text_lib \<Rightarrow> TUnversionedRow \<Rightarrow> TUnversionedRow \<Rightarrow> bool res" where
  "row_gt L lhs rhs = rbind (CompareRows L lhs rhs max_ui32) (\<lambda>r. Inr (r > 0))"

section \<open>Sizes, counts and timestamps\<close>

definition GetUnversionedRowByteSize :: "nat \<Rightarrow> nat" where
  "GetUnversionedRowByteSize valueCount = 8 + 16 * valueCount"

fun GetDataWeight_sum :: "TUnversionedValue list \<Rightarrow> int \<Rightarrow> int res" where
  "GetDataWeight_sum [] result = Inr result"
| "GetDataWeight_sum (v # vs) result =
     rbind (GetDataWeight_value v) (\<lambda>w. GetDataWeight_sum vs (result + w))"

definition GetDataWeight_row :: "TUnversionedRow \<Rightarrow> int res" where
  "GetDataWeight_row row = (case row of None \<Rightarrow> Inr 0 | Some vs \<Rightarrow> GetDataWeight_sum vs 1)"

fun GetDataWeight_rows :: "TUnversionedRow list \<Rightarrow> int \<Rightarrow> int res" where
  "GetDataWeight_rows [] result = Inr result"
| "GetDataWeight_rows (row # rows) result =
     rbind (GetDataWeight_row row) (\<lambda>w. GetDataWeight_rows rows (result + w))"

definition MaxKeyColumnCount :: int where "MaxKeyColumnCount = 256"
definition MaxValuesPerRow :: int where "MaxValuesPerRow = 1024"
definition MaxRowsPerRowset :: int where "MaxRowsPerRowset = 15 * 1024 * 1024"

definition ValidateRowValueCount :: "int \<Rightarrow> unit res" where
  "ValidateRowValueCount count =
     rbind (throw_if (count < 0) ''Negative number of values in row'') (\<lambda>_.
       throw_if (count > MaxValuesPerRow) ''Too many values in row'')"

definition ValidateKeyColumnCount :: "int \<Rightarrow> unit res" where
  "ValidateKeyColumnCount count =
     rbind (throw_if (count < 0) ''Negative number of key columns'') (\<lambda>_.
       throw_if (count > MaxKeyColumnCount) ''Too many columns in key'')"

definition ValidateRowCount :: "int \<Rightarrow> unit res" where
  "ValidateRowCount count =
     rbind (throw_if (count < 0) ''Negative number of rows in rowset'') (\<lambda>_.
       throw_if (count > MaxRowsPerRowset) ''Too many rows in rowset'')"

definition MinTimestamp :: u64 where "MinTimestamp = 0x0000000000000001"
definition MaxTimestamp :: u64 where "MaxTimestamp = 0x3fffffffffffff00"
definition SyncLastCommittedTimestamp :: u64 where "SyncLastCommittedTimestamp = 0x3fffffffffffff01"
definition AsyncLastCommittedTimestamp :: u64 where "AsyncLastCommittedTimestamp = 0x3fffffffffffff04"

definition ValidateReadTimestamp :: "u64 \<Rightarrow> unit res" where
  "ValidateReadTimestamp timestamp =
     throw_if (timestamp \<noteq> SyncLastCommittedTimestamp \<and> timestamp \<noteq> AsyncLastCommittedTimestamp \<and>
       (timestamp < MinTimestamp \<or> timestamp > MaxTimestamp)) ''Invalid read timestamp''"

definition ValidateGetInSyncReplicasTimestamp :: "u64 \<Rightarrow> unit res" where
  "ValidateGetInSyncReplicasTimestamp timestamp =
     throw_if (timestamp \<noteq> SyncLastCommittedTimestamp \<and>
       (timestamp < MinTimestamp \<or> timestamp > MaxTimestamp)) ''Invalid GetInSyncReplicas timestamp''"

definition ValidateWriteTimestamp :: "u64 \<Rightarrow> unit res" where
  "ValidateWriteTimestamp timestamp =
     throw_if (timestamp < MinTimestamp \<or> timestamp > MaxTimestamp) ''Invalid write timestamp''"

definition ApplyIdMapping :: "TUnversionedValue \<Rightarrow> int list option \<Rightarrow> int res" where
  "ApplyIdMapping v idMapping =
     (case idMapping of
        Some m \<Rightarrow>
          rbind (throw_if (length m \<le> unat (Id v)) ''Invalid column id during remapping'')
            (\<lambda>_. Inr (m ! unat (Id v)))
      | None \<Rightarrow> Inr (uint (Id v)))"

section \<open>Legacy keys\<close>

abbreviation sentinel :: "EValueType \<Rightarrow> TUnversionedValue" where
  "sentinel type \<equiv> MakeSentinelValue type 0 0"

definition GetKeySuccessorImpl :: "TLegacyKey \<Rightarrow> nat \<Rightarrow> EValueType \<Rightarrow> TLegacyKey" where
  "GetKeySuccessorImpl key prefixLength sentinelType =
     (let len = min prefixLength (length key) in
      map (\<lambda>index. key ! index) [0..<len] @ [sentinel sentinelType])"

definition GetKeySuccessor :: "TLegacyKey \<Rightarrow> TLegacyKey" where
  "GetKeySuccessor key = GetKeySuccessorImpl key (length key) VT_Min"

definition GetKeyPrefixSuccessor :: "TLegacyKey \<Rightarrow> nat \<Rightarrow> TLegacyKey" where
  "GetKeyPrefixSuccessor key prefixLength = GetKeySuccessorImpl key prefixLength VT_Max"

definition GetKeyPrefix :: "TLegacyKey \<Rightarrow> nat \<Rightarrow> TLegacyKey" where
  "GetKeyPrefix key prefixLength = take (min (length key) prefixLength) key"

definition WidenKeyPrefix :: "TLegacyKey \<Rightarrow> nat \<Rightarrow> nat \<Rightarrow> EValueType \<Rightarrow> TLegacyKey res" where
  "WidenKeyPrefix key prefixLength keyColumnCount sentinelType =
     rbind (verify (prefixLength \<le> length key \<and> prefixLength \<le> keyColumnCount) ''prefixLength'') (\<lambda>_.
       if length key = prefixLength \<and> prefixLength = keyColumnCount then Inr key
       else Inr (map (\<lambda>index. key ! index) [0..<prefixLength] @
              map (\<lambda>index. sentinel sentinelType) [prefixLength..<keyColumnCount]))"

definition WidenKey :: "TLegacyKey \<Rightarrow> nat \<Rightarrow> EValueType \<Rightarrow> TLegacyKey res" where
  "WidenKey key keyColumnCount sentinelType =
     WidenKeyPrefix key (length key) keyColumnCount sentinelType"

definition WidenKeySuccessor :: "TLegacyKey \<Rightarrow> nat \<Rightarrow> EValueType \<Rightarrow> TLegacyKey res" where
  "WidenKeySuccessor key keyColumnCount sentinelType =
     rbind (verify (length key \<le> keyColumnCount) ''keyColumnCount >= key.GetCount()'') (\<lambda>_.
       Inr (map (\<lambda>index. key ! index) [0..<length key] @
            map (\<lambda>index. sentinel sentinelType) [length key..<keyColumnCount] @ [sentinel VT_Max]))"

definition GetStrictKey :: "TLegacyKey \<Rightarrow> nat \<Rightarrow> EValueType \<Rightarrow> TLegacyKey res" where
  "GetStrictKey key keyColumnCount sentinelType =
     (if length key > keyColumnCount then Inr (GetKeyPrefix key keyColumnCount)
      else WidenKey key keyColumnCount sentinelType)"

definition GetStrictKeySuccessor :: "TLegacyKey \<Rightarrow> nat \<Rightarrow> EValueType \<Rightarrow> TLegacyKey res" where
  "GetStrictKeySuccessor key keyColumnCount sentinelType =
     (if length key \<ge> keyColumnCount then Inr (GetKeyPrefixSuccessor key keyColumnCount)
      else WidenKeySuccessor key keyColumnCount sentinelType)"

definition MakeSentinelKey :: "EValueType \<Rightarrow> TLegacyKey" where
  "MakeSentinelKey type = [sentinel type]"

definition MinKey :: TLegacyKey where "MinKey = MakeSentinelKey VT_Min"
definition MaxKey :: TLegacyKey where "MaxKey = MakeSentinelKey VT_Max"
definition EmptyKey :: TLegacyKey where "EmptyKey = []"

definition ChooseMinKey :: "text_lib \<Rightarrow> TLegacyKey \<Rightarrow> TLegacyKey \<Rightarrow> TLegacyKey res" where
  "ChooseMinKey L a b =
     rbind (CompareRows L (Some a) (Some b) max_ui32) (\<lambda>result. Inr (if result \<le> 0 then a else b))"

definition ChooseMaxKey :: "text_lib \<Rightarrow> TLegacyKey \<Rightarrow> TLegacyKey \<Rightarrow> TLegacyKey res" where
  "ChooseMaxKey L a b =
     rbind (CompareRows L (Some a) (Some b) max_ui32) (\<lambda>result. Inr (if result \<ge> 0 then a else b))"

definition ToKeyRef :: "TLegacyKey \<Rightarrow> TUnversionedValue list" where
  "ToKeyRef row = row"

definition ToKeyRef_prefix :: "TLegacyKey \<Rightarrow> nat \<Rightarrow> TUnversionedValue list" where
  "ToKeyRef_prefix row prefixLength = take prefixLength row"

section \<open>The order of the values of a column\<close>

text \<open>
  A column holds composite values, with nulls and sentinels beside them, or any other
  values. Within a column every two values can be compared, provided that the YSON in it
  consists of lists and scalars.
\<close>

datatype column_kind = CompositeColumn | ScalarColumn

definition column_value :: "text_lib \<Rightarrow> column_kind \<Rightarrow> TUnversionedValue \<Rightarrow> bool" where
  "column_value L k v \<longleftrightarrow>
     (k = CompositeColumn \<longrightarrow> Type v \<in> {VT_Min, VT_Null, VT_Composite, VT_Max}) \<and>
     (k = ScalarColumn \<longrightarrow> Type v \<noteq> VT_Composite) \<and>
     (Type v = VT_Any \<or> Type v = VT_Composite \<longrightarrow> comparable_yson L (AsStringBuf v))"

fun data_rank :: "text_lib \<Rightarrow> TUnversionedValueData \<Rightarrow> int list list" where
  "data_rank L (D_Int64 v) = [[3, sint v]]"
| "data_rank L (D_Uint64 v) = [[4, uint v]]"
| "data_rank L (D_Double v) = [[5, double_rank v]]"
| "data_rank L (D_Boolean v) = [[6, of_bool v]]"
| "data_rank L (D_String s) = [0x10 # map uint s]"
| "data_rank L (D_Any s) = [0x11] # yson_rank L s"
| "data_rank L (D_Composite s) = [0x12] # yson_rank L s"
| "data_rank L D_Min = [[0]]"
| "data_rank L D_TheBottom = [[1]]"
| "data_rank L D_Null = [[2]]"
| "data_rank L D_Max = [[0xef]]"

definition value_rank :: "text_lib \<Rightarrow> TUnversionedValue \<Rightarrow> int list list" where
  "value_rank L v = data_rank L (Data v)"

lemma data_rank_code: "\<exists>x xs. data_rank L d = (int (type_code (data_type d)) # x) # xs"
  by (cases d) simp_all

lemma TernaryCompare_data_type:
  assumes "data_type a \<noteq> data_type b"
  shows "TernaryCompare (data_rank L a) (data_rank L b) = TernaryCompare (data_type a) (data_type b)"
proof -
  obtain x xs where a: "data_rank L a = (int (type_code (data_type a)) # x) # xs"
    using data_rank_code by blast
  obtain y ys where b: "data_rank L b = (int (type_code (data_type b)) # y) # ys"
    using data_rank_code by blast
  have "type_code (data_type a) \<noteq> type_code (data_type b)" using assms by (simp add: type_code_inj)
  with assms show ?thesis
    by (simp add: a b TernaryCompare_Cons) (simp add: TernaryCompare_def less_EValueType_def)
qed

lemma CompareComplexValues_rank:
  assumes "comparable_yson L (AsStringBuf a)" "comparable_yson L (AsStringBuf b)"
  shows "CompareComplexValues L a b =
    Inr (TernaryCompare (yson_rank L (AsStringBuf a)) (yson_rank L (AsStringBuf b)))"
  using CompareYsonValues_rank [OF assms] by (simp add: CompareComplexValues_def)

lemma CompareRowValues_rank:
  assumes "column_value L k a" "column_value L k b"
  shows "CompareRowValues L a b = Inr (TernaryCompare (value_rank L a) (value_rank L b))"
proof (cases "Type a = Type b")
  case False
  with assms TernaryCompare_data_type [of "Data a" "Data b" L] show ?thesis
    by (cases k)
      (auto simp: CompareRowValues_def column_value_def value_rank_def Type_def IsSentinel_def)
next
  case True
  show ?thesis
  proof (cases "Type a = VT_Any \<or> Type a = VT_Composite")
    case complex: True
    with True assms CompareComplexValues_rank [of L a b]
    have "CompareRowValues L a b =
      Inr (TernaryCompare (yson_rank L (AsStringBuf a)) (yson_rank L (AsStringBuf b)))"
      by (auto simp: CompareRowValues_def column_value_def)
    with True complex show ?thesis
      by (cases "Data a"; cases "Data b")
        (auto simp: Type_def value_rank_def AsStringBuf_def TernaryCompare_Cons)
  next
    case False
    with True show ?thesis
      by (cases "Data a"; cases "Data b")
        (auto simp: CompareRowValues_def Type_def value_rank_def TernaryCompare_Cons
          NaNSafeTernaryCompare_rank TernaryCompare_uint TernaryCompare_map_uint,
         auto simp: TernaryCompare_def word_uint_eq_iff)
  qed
qed

section \<open>The order of rows\<close>

definition row_ok :: "text_lib \<Rightarrow> (nat \<Rightarrow> column_kind) \<Rightarrow> TUnversionedValue list \<Rightarrow> bool" where
  "row_ok L kinds vs \<longleftrightarrow> (\<forall>i<length vs. column_value L (kinds i) (vs ! i))"

definition row_rank :: "text_lib \<Rightarrow> TUnversionedValue list \<Rightarrow> int list list list" where
  "row_rank L vs = map (value_rank L) vs"

lemma row_ok_Cons [simp]:
  "row_ok L kinds (v # vs) \<longleftrightarrow> column_value L (kinds 0) v \<and> row_ok L (\<lambda>i. kinds (Suc i)) vs"
  by (auto simp: row_ok_def less_Suc_eq_0_disj)

lemma row_ok_Nil [simp]: "row_ok L kinds []"
  by (simp add: row_ok_def)

lemma row_ok_append:
  "row_ok L kinds (vs @ ws) \<longleftrightarrow> row_ok L kinds vs \<and> row_ok L (\<lambda>i. kinds (length vs + i)) ws"
  by (induction vs arbitrary: kinds) simp_all

lemma row_ok_take: "row_ok L kinds vs \<Longrightarrow> row_ok L kinds (take n vs)"
  by (auto simp: row_ok_def)

lemma CompareValueRanges_loop_rank:
  assumes "row_ok L kinds a" "row_ok L kinds b" "sgn n = sgn (int (length a) - int (length b))"
  shows "\<exists>r. CompareValueRanges_loop L a b n = Inr r \<and> sgn r = TernaryCompare (row_rank L a) (row_rank L b)"
  using assms
proof (induction L a b n arbitrary: kinds rule: CompareValueRanges_loop.induct)
  case (1 L l lhs r rhs n)
  then have c: "CompareRowValues L l r = Inr (TernaryCompare (value_rank L l) (value_rank L r))"
    by (intro CompareRowValues_rank) auto
  show ?case
  proof (cases "value_rank L l = value_rank L r")
    case True
    with "1.prems" c "1.IH" [of 0 "\<lambda>i. kinds (Suc i)"] show ?thesis
      by (simp add: row_rank_def TernaryCompare_Cons)
  next
    case False
    with c show ?thesis by (simp add: row_rank_def TernaryCompare_Cons)
  qed
qed (auto simp: row_rank_def sgn_if neq_Nil_conv split: if_splits)

lemma CompareValueRanges_rank:
  assumes "row_ok L kinds a" "row_ok L kinds b"
  shows "\<exists>r. CompareValueRanges L a b = Inr r \<and> sgn r = TernaryCompare (row_rank L a) (row_rank L b)"
  unfolding CompareValueRanges_def using assms by (intro CompareValueRanges_loop_rank) simp_all

lemma CompareRows_rank:
  assumes "row_ok L kinds a" "row_ok L kinds b"
  shows "\<exists>r. CompareRows L (Some a) (Some b) n = Inr r \<and>
    sgn r = TernaryCompare (row_rank L (take n a)) (row_rank L (take n b))"
proof -
  have "take (min (length xs) n) xs = take n xs" for xs :: "TUnversionedValue list"
    by (cases "length xs \<le> n") simp_all
  then show ?thesis
    using CompareValueRanges_rank [OF row_ok_take [OF assms(1)] row_ok_take [OF assms(2)]]
    by (simp add: CompareRows_def)
qed

text \<open>Comparison of rows by a prefix, as a number.\<close>

definition row_cmp :: "text_lib \<Rightarrow> nat \<Rightarrow> TUnversionedValue list \<Rightarrow> TUnversionedValue list \<Rightarrow> int" where
  "row_cmp L n a b = (case CompareRows L (Some a) (Some b) n of Inl _ \<Rightarrow> 0 | Inr r \<Rightarrow> r)"

lemma CompareRows_row_cmp:
  assumes "row_ok L kinds a" "row_ok L kinds b"
  shows "CompareRows L (Some a) (Some b) n = Inr (row_cmp L n a b)"
    and "sgn (row_cmp L n a b) = TernaryCompare (row_rank L (take n a)) (row_rank L (take n b))"
  using CompareRows_rank [OF assms, of n] by (auto simp: row_cmp_def)

lemma sgn_cmp:
  assumes "sgn r = TernaryCompare x (y::'a::linorder)"
  shows "r \<le> 0 \<longleftrightarrow> x \<le> y" "r < 0 \<longleftrightarrow> x < y" "r = 0 \<longleftrightarrow> x = y" "0 < r \<longleftrightarrow> y < x" "0 \<le> r \<longleftrightarrow> y \<le> x"
  using assms by (auto simp: sgn_if TernaryCompare_def split: if_splits)

interpretation row_order: ternary "row_cmp L n" "row_ok L kinds" for L n kinds
proof
  fix a b c
  assume ok: "row_ok L kinds a" "row_ok L kinds b"
  note s = CompareRows_row_cmp(2)
  show "row_cmp L n a a = 0"
    using sgn_cmp(3) [OF s [OF ok(1) ok(1)]] by simp
  show "sgn (row_cmp L n b a) = - sgn (row_cmp L n a b)"
    unfolding s [OF ok] s [OF ok(2) ok(1)] by (rule TernaryCompare_antisym)
  assume "row_ok L kinds c" "row_cmp L n a b \<le> 0" "row_cmp L n b c \<le> 0"
  with ok show "row_cmp L n a c \<le> 0"
    using sgn_cmp(1) [OF s [OF ok]] sgn_cmp(1) [OF s [of L kinds b c n]] sgn_cmp(1) [OF s [of L kinds a c n]]
    by fastforce
qed

text \<open>C15. On rows whose columns hold comparable values, comparing by any key prefix never fails
  and is a total preorder: swapping the rows negates the sign of the result and
  \<open>\<le>\<close> is transitive; two rows compare equal exactly when their prefixes have equal length
  and the values in them have equal ranks.\<close>

theorem compare_rows_total_preorder:
  assumes "row_ok L kinds a" "row_ok L kinds b" "row_ok L kinds c"
  shows "\<exists>ab ba bc ac.
    CompareRows L (Some a) (Some b) n = Inr ab \<and> CompareRows L (Some b) (Some a) n = Inr ba \<and>
    CompareRows L (Some b) (Some c) n = Inr bc \<and> CompareRows L (Some a) (Some c) n = Inr ac \<and>
    sgn ba = - sgn ab \<and> (ab \<le> 0 \<longrightarrow> bc \<le> 0 \<longrightarrow> ac \<le> 0) \<and>
    (ab = 0 \<longleftrightarrow> map (value_rank L) (take n a) = map (value_rank L) (take n b))"
  using assms CompareRows_row_cmp(1) row_order.cmp_antisym [OF assms(1,2), of n]
    row_order.cmp_le_trans [OF assms, of n] sgn_cmp(3) [OF CompareRows_row_cmp(2) [OF assms(1,2)], of n]
  by (metis row_rank_def)

theorem compare_rows_total_preorder_witness:
  "row_ok sample_lib (\<lambda>_. ScalarColumn) [MakeInt64Value 7 0 0, MakeNullValue 1 0] \<and>
   row_ok sample_lib (\<lambda>_. ScalarColumn) [MakeInt64Value 7 0 0, MakeDoubleValue 0 1 0] \<and>
   row_ok sample_lib (\<lambda>_. ScalarColumn) [MakeStringValue [0x61] 0 0] \<and>
   (\<exists>ac. CompareRows sample_lib (Some [MakeInt64Value 7 0 0, MakeNullValue 1 0])
     (Some [MakeStringValue [0x61] 0 0]) 2 = Inr ac)"
proof -
  have ok: "row_ok sample_lib (\<lambda>_. ScalarColumn) [MakeInt64Value 7 0 0, MakeNullValue 1 0]"
    "row_ok sample_lib (\<lambda>_. ScalarColumn) [MakeInt64Value 7 0 0, MakeDoubleValue 0 1 0]"
    "row_ok sample_lib (\<lambda>_. ScalarColumn) [MakeStringValue [0x61] 0 0]"
    by (simp_all add: column_value_def MakeStringValue_def)
  from compare_rows_total_preorder [OF ok, of 2] ok show ?thesis by blast
qed

section \<open>Successors of keys\<close>

lemma map_nth_take: "n \<le> length xs \<Longrightarrow> map (\<lambda>i. xs ! i) [0..<n] = take n xs"
  by (rule nth_equalityI) simp_all

lemma GetKeySuccessor_eq: "GetKeySuccessor key = key @ [sentinel VT_Min]"
  by (simp add: GetKeySuccessor_def GetKeySuccessorImpl_def map_nth)

lemma GetKeyPrefixSuccessor_eq:
  "GetKeyPrefixSuccessor key n = take n key @ [sentinel VT_Max]"
  by (simp add: GetKeyPrefixSuccessor_def GetKeySuccessorImpl_def map_nth_take min_def)

lemma sentinel_column [simp]:
  "column_value L k (sentinel VT_Min)" "column_value L k (sentinel VT_Max)"
  by (simp_all add: column_value_def)

lemma sentinel_rank [simp]:
  "value_rank L (sentinel VT_Min) = [[0]]" "value_rank L (sentinel VT_Max) = [[0xef]]"
  by (simp_all add: value_rank_def MakeSentinelValue_def)

lemma Min_least: "[[0]] \<le> value_rank L v"
  unfolding value_rank_def by (cases "Data v") auto

lemma Max_greatest: "Type v \<noteq> VT_Max \<Longrightarrow> value_rank L v < [[0xef]]"
  unfolding value_rank_def Type_def by (cases "Data v") auto

lemma snoc_least:
  fixes xs ys :: "'a::linorder list"
  assumes "\<And>x. x \<in> set xs \<Longrightarrow> m \<le> x"
  shows "ys @ [m] \<le> xs \<longleftrightarrow> ys < xs"
  using assms
proof (induction ys arbitrary: xs)
  case Nil
  show ?case
  proof (cases xs)
    case (Cons x xs')
    with Nil have "m \<le> x" by simp
    with Cons show ?thesis by auto
  qed simp
next
  case (Cons y ys)
  then show ?case by (cases xs) auto
qed

lemma snoc_greatest:
  fixes xs ys :: "'a::linorder list"
  assumes "length ys < length xs \<Longrightarrow> xs ! length ys < m"
  shows "xs < ys @ [m] \<longleftrightarrow> take (length ys) xs \<le> ys"
  using assms
proof (induction ys arbitrary: xs)
  case Nil
  then show ?case by (cases xs) auto
next
  case (Cons y ys)
  then show ?case by (cases xs) auto
qed

abbreviation "row_fits vs \<equiv> length vs < max_ui32"

lemma row_op_rank:
  assumes "row_ok L kinds a" "row_ok L kinds b" "length a \<le> max_ui32" "length b \<le> max_ui32"
  shows "row_lt L (Some a) (Some b) = Inr (row_rank L a < row_rank L b)"
    and "row_le L (Some a) (Some b) = Inr (row_rank L a \<le> row_rank L b)"
    and "row_eq L (Some a) (Some b) = Inr (row_rank L a = row_rank L b)"
proof -
  have t: "sgn (row_cmp L max_ui32 a b) = TernaryCompare (row_rank L a) (row_rank L b)"
    using CompareRows_row_cmp(2) [OF assms(1,2), of max_ui32] assms(3,4) by simp
  note [simp] = CompareRows_row_cmp(1) [OF assms(1,2)]
  show "row_lt L (Some a) (Some b) = Inr (row_rank L a < row_rank L b)"
    "row_le L (Some a) (Some b) = Inr (row_rank L a \<le> row_rank L b)"
    "row_eq L (Some a) (Some b) = Inr (row_rank L a = row_rank L b)"
    using sgn_cmp [OF t] by (simp_all add: row_lt_def row_le_def row_eq_def)
qed

text \<open>C29. The successor of a key is the least key above it: a row is greater than the key
  exactly when it is not less than the successor. For a prefix no longer than the key, the
  successor of the prefix lies above exactly those rows whose prefix of the same length does not
  exceed that of the key, among the rows whose value right after the prefix, if there is one, is not
  the \<open>Max\<close> sentinel: the successor itself has that sentinel there, so a row that has it too is not
  below the successor even when the prefixes agree.\<close>

theorem key_successor_is_least:
  assumes "row_ok L kinds key" "row_ok L kinds x" "row_fits key" "row_fits x"
    and "n \<le> length key" "n < length x \<Longrightarrow> Type (x ! n) \<noteq> VT_Max"
  shows "row_le L (Some (GetKeySuccessor key)) (Some x) = row_lt L (Some key) (Some x) \<and>
    row_lt L (Some x) (Some (GetKeyPrefixSuccessor key n)) =
      rbind (CompareRows L (Some x) (Some key) n) (\<lambda>r. Inr (r \<le> 0))"
proof
  have ok: "row_ok L kinds (GetKeySuccessor key)" "row_ok L kinds (GetKeyPrefixSuccessor key n)"
    using assms(1) by (simp_all add: GetKeySuccessor_eq GetKeyPrefixSuccessor_eq row_ok_append row_ok_take)
  have len: "length (GetKeySuccessor key) \<le> max_ui32" "length (GetKeyPrefixSuccessor key n) \<le> max_ui32"
    using assms(3) by (auto simp: GetKeySuccessor_eq GetKeyPrefixSuccessor_eq)
  show "row_le L (Some (GetKeySuccessor key)) (Some x) = row_lt L (Some key) (Some x)"
    using row_op_rank [OF ok(1) assms(2) len(1)] row_op_rank [OF assms(1,2)] assms(3,4)
      snoc_least [of "row_rank L x" "[[0]]" "row_rank L key"] Min_least [of L]
    by (auto simp: GetKeySuccessor_eq row_rank_def)
  have "row_rank L x < row_rank L (GetKeyPrefixSuccessor key n) \<longleftrightarrow>
    row_rank L (take n x) \<le> row_rank L (take n key)"
    using snoc_greatest [of "row_rank L (take n key)" "row_rank L x" "[[0xef]]"] assms(5,6)
      Max_greatest [of "x ! n" L]
    by (simp add: GetKeyPrefixSuccessor_eq row_rank_def take_map)
  with row_op_rank [OF assms(2) ok(2) _ len(2)] assms(4)
    CompareRows_row_cmp(1) [OF assms(2,1), of n] sgn_cmp(1) [OF CompareRows_row_cmp(2) [OF assms(2,1), of n]]
  show "row_lt L (Some x) (Some (GetKeyPrefixSuccessor key n)) =
      rbind (CompareRows L (Some x) (Some key) n) (\<lambda>r. Inr (r \<le> 0))"
    by simp
qed

theorem key_successor_is_least_witness:
  "row_le sample_lib (Some (GetKeySuccessor [MakeInt64Value 7 0 0]))
     (Some [MakeInt64Value 7 0 0, MakeNullValue 1 0]) =
   row_lt sample_lib (Some [MakeInt64Value 7 0 0]) (Some [MakeInt64Value 7 0 0, MakeNullValue 1 0]) \<and>
   row_lt sample_lib (Some [MakeInt64Value 7 0 0, MakeNullValue 1 0]) (Some (GetKeyPrefixSuccessor [MakeInt64Value 7 0 0] 1)) =
   rbind (CompareRows sample_lib (Some [MakeInt64Value 7 0 0, MakeNullValue 1 0]) (Some [MakeInt64Value 7 0 0]) 1)
     (\<lambda>r. Inr (r \<le> 0))"
proof -
  have ok: "row_ok sample_lib (\<lambda>_. ScalarColumn) [MakeInt64Value 7 0 0]"
    "row_ok sample_lib (\<lambda>_. ScalarColumn) [MakeInt64Value 7 0 0, MakeNullValue 1 0]"
    by (simp_all add: column_value_def)
  have "Type ([MakeInt64Value 7 0 0, MakeNullValue 1 0] ! 1) \<noteq> VT_Max" by (simp add: Type_Make)
  with key_successor_is_least [OF ok, of 1] show ?thesis by simp
qed

end
