(* ===== verification/ValueHash.thy ===== *)
theory ValueHash
  imports FarmHash Rows
begin

text \<open>
  Fingerprints of values and rows: \<open>CompositeFarmHash\<close> of \<open>composite_compare.cpp\<close>,
  \<open>GetFarmFingerprint\<close> of \<open>unversioned_value.cpp\<close> and of \<open>unversioned_row.cpp\<close>.

  Values that compare equal are shown to have equal fingerprints as long as no double is
  involved. Doubles break this in two ways, both shown below: the two zeros compare equal
  but hash differently, and inside a composite value a double discards the hash of
  everything that precedes it.
\<close>

section \<open>Fingerprints of composite values\<close>

definition throwUnexpectedYsonToken :: "TYsonItem \<Rightarrow> 'a res" where
  "throwUnexpectedYsonToken item = Inl (Thrown ''Unexpected YSON token in composite value'')"

abbreviation "open_bracket \<equiv> 0x5B :: u64"
abbreviation "close_bracket \<equiv> 0x5D :: u64"

definition first_item_hash :: "TYsonItem \<Rightarrow> u64 res" where
  "first_item_hash item =
     (case GetType item of
        BeginAttributes \<Rightarrow> throwUnexpectedYsonToken item
      | EndAttributes \<Rightarrow> throwUnexpectedYsonToken item
      | BeginMap \<Rightarrow> throwUnexpectedYsonToken item
      | EndMap \<Rightarrow> throwUnexpectedYsonToken item
      | BeginList \<Rightarrow> Inr (FarmFingerprint open_bracket)
      | EndList \<Rightarrow> Inr (FarmFingerprint close_bracket)
      | EntityValue \<Rightarrow> Inr (FarmFingerprint 0)
      | Int64Value \<Rightarrow> Inr (FarmFingerprint (UncheckedAsInt64 item))
      | Uint64Value \<Rightarrow> Inr (FarmFingerprint (UncheckedAsUint64 item))
      | DoubleValue \<Rightarrow> Inr (FarmFingerprint (UncheckedAsDouble item))
      | BooleanValue \<Rightarrow> Inr (FarmFingerprint (of_bool (UncheckedAsBoolean item)))
      | StringValue \<Rightarrow>
          rbind (FarmFingerprint_buf (UncheckedAsString item)) (\<lambda>h. Inr (FarmFingerprint h))
      | EndOfStream \<Rightarrow> Inl (Fatal ''Y_ABORT''))"

definition next_item_hash :: "u64 \<Rightarrow> TYsonItem \<Rightarrow> u64 res" where
  "next_item_hash result item =
     (case GetType item of
        BeginAttributes \<Rightarrow> throwUnexpectedYsonToken item
      | EndAttributes \<Rightarrow> throwUnexpectedYsonToken item
      | BeginMap \<Rightarrow> throwUnexpectedYsonToken item
      | EndMap \<Rightarrow> throwUnexpectedYsonToken item
      | BeginList \<Rightarrow> Inr (FarmFingerprint2 result open_bracket)
      | EndList \<Rightarrow> Inr (FarmFingerprint2 result close_bracket)
      | EntityValue \<Rightarrow> Inr (FarmFingerprint2 result 0)
      | Int64Value \<Rightarrow> Inr (FarmFingerprint2 (UncheckedAsInt64 item) result)
      | Uint64Value \<Rightarrow> Inr (FarmFingerprint2 result (UncheckedAsUint64 item))
      | DoubleValue \<Rightarrow> Inr (FarmFingerprint (UncheckedAsDouble item))
      | BooleanValue \<Rightarrow> Inr (FarmFingerprint2 result (of_bool (UncheckedAsBoolean item)))
      | StringValue \<Rightarrow>
          rbind (FarmFingerprint_buf (UncheckedAsString item)) (\<lambda>h. Inr (FarmFingerprint2 result h))
      | EndOfStream \<Rightarrow> Inr result)"

function CompositeFarmHash_loop :: "text_lib \<Rightarrow> TYsonPullParser \<Rightarrow> u64 \<Rightarrow> u64 res" where
  "CompositeFarmHash_loop L parser result =
     rbind (Next L parser) (\<lambda>(item, parser).
       rbind (next_item_hash result item) (\<lambda>result.
         if item = Item_Simple EndOfStream then Inr result
         else CompositeFarmHash_loop L parser result))"
  by pat_completeness auto
termination
  by (relation "measure (\<lambda>(L, p, _). length (unread p))") (auto intro!: Next_progress)

declare CompositeFarmHash_loop.simps [simp del]

definition CompositeFarmHash :: "text_lib \<Rightarrow> byte list \<Rightarrow> u64 res" where
  "CompositeFarmHash L v =
     rbind (Next L (memory_parser v)) (\<lambda>(item, parser).
       rbind (first_item_hash item) (CompositeFarmHash_loop L parser))"

section \<open>Fingerprints of values and rows\<close>

definition GetFarmFingerprint :: "text_lib \<Rightarrow> TUnversionedValue \<Rightarrow> u64 res" where
  "GetFarmFingerprint L v =
     (case Data v of
        D_String s \<Rightarrow> FarmFingerprint_buf s
      | D_Int64 x \<Rightarrow> Inr (FarmFingerprint x)
      | D_Uint64 x \<Rightarrow> Inr (FarmFingerprint x)
      | D_Double x \<Rightarrow> Inr (FarmFingerprint x)
      | D_Boolean b \<Rightarrow> Inr (FarmFingerprint (of_bool b))
      | D_Null \<Rightarrow> Inr (FarmFingerprint 0)
      | D_Composite s \<Rightarrow> CompositeFarmHash L s
      | D_Any s \<Rightarrow> CompositeFarmHash L s
      | _ \<Rightarrow> Inl (Thrown ''Cannot hash values of type''))"

definition GetFarmFingerprint_range :: "text_lib \<Rightarrow> TUnversionedValue list \<Rightarrow> u64 res" where
  "GetFarmFingerprint_range L vs = FarmFingerprint_range (GetFarmFingerprint L) vs"

definition GetFarmFingerprint_row :: "text_lib \<Rightarrow> TUnversionedValue list \<Rightarrow> u64 res" where
  "GetFarmFingerprint_row L row = GetFarmFingerprint_range L row"

section \<open>The hash of an item sequence\<close>

fun items_hash :: "u64 \<Rightarrow> TYsonItem list \<Rightarrow> u64 res" where
  "items_hash result [] = Inr result"
| "items_hash result (x # xs) = rbind (next_item_hash result x) (\<lambda>result. items_hash result xs)"

lemma CompositeFarmHash_loop_items:
  assumes "read_items L (SyntaxChecker p) (Lexer p) = Inr xs" "Item_Simple EndOfStream \<notin> set xs"
  shows "CompositeFarmHash_loop L p result = items_hash result xs"
  using assms
proof (induction xs arbitrary: p result)
  case Nil
  obtain p' where "Next L p = Inr (Item_Simple EndOfStream, p')"
    using read_items_Next [OF Nil.prems(1)] by (auto simp: first_item_def)
  then show ?case by (subst CompositeFarmHash_loop.simps) (simp add: next_item_hash_def)
next
  case (Cons x xs)
  obtain item p' where "Next L p = Inr (item, p')" "item = x"
    "item \<noteq> Item_Simple EndOfStream \<Longrightarrow> read_items L (SyntaxChecker p') (Lexer p') = Inr xs"
    using read_items_Next [OF Cons.prems(1)] by (metis first_item_def list.case(2) list.sel(3))
  with Cons.prems(2) Cons.IH show ?case
    by (subst CompositeFarmHash_loop.simps) (auto intro!: rbind_cong)
qed

lemma yson_items_nonempty: "yson_items L bs = Inr items \<Longrightarrow> items \<noteq> []"
  using yson_items_closes by fastforce

lemma CompositeFarmHash_items:
  assumes "yson_items L bs = Inr (x # xs)" "list_all comparable_item (x # xs)"
  shows "CompositeFarmHash L bs = rbind (first_item_hash x) (\<lambda>result. items_hash result xs)"
proof -
  let ?p = "memory_parser bs"
  have r: "read_items L (SyntaxChecker ?p) (Lexer ?p) = Inr (x # xs)"
    using assms(1) by (simp add: yson_items_def parse_yson_def memory_parser_def Let_def)
  have ne: "Item_Simple EndOfStream \<notin> set (x # xs)" using assms(2) by (auto simp: list_all_iff)
  obtain item p' where "Next L ?p = Inr (item, p')" "item = x"
    "item \<noteq> Item_Simple EndOfStream \<Longrightarrow> read_items L (SyntaxChecker p') (Lexer p') = Inr xs"
    using read_items_Next [OF r] by (metis first_item_def list.case(2) list.sel(3))
  with ne CompositeFarmHash_loop_items [of L p' xs] show ?thesis
    by (auto simp: CompositeFarmHash_def intro!: rbind_cong)
qed

lemma items_hash_total:
  "list_all comparable_item xs \<Longrightarrow> \<exists>h. items_hash result xs = Inr h"
proof (induction xs arbitrary: result)
  case (Cons x xs)
  then have "\<exists>h. next_item_hash result x = Inr h"
    using Hash64_total by (cases x) (auto simp: next_item_hash_def FarmFingerprint_buf_def)
  with Cons show ?case by auto
qed simp

lemma first_item_hash_total: "comparable_item x \<Longrightarrow> \<exists>h. first_item_hash x = Inr h"
  using Hash64_total by (cases x) (auto simp: first_item_hash_def FarmFingerprint_buf_def)

lemma items_hash_append:
  "items_hash result (xs @ ys) = rbind (items_hash result xs) (\<lambda>r. items_hash r ys)"
  by (induction xs arbitrary: result) (auto simp: rbind_assoc intro!: rbind_cong)

lemma items_hash_double:
  assumes "list_all comparable_item xs" "list_all comparable_item ys"
  shows "items_hash a (xs @ Item_Double v # zs) = items_hash b (ys @ Item_Double v # zs)"
  using items_hash_total [OF assms(1), of a] items_hash_total [OF assms(2), of b]
  by (auto simp: items_hash_append next_item_hash_def)

text \<open>A double inside a composite value discards the hash of everything before it: two
  composite values that agree from some double on, a double that is not their first item,
  have the same hash whatever precedes it.\<close>

theorem composite_hash_forgets_before_double:
  assumes "yson_items L a = Inr (x # xs @ Item_Double v # zs)"
    and "yson_items L b = Inr (y # ys @ Item_Double v # zs)"
    and "list_all comparable_item (x # xs)" "list_all comparable_item (y # ys)"
    and "list_all comparable_item zs"
  shows "CompositeFarmHash L a = CompositeFarmHash L b"
proof -
  have "list_all comparable_item (x # xs @ Item_Double v # zs)"
    "list_all comparable_item (y # ys @ Item_Double v # zs)"
    using assms(3-5) by simp_all
  note h = CompositeFarmHash_items [OF assms(1) this(1)] CompositeFarmHash_items [OF assms(2) this(2)]
  from assms(3,4) first_item_hash_total [of x] first_item_hash_total [of y]
  obtain hx hy where "first_item_hash x = Inr hx" "first_item_hash y = Inr hy" by auto
  then show ?thesis
    unfolding h using items_hash_double [of xs ys hx v zs hy] assms(3,4) by simp
qed

theorem composite_hash_forgets_before_double_witness:
  "CompositeFarmHash sample_lib [0x5B, 0x02, 0x04, 0x3B, 0x03, 0, 0, 0, 0, 0, 0, 0, 0, 0x5D] =
   CompositeFarmHash sample_lib [0x5B, 0x05, 0x3B, 0x03, 0, 0, 0, 0, 0, 0, 0, 0, 0x5D]"
proof -
  have "yson_items sample_lib [0x5B, 0x02, 0x04, 0x3B, 0x03, 0, 0, 0, 0, 0, 0, 0, 0, 0x5D] =
    Inr (Item_Simple BeginList # [Item_Int64 2] @ Item_Double 0 # [Item_Simple EndList])"
    "yson_items sample_lib [0x5B, 0x05, 0x3B, 0x03, 0, 0, 0, 0, 0, 0, 0, 0, 0x5D] =
    Inr (Item_Simple BeginList # [Item_Boolean True] @ Item_Double 0 # [Item_Simple EndList])"
    by code_simp+
  from composite_hash_forgets_before_double [OF this] show ?thesis by simp
qed

section \<open>Equal values have equal fingerprints\<close>

definition double_free :: "text_lib \<Rightarrow> TUnversionedValue \<Rightarrow> bool" where
  "double_free L v \<longleftrightarrow> Type v \<noteq> VT_Double \<and>
     (Type v = VT_Any \<or> Type v = VT_Composite \<longrightarrow>
        (case yson_items L (AsStringBuf v) of
           Inl _ \<Rightarrow> True | Inr items \<Rightarrow> list_all (\<lambda>x. GetType x \<noteq> DoubleValue) items))"

lemma map_uint_inj: "map uint xs = map uint (ys :: 'a::len word list) \<longleftrightarrow> xs = ys"
  by (simp add: inj_map_eq_map inj_def word_uint_eq_iff)

lemma item_rank_inj:
  assumes "item_rank x = item_rank y" "comparable_item x" "comparable_item y"
    "GetType x \<noteq> DoubleValue" "GetType y \<noteq> DoubleValue"
  shows "x = y"
  using assms
  by (cases x; cases y) (auto simp: map_uint_inj word_uint_eq_iff [symmetric] signed_word_eqI split: if_splits)

lemma items_rank_inj:
  assumes "map item_rank xs = map item_rank ys" "list_all comparable_item xs" "list_all comparable_item ys"
    "list_all (\<lambda>x. GetType x \<noteq> DoubleValue) xs" "list_all (\<lambda>x. GetType x \<noteq> DoubleValue) ys"
  shows "xs = ys"
  using assms
proof (induction xs arbitrary: ys)
  case (Cons x xs)
  then show ?case by (cases ys) (auto intro: item_rank_inj)
qed simp

lemma CompositeFarmHash_eq:
  assumes "yson_rank L a = yson_rank L b" "comparable_yson L a" "comparable_yson L b"
    and "\<And>items. yson_items L a = Inr items \<Longrightarrow> list_all (\<lambda>x. GetType x \<noteq> DoubleValue) items"
    and "\<And>items. yson_items L b = Inr items \<Longrightarrow> list_all (\<lambda>x. GetType x \<noteq> DoubleValue) items"
  shows "\<exists>h. CompositeFarmHash L a = Inr h \<and> CompositeFarmHash L b = Inr h"
proof -
  obtain xs ys where p: "yson_items L a = Inr xs" "yson_items L b = Inr ys"
    and c: "list_all comparable_item xs" "list_all comparable_item ys"
    using assms(2,3) by (auto simp: comparable_yson_def split: sum.splits)
  with assms items_rank_inj [of xs ys] have "xs = ys" by (simp add: yson_rank_def)
  moreover obtain x zs where "xs = x # zs" using yson_items_nonempty [OF p(1)] by (cases xs) auto
  ultimately have "CompositeFarmHash L b = CompositeFarmHash L a" "list_all comparable_item (x # zs)"
    "CompositeFarmHash L a = rbind (first_item_hash x) (\<lambda>result. items_hash result zs)"
    using p c CompositeFarmHash_items by auto
  then show ?thesis using first_item_hash_total [of x] items_hash_total [of zs] by auto
qed

text \<open>C30. Hashing respects equality: two hashable values of a column without doubles that
  compare equal have a fingerprint, and the same one.\<close>

theorem equal_values_hash_equal:
  assumes "column_value L k a" "column_value L k b" "double_free L a" "double_free L b"
    and "\<not> IsSentinel (Type a)" "Type a \<noteq> VT_TheBottom"
    and "CompareRowValues L a b = Inr 0"
  shows "\<exists>h. GetFarmFingerprint L a = Inr h \<and> GetFarmFingerprint L b = Inr h"
proof -
  have rank: "value_rank L a = value_rank L b"
    using CompareRowValues_rank [OF assms(1,2)] assms(7) by simp
  show ?thesis
  proof (cases "Type a = VT_Any \<or> Type a = VT_Composite")
    case True
    with rank have "Type b = Type a \<and> yson_rank L (AsStringBuf a) = yson_rank L (AsStringBuf b)"
      by (cases "Data a"; cases "Data b") (auto simp: value_rank_def Type_def AsStringBuf_def)
    with True assms(1-4) CompositeFarmHash_eq [of L "AsStringBuf a" "AsStringBuf b"]
    show ?thesis
      by (cases "Data a"; cases "Data b")
        (auto simp: GetFarmFingerprint_def Type_def column_value_def double_free_def AsStringBuf_def
          split: sum.splits)
  next
    case False
    with rank assms(3,4) have "Data a = Data b"
      by (cases "Data a"; cases "Data b")
        (auto simp: value_rank_def double_free_def Type_def map_uint_inj signed_word_eqI
          word_uint_eq_iff [symmetric])
    with False assms(3,5,6) Hash64_total show ?thesis
      by (cases "Data b") (auto simp: GetFarmFingerprint_def Type_def IsSentinel_def FarmFingerprint_buf_def)
  qed
qed

theorem equal_values_hash_equal_witness:
  "CompareRowValues sample_lib (MakeStringValue [0x61] 0 0) (MakeStringValue [0x61] 5 0) = Inr 0 \<and>
   (\<exists>h. GetFarmFingerprint sample_lib (MakeStringValue [0x61] 0 0) = Inr h \<and>
      GetFarmFingerprint sample_lib (MakeStringValue [0x61] 5 0) = Inr h)"
proof -
  let ?a = "MakeStringValue [0x61] 0 0" and ?b = "MakeStringValue [0x61] 5 0"
  have "column_value sample_lib ScalarColumn ?a" "column_value sample_lib ScalarColumn ?b"
    "double_free sample_lib ?a" "double_free sample_lib ?b"
    "\<not> IsSentinel (Type ?a)" "Type ?a \<noteq> VT_TheBottom"
    by (simp_all add: column_value_def double_free_def MakeStringValue_def IsSentinel_def)
  moreover have "CompareRowValues sample_lib ?a ?b = Inr 0"
    by (simp add: CompareRowValues_def MakeStringValue_def MakeStringLikeValue_def Type_def)
  ultimately show ?thesis using equal_values_hash_equal by blast
qed

text \<open>Doubles are the exception: the positive and the negative zero compare equal, yet their
  fingerprints differ.\<close>

theorem zeros_compare_equal_hash_differently:
  "CompareRowValues L (MakeDoubleValue 0 i f) (MakeDoubleValue 0x8000000000000000 j g) = Inr 0 \<and>
   GetFarmFingerprint L (MakeDoubleValue 0 i f) \<noteq>
     GetFarmFingerprint L (MakeDoubleValue 0x8000000000000000 j g)"
proof
  have "column_value L ScalarColumn (MakeDoubleValue 0 i f)"
    "column_value L ScalarColumn (MakeDoubleValue 0x8000000000000000 j g)"
    by (simp_all add: column_value_def)
  moreover have "double_rank 0 = double_rank 0x8000000000000000" by code_simp
  ultimately show "CompareRowValues L (MakeDoubleValue 0 i f) (MakeDoubleValue 0x8000000000000000 j g) = Inr 0"
    by (simp add: CompareRowValues_rank value_rank_def MakeDoubleValue_def)
  have "(0::u64) \<noteq> 0x8000000000000000" by simp
  then show "GetFarmFingerprint L (MakeDoubleValue 0 i f) \<noteq>
     GetFarmFingerprint L (MakeDoubleValue 0x8000000000000000 j g)"
    using inj_eq [OF Fingerprint_u64_inj] by (simp add: GetFarmFingerprint_def MakeDoubleValue_def FarmFingerprint_def)
qed

end
