(* ===== verification/RowWire.thy ===== *)
theory RowWire
  imports Rows
begin

text \<open>
  The wire format of values and rows and their checkpoint format: \<open>EstimateRowValueSize\<close>,
  \<open>WriteRowValue\<close>, \<open>ReadRowValue\<close>, \<open>Save\<close>, \<open>Load\<close>, \<open>SerializeToString\<close> and
  \<open>DeserializeFromString\<close> of \<open>unversioned_row.cpp\<close>.

  Values are shown to be a prefix codec, rows to be read back as they were written, with
  the null padding the reader asks for, and the writer to stay inside the buffer that is
  allocated from the size estimate. The wire format does not carry the flags of a value,
  the checkpoint format does.
\<close>

section \<open>Values\<close>

definition MaxVarInt64Size :: nat where
  "MaxVarInt64Size = (8 * 8 - 1) div 7 + 1"

definition InlineHunkTag :: byte where
  "InlineHunkTag = 0"

definition EstimateRowValueSize :: "TUnversionedValue \<Rightarrow> bool \<Rightarrow> nat" where
  "EstimateRowValueSize v isInlineHunkValue =
     (let result = MaxVarUint32Size * 2 in
      case Data v of
        D_Null \<Rightarrow> result | D_Min \<Rightarrow> result | D_Max \<Rightarrow> result | D_TheBottom \<Rightarrow> result
      | D_Int64 _ \<Rightarrow> result + MaxVarInt64Size
      | D_Uint64 _ \<Rightarrow> result + MaxVarInt64Size
      | D_Double _ \<Rightarrow> result + 8
      | D_Boolean _ \<Rightarrow> result + 1
      | D_String s \<Rightarrow> result + (if isInlineHunkValue then 1 else 0) + (MaxVarUint32Size + length s)
      | D_Any s \<Rightarrow> result + (if isInlineHunkValue then 1 else 0) + (MaxVarUint32Size + length s)
      | D_Composite s \<Rightarrow> result + (if isInlineHunkValue then 1 else 0) + (MaxVarUint32Size + length s))"

definition write_string :: "byte list \<Rightarrow> bool \<Rightarrow> byte list" where
  "write_string s isInlineHunkValue =
     WriteVarUint32 (of_nat (length s) + (if isInlineHunkValue then 1 else 0)) @
     (if isInlineHunkValue then [InlineHunkTag] else []) @ s"

definition WriteRowValue :: "TUnversionedValue \<Rightarrow> bool \<Rightarrow> byte list" where
  "WriteRowValue v isInlineHunkValue =
     WriteVarUint32 (ucast (Id v)) @ WriteVarUint32 (of_nat (type_code (Type v))) @
     (case Data v of
        D_Null \<Rightarrow> [] | D_Min \<Rightarrow> [] | D_Max \<Rightarrow> [] | D_TheBottom \<Rightarrow> []
      | D_Int64 x \<Rightarrow> WriteVarInt64 x
      | D_Uint64 x \<Rightarrow> WriteVarUint64 x
      | D_Double x \<Rightarrow> le_bytes 8 x
      | D_Boolean b \<Rightarrow> [if b then 1 else 0]
      | D_String s \<Rightarrow> write_string s isInlineHunkValue
      | D_Any s \<Rightarrow> write_string s isInlineHunkValue
      | D_Composite s \<Rightarrow> write_string s isInlineHunkValue)"

text \<open>Reading \<open>n\<close> bytes through a pointer.\<close>

definition read_bytes :: "nat \<Rightarrow> byte list reader" where
  "read_bytes n input =
     (if n \<le> length input then Inr (take n input, n) else Inl (Undefined ''read behind the buffer''))"

definition ThrowUnexpectedValueType :: "'a res" where
  "ThrowUnexpectedValueType = Inl (Thrown ''Unexpected value type'')"

text \<open>
  The body of \<open>ReadRowValue\<close> after the type. The column id is a \<open>ui32\<close> that is converted to
  \<open>int\<close> and stored in 16 bits.
\<close>

definition read_payload :: "EValueType option \<Rightarrow> int \<Rightarrow> TUnversionedValue reader" where
  "read_payload type cid current =
     (case type of
        None \<Rightarrow> ThrowUnexpectedValueType
      | Some type \<Rightarrow>
          if type \<in> {VT_Null, VT_Min, VT_Max, VT_TheBottom} then
            Inr (MakeSentinelValue type cid 0, 0)
          else if type = VT_Int64 then
            rbind (ReadVarInt64 current) (\<lambda>(x, n). Inr (MakeInt64Value x cid 0, n))
          else if type = VT_Uint64 then
            rbind (ReadVarUint64 current) (\<lambda>(x, n). Inr (MakeUint64Value x cid 0, n))
          else if type = VT_Double then
            rbind (read_bytes 8 current) (\<lambda>(bs, n). Inr (MakeDoubleValue (of_le_bytes bs) cid 0, n))
          else if type = VT_Boolean then
            rbind (read_bytes 1 current) (\<lambda>(bs, n). Inr (MakeBooleanValue (hd bs = 1) cid 0, n))
          else
            rbind (ReadVarUint32 current) (\<lambda>(len, n).
              rbind (read_bytes (unat len) (drop n current)) (\<lambda>(bs, m).
                Inr (MakeStringLikeValue type bs cid 0, n + m))))"

definition ReadRowValue :: "TUnversionedValue reader" where
  "ReadRowValue input =
     rbind (ReadVarUint32 input) (\<lambda>(cid, n).
       rbind (ReadVarUint32 (drop n input)) (\<lambda>(typeValue, m).
         rbind (read_payload (type_of_code (unat (ucast typeValue :: byte))) (sint cid)
             (drop (n + m) input)) (\<lambda>(v, k).
           Inr (v, n + m + k))))"

section \<open>The checkpoint format\<close>

fun data_bits :: "TUnversionedValueData \<Rightarrow> u64" where
  "data_bits (D_Int64 x) = x"
| "data_bits (D_Uint64 x) = x"
| "data_bits (D_Double x) = x"
| "data_bits (D_Boolean b) = of_bool b"
| "data_bits _ = 0"

text \<open>The first eight bytes of the structure: \<open>Id\<close>, \<open>Type\<close>, \<open>Flags\<close> and \<open>Length\<close>.\<close>

definition value_image :: "TUnversionedValue \<Rightarrow> byte list" where
  "value_image v =
     le_bytes 2 (Id v) @ [of_nat (type_code (Type v)), Flags v] @
     le_bytes 4 (of_nat (length (AsStringBuf v)) :: u32)"

definition Save_value :: "TUnversionedValue \<Rightarrow> byte list" where
  "Save_value v =
     (if IsStringLikeType (Type v) then value_image v @ AsStringBuf v
      else value_image v @ le_bytes 8 (data_bits (Data v)))"

definition load_bytes :: "nat \<Rightarrow> byte list reader" where
  "load_bytes n input =
     (if n \<le> length input then Inr (take n input, n) else Inl (Fatal ''Load == size''))"

fun scalar_data :: "EValueType \<Rightarrow> u64 \<Rightarrow> TUnversionedValueData" where
  "scalar_data VT_Int64 x = D_Int64 x"
| "scalar_data VT_Uint64 x = D_Uint64 x"
| "scalar_data VT_Double x = D_Double x"
| "scalar_data VT_Boolean x = D_Boolean ((ucast x :: byte) \<noteq> 0)"
| "scalar_data type x = zero_data type"

definition Load_value :: "TUnversionedValue reader" where
  "Load_value input =
     rbind (load_bytes 8 input) (\<lambda>(h, n).
       let cid = of_le_bytes (take 2 h); flags = h ! 3; len = of_le_bytes (drop 4 h) :: u32 in
       case type_of_code (unat (h ! 2)) of
         None \<Rightarrow> Inl (Undefined ''invalid value type'')
       | Some type \<Rightarrow>
           if IsStringLikeType type then
             rbind (load_bytes (unat len) (drop n input)) (\<lambda>(s, m).
               Inr (\<lparr>Id = cid, Flags = flags, Data = string_data type s\<rparr>, n + m))
           else
             rbind (load_bytes 8 (drop n input)) (\<lambda>(bs, m).
               Inr (\<lparr>Id = cid, Flags = flags, Data = scalar_data type (of_le_bytes bs)\<rparr>, n + m)))"

section \<open>Rows\<close>

definition GetUnversionedRowByteSizeForWire :: "TUnversionedValue list \<Rightarrow> nat" where
  "GetUnversionedRowByteSizeForWire vs =
     foldl (\<lambda>sz v. sz + EstimateRowValueSize v False) (2 * MaxVarUint32Size) vs"

definition SerializeRowToBuffer :: "TUnversionedValue list \<Rightarrow> byte list" where
  "SerializeRowToBuffer vs =
     foldl (\<lambda>dst v. dst @ WriteRowValue v False)
       (WriteVarUint32 0 @ WriteVarUint32 (of_nat (length vs))) vs"

text \<open>A write behind the buffer of the estimated size would be undefined.\<close>

definition SerializeToString_range :: "TUnversionedValue list \<Rightarrow> byte list res" where
  "SerializeToString_range vs =
     (let dst = SerializeRowToBuffer vs in
      if length dst \<le> GetUnversionedRowByteSizeForWire vs then Inr dst
      else Inl (Undefined ''write behind the buffer''))"

definition SerializedNullRow :: "byte list" where
  "SerializedNullRow = []"

definition SerializeToString :: "TUnversionedRow \<Rightarrow> byte list res" where
  "SerializeToString row =
     (case row of Some vs \<Rightarrow> SerializeToString_range vs | None \<Rightarrow> Inr SerializedNullRow)"

definition ReadUnversionedRowHeaderFromBuffer :: "u32 reader" where
  "ReadUnversionedRowHeaderFromBuffer input =
     rbind (ReadVarUint32 input) (\<lambda>(version, n).
       rbind (verify (version = 0) ''version == 0'') (\<lambda>_.
         rbind (ReadVarUint32 (drop n input)) (\<lambda>(valueCount, m). Inr (valueCount, n + m))))"

definition ReadUnversionedValueFromBuffer :: "TUnversionedValue reader" where
  "ReadUnversionedValueFromBuffer input = ReadRowValue input"

text \<open>
  The value count is read as \<open>ui32\<close> and compared as \<open>int\<close>: from \<open>2 ^ 31\<close> on no value would
  be read into the row, which is left uninitialised.
\<close>

definition DeserializeFromString :: "byte list \<Rightarrow> int option \<Rightarrow> TUnversionedRow res" where
  "DeserializeFromString bs nullPaddingWidth =
     (if bs = SerializedNullRow then Inr None
      else rbind (ReadUnversionedRowHeaderFromBuffer bs) (\<lambda>(valueCount, n).
        let nullCount =
              (case nullPaddingWidth of Some w \<Rightarrow> max 0 (w - sint valueCount) | None \<Rightarrow> 0) in
        if sint valueCount < 0 then Inl (Undefined ''uninitialised values'')
        else rbind (read_many ReadUnversionedValueFromBuffer (unat valueCount) (drop n bs)) (\<lambda>(vs, _).
          Inr (Some (vs @ map (\<lambda>index. MakeNullValue index 0)
            [sint valueCount..sint valueCount + nullCount - 1])))))"

text \<open>The overload that captures the values into a row buffer, without padding.\<close>

definition DeserializeFromString_captured :: "byte list \<Rightarrow> TUnversionedRow res" where
  "DeserializeFromString_captured bs =
     (if bs = SerializedNullRow then Inr None
      else rbind (ReadUnversionedRowHeaderFromBuffer bs) (\<lambda>(valueCount, n).
        if sint valueCount < 0 then Inl (Undefined ''uninitialised values'')
        else rbind (read_many ReadUnversionedValueFromBuffer (unat valueCount) (drop n bs)) (\<lambda>(vs, _).
          Inr (Some vs))))"

section \<open>Values are read back\<close>

text \<open>The wire format has no place for flags and 32 bits for lengths.\<close>

definition wire_value :: "TUnversionedValue \<Rightarrow> bool" where
  "wire_value v \<longleftrightarrow> Flags v = 0 \<and> value_ok v"

lemma drop_append_length [simp]: "drop (length xs + n) (xs @ ys) = drop n ys"
  by simp

lemma of_int_sint_ucast: "(scast (ucast (w::u16) :: u32) :: u16) = w"
  by (rule bit_word_eqI) (simp add: bit_simps)

lemma type_of_code_byte: "type_of_code (unat (ucast (of_nat (type_code type) :: u32) :: byte)) = Some type"
  by (cases type; hypsubst; code_simp)

lemma read_bytes_append [simp]: "read_bytes (length xs) (xs @ ys) = Inr (xs, length xs)"
  by (simp add: read_bytes_def)

lemma read_string:
  assumes "length s < 2 ^ 32"
  shows "ReadVarUint32 (write_string s False @ rest) =
      Inr (of_nat (length s), length (WriteVarUint32 (of_nat (length s))))"
    and "unat (of_nat (length s) :: u32) = length s"
  using assms varuint32.dec_enc [of "of_nat (length s)" "s @ rest"]
  by (simp_all add: write_string_def unsigned_of_nat take_bit_eq_mod)

lemma read_payload_write:
  assumes "wire_value v"
  shows "read_payload (Some (Type v)) (sint (ucast (Id v) :: u32))
    (drop (length (WriteVarUint32 (ucast (Id v))) + length (WriteVarUint32 (of_nat (type_code (Type v)))))
       (WriteRowValue v False) @ rest) =
   Inr (v, length (WriteRowValue v False) - length (WriteVarUint32 (ucast (Id v))) -
     length (WriteVarUint32 (of_nat (type_code (Type v)))))"
proof -
  note defs = read_payload_def Type_def MakeSentinelValue_def MakeInt64Value_def MakeUint64Value_def
    MakeDoubleValue_def MakeBooleanValue_def WriteRowValue_def of_int_sint_ucast
  obtain i d where v: "v = \<lparr>Id = i, Flags = 0, Data = d\<rparr>"
    using assms by (cases v) (auto simp: wire_value_def)
  have str: "read_payload (Some type) (sint (ucast i :: u32)) (write_string s False @ rest) =
    Inr (\<lparr>Id = i, Flags = 0, Data = string_data type s\<rparr>, length (write_string s False))"
    if "IsStringLikeType type" "length s < 2 ^ 32" for type s
  proof -
    have "drop (length (WriteVarUint32 (of_nat (length s)))) (write_string s False @ rest) = s @ rest"
      by (simp add: write_string_def)
    with that read_string [OF that(2)] show ?thesis
      by (auto simp: read_payload_def IsStringLikeType_def IsAnyOrComposite_def MakeStringLikeValue_def
          of_int_sint_ucast write_string_def)
  qed
  show ?thesis
  proof (cases d)
    case (D_Double x)
    then show ?thesis
      using read_bytes_append [of "le_bytes 8 x" rest] of_le_bytes_le_bytes [of 8 x]
      by (simp add: v defs take_bit_word_eq_self)
  next
    case (D_Boolean b)
    then show ?thesis using read_bytes_append [of "[if b then 1 else 0]" rest] by (simp add: v defs)
  next
    case (D_String s)
    with assms str [of VT_String s] show ?thesis
      by (simp add: v WriteRowValue_def Type_def wire_value_def value_ok_def AsStringBuf_def IsStringLikeType_def)
  next
    case (D_Any s)
    with assms str [of VT_Any s] show ?thesis
      by (simp add: v WriteRowValue_def Type_def wire_value_def value_ok_def AsStringBuf_def
          IsStringLikeType_def IsAnyOrComposite_def)
  next
    case (D_Composite s)
    with assms str [of VT_Composite s] show ?thesis
      by (simp add: v WriteRowValue_def Type_def wire_value_def value_ok_def AsStringBuf_def
          IsStringLikeType_def IsAnyOrComposite_def)
  qed (simp_all add: v defs varint64.dec_enc varuint64.dec_enc)
qed

lemma ReadRowValue_Write:
  assumes "wire_value v"
  shows "ReadRowValue (WriteRowValue v False @ rest) = Inr (v, length (WriteRowValue v False))"
proof -
  let ?i = "WriteVarUint32 (ucast (Id v))" and ?t = "WriteVarUint32 (of_nat (type_code (Type v)))"
  obtain p where p: "WriteRowValue v False = ?i @ ?t @ p" by (auto simp: WriteRowValue_def)
  have i: "ReadVarUint32 (WriteRowValue v False @ rest) = Inr (ucast (Id v), length ?i)"
    using varuint32.dec_enc [of "ucast (Id v)" "?t @ p @ rest"] by (simp add: p)
  have t: "ReadVarUint32 (drop (length ?i) (WriteRowValue v False @ rest)) =
    Inr (of_nat (type_code (Type v)), length ?t)"
    using varuint32.dec_enc [of "of_nat (type_code (Type v))" "p @ rest"] by (simp add: p)
  have d: "drop (length ?i + length ?t) (WriteRowValue v False @ rest) =
    drop (length ?i + length ?t) (WriteRowValue v False) @ rest" by (simp add: p)
  show ?thesis
    unfolding ReadRowValue_def i rbind_Inr prod.case t type_of_code_byte d read_payload_write [OF assms]
    by (simp add: p)
qed

interpretation row_value: codec "\<lambda>v. WriteRowValue v False" ReadRowValue wire_value
  by unfold_locales (rule ReadRowValue_Write)

section \<open>The size estimate\<close>

lemma length_WriteRowValue: "length (WriteRowValue v h) \<le> EstimateRowValueSize v h"
proof -
  have u: "length (WriteVarUint32 x) \<le> 5" "length (WriteVarUint64 y) \<le> 10"
    "length (WriteVarInt64 z) \<le> 10" for x y z
    using length_WriteVarUint32(2) [of x] length_WriteVarUint64(2) [of y]
      length_WriteVarUint64(2) [of "ZigZagEncode64 z"] by (simp_all add: WriteVarInt64_def)
  have wl: "length (write_string s h) \<le> 5 + (if h then 1 else 0) + length s" for s
    using u(1) by (simp add: write_string_def)
  note defs = WriteRowValue_def EstimateRowValueSize_def MaxVarUint32Size_def MaxVarInt64Size_def Let_def
  note head = add_mono [OF u(1) [of "ucast (Id v)"] u(1) [of "of_nat (type_code (Type v))"]]
  show ?thesis
  proof (cases "Data v")
    case (D_Int64 x) then show ?thesis using head u(3) [of x] by (simp add: defs)
  next
    case (D_Uint64 x) then show ?thesis using head u(2) [of x] by (simp add: defs)
  next
    case (D_String s) then show ?thesis using head wl [of s] by (simp add: defs)
  next
    case (D_Any s) then show ?thesis using head wl [of s] by (simp add: defs)
  next
    case (D_Composite s) then show ?thesis using head wl [of s] by (simp add: defs)
  qed (use head in \<open>simp_all add: defs\<close>)
qed

lemma foldl_write:
  "foldl (\<lambda>dst v. dst @ WriteRowValue v False) dst vs = dst @ concat (map (\<lambda>v. WriteRowValue v False) vs)"
  by (induction vs arbitrary: dst) simp_all

lemma SerializeRowToBuffer_eq:
  "SerializeRowToBuffer vs = WriteVarUint32 0 @ WriteVarUint32 (of_nat (length vs)) @
     concat (map (\<lambda>v. WriteRowValue v False) vs)"
  by (simp add: SerializeRowToBuffer_def foldl_write)

lemma GetUnversionedRowByteSizeForWire_eq:
  "GetUnversionedRowByteSizeForWire vs = 10 + sum_list (map (\<lambda>v. EstimateRowValueSize v False) vs)"
  by (simp add: GetUnversionedRowByteSizeForWire_def foldl_plus MaxVarUint32Size_def)

lemma SerializeRowToBuffer_fits:
  "length (SerializeRowToBuffer vs) \<le> GetUnversionedRowByteSizeForWire vs"
proof -
  have "length (concat (map (\<lambda>v. WriteRowValue v False) vs)) \<le>
    sum_list (map (\<lambda>v. EstimateRowValueSize v False) vs)"
    by (induction vs) (use length_WriteRowValue in \<open>auto intro: add_mono\<close>)
  with length_WriteVarUint32(2) [of 0] length_WriteVarUint32(2) [of "of_nat (length vs)"]
  show ?thesis
    by (simp add: SerializeRowToBuffer_eq GetUnversionedRowByteSizeForWire_eq)
qed

section \<open>Rows are read back\<close>

lemma read_header:
  "ReadUnversionedRowHeaderFromBuffer (WriteVarUint32 0 @ WriteVarUint32 n @ rest) =
     Inr (n, length (WriteVarUint32 0) + length (WriteVarUint32 n))"
  by (simp add: ReadUnversionedRowHeaderFromBuffer_def varuint32.dec_enc)

lemma WriteVarUint32_not_Nil [simp]: "WriteVarUint32 n \<noteq> []"
  using length_WriteVarUint32(1) [of n] by auto

lemma DeserializeFromString_Serialize:
  assumes "list_all wire_value vs" "length vs < 2 ^ 31"
  shows "DeserializeFromString (SerializeRowToBuffer vs) w =
    Inr (Some (vs @ map (\<lambda>index. MakeNullValue index 0)
      [int (length vs)..(case w of Some w \<Rightarrow> max (int (length vs)) w | None \<Rightarrow> int (length vs)) - 1]))"
proof -
  have n: "sint (of_nat (length vs) :: u32) = int (length vs)" "unat (of_nat (length vs) :: u32) = length vs"
    using assms(2) by (simp_all add: sint_of_nat_u32 unsigned_of_nat take_bit_eq_mod)
  have "read_many ReadRowValue (length vs) (concat (map (\<lambda>v. WriteRowValue v False) vs)) =
    Inr (vs, length (concat (map (\<lambda>v. WriteRowValue v False) vs)))"
    using row_value.read_many_enc [of vs "[]"] assms(1) by (simp add: list_all_iff)
  moreover have "int (length vs) + max 0 (x - int (length vs)) = max (int (length vs)) x" for x by simp
  ultimately show ?thesis
    using n by (simp add: DeserializeFromString_def SerializeRowToBuffer_eq SerializedNullRow_def read_header
        ReadUnversionedValueFromBuffer_def [abs_def] split: option.splits)
qed

text \<open>C4. Serialising a row never writes behind the buffer of the estimated size, and reading the
  result gives the same row, null or not, followed by as many nulls as the requested
  padding width asks for; the column ids of the padding continue the positions. Flags are
  not part of the format.\<close>

theorem row_wire_roundtrip:
  assumes "list_all wire_value vs" "length vs < 2 ^ 31"
  shows "\<exists>bs. SerializeToString (Some vs) = Inr bs \<and> DeserializeFromString bs None = Inr (Some vs) \<and>
      DeserializeFromString_captured bs = Inr (Some vs) \<and>
      DeserializeFromString bs (Some (int width)) =
        Inr (Some (vs @ map (\<lambda>i. MakeNullValue (int i) 0) [length vs..<width])) \<and>
      (\<exists>null. SerializeToString None = Inr null \<and> DeserializeFromString null None = Inr None \<and> null \<noteq> bs)"
proof -
  have ser: "SerializeToString (Some vs) = Inr (SerializeRowToBuffer vs)"
    by (simp add: SerializeToString_def SerializeToString_range_def SerializeRowToBuffer_fits Let_def)
  have pad: "[int (length vs)..max (int (length vs)) (int width) - 1] = map int [length vs..<width]"
    by (rule nth_equalityI) (auto simp: max_def split: if_splits)
  have cap: "DeserializeFromString_captured (SerializeRowToBuffer vs) =
    DeserializeFromString (SerializeRowToBuffer vs) None"
    by (auto simp: DeserializeFromString_def DeserializeFromString_captured_def intro!: rbind_cong)
  have null: "SerializeToString None = Inr []" "DeserializeFromString [] None = Inr None"
    "[] \<noteq> SerializeRowToBuffer vs"
    by (simp_all add: SerializeToString_def DeserializeFromString_def SerializedNullRow_def
        SerializeRowToBuffer_eq)
  with ser cap DeserializeFromString_Serialize [OF assms, of None]
    DeserializeFromString_Serialize [OF assms, of "Some (int width)"] show ?thesis
    by (intro exI [of _ "SerializeRowToBuffer vs"] conjI exI [of _ "[]"]) (simp_all add: pad comp_def)
qed

theorem row_wire_roundtrip_witness:
  "\<exists>bs. SerializeToString (Some [MakeInt64Value 5 1 0, MakeStringValue [0x61] 2 0]) = Inr bs \<and>
     DeserializeFromString bs (Some 3) =
       Inr (Some [MakeInt64Value 5 1 0, MakeStringValue [0x61] 2 0, MakeNullValue 2 0])"
proof -
  let ?vs = "[MakeInt64Value 5 1 0, MakeStringValue [0x61] 2 0]"
  have "list_all wire_value ?vs"
    by (simp add: wire_value_def MakeStringValue_def)
      (simp add: MakeInt64Value_def MakeStringLikeValue_def value_ok_def AsStringBuf_def)
  moreover have "length ?vs < 2 ^ 31" by simp
  ultimately show ?thesis using row_wire_roundtrip [of ?vs 3] by (auto simp: upt_rec)
qed

section \<open>Checkpointed values are read back\<close>

lemma of_le_bytes_le_bytes_full:
  "LENGTH('a) \<le> 8 * n \<Longrightarrow> of_le_bytes (le_bytes n (w :: 'a::len word)) = w"
proof -
  have "of_le_bytes (le_bytes n w) = take_bit (8 * n) w" for w :: "'a word"
  proof (induction n arbitrary: w)
    case (Suc n)
    show ?case by (rule bit_word_eqI) (auto simp: Suc.IH bit_simps)
  qed simp
  then show "LENGTH('a) \<le> 8 * n \<Longrightarrow> ?thesis" by (simp add: take_bit_word_eq_self)
qed

lemma load_bytes_append [simp]: "load_bytes (length xs) (xs @ ys) = Inr (xs, length xs)"
  by (simp add: load_bytes_def)

lemma value_image_parts:
  "length (value_image v) = 8"
  "take 2 (value_image v) = le_bytes 2 (Id v)" "value_image v ! 3 = Flags v"
  "value_image v ! 2 = of_nat (type_code (Type v))"
  "drop 4 (value_image v) = le_bytes 4 (of_nat (length (AsStringBuf v)) :: u32)"
  by (simp_all add: value_image_def nth_append)

lemma type_of_code_image: "type_of_code (unat (of_nat (type_code type) :: byte)) = Some type"
  by (cases type; hypsubst; code_simp)

lemma data_of_parts:
  "IsStringLikeType (data_type d) \<Longrightarrow> string_data (data_type d) (data_string d) = d"
  "\<not> IsStringLikeType (data_type d) \<Longrightarrow> scalar_data (data_type d) (data_bits d) = d"
  by (cases d; simp add: IsStringLikeType_def IsAnyOrComposite_def)+

lemma Load_Save:
  assumes "value_ok v"
  shows "Load_value (Save_value v @ rest) = Inr (v, length (Save_value v))"
proof -
  obtain tail where t: "Save_value v = value_image v @ tail"
    "tail = (if IsStringLikeType (Type v) then AsStringBuf v else le_bytes 8 (data_bits (Data v)))"
    by (simp add: Save_value_def)
  have h: "load_bytes 8 (Save_value v @ rest) = Inr (value_image v, 8)"
    using load_bytes_append [of "value_image v" "tail @ rest"] by (simp add: t value_image_parts(1))
  have len: "unat (of_nat (length (AsStringBuf v)) :: u32) = length (AsStringBuf v)"
    using assms by (simp add: value_ok_def unsigned_of_nat take_bit_eq_mod)
  have bytes: "load_bytes 8 (le_bytes 8 (x::u64) @ rest) = Inr (le_bytes 8 x, 8)" for x
    using load_bytes_append [of "le_bytes 8 x" rest] by simp
  have d: "drop 8 (Save_value v @ rest) = tail @ rest" "length (Save_value v) = 8 + length tail"
    by (simp_all add: t(1) value_image_parts(1))
  show ?thesis
    unfolding Load_value_def h rbind_Inr prod.case Let_def value_image_parts
      type_of_code_image option.case d
    using len bytes data_of_parts [of "Data v"]
    by (simp add: t(2) of_le_bytes_le_bytes_full Type_def AsStringBuf_def)
qed

interpretation saved_value: codec Save_value Load_value value_ok
  by unfold_locales (rule Load_Save)

fun map_string :: "(byte list \<Rightarrow> byte list) \<Rightarrow> TUnversionedValueData \<Rightarrow> TUnversionedValueData" where
  "map_string f (D_String s) = D_String (f s)"
| "map_string f (D_Any s) = D_Any (f s)"
| "map_string f (D_Composite s) = D_Composite (f s)"
| "map_string f d = d"

lemma WriteRowValue_Flags: "WriteRowValue (v\<lparr>Flags := f\<rparr>) h = WriteRowValue v h"
  by (simp add: WriteRowValue_def Type_def)

lemma WriteRowValue_inline:
  "WriteRowValue v True = WriteRowValue (v\<lparr>Data := map_string ((#) InlineHunkTag) (Data v)\<rparr>) False"
  by (cases "Data v") (simp_all add: WriteRowValue_def Type_def write_string_def add.commute)

text \<open>Every value survives both formats in front of any continuation: the checkpoint format
  reproduces it exactly, the wire format up to its flags, and a value written as an inline
  hunk is read back with the inline tag in front of its string.\<close>

theorem value_formats_roundtrip:
  assumes "length (AsStringBuf v) + 1 < 2 ^ 32"
  shows "Load_value (Save_value v @ rest) = Inr (v, length (Save_value v)) \<and>
    ReadRowValue (WriteRowValue v False @ rest) =
      Inr (v\<lparr>Flags := 0\<rparr>, length (WriteRowValue v False)) \<and>
    ReadRowValue (WriteRowValue v True @ rest) =
      Inr (v\<lparr>Data := map_string ((#) InlineHunkTag) (Data v), Flags := 0\<rparr>, length (WriteRowValue v True))"
proof -
  let ?h = "v\<lparr>Data := map_string ((#) InlineHunkTag) (Data v), Flags := 0\<rparr>"
  have "value_ok v" "wire_value (v\<lparr>Flags := 0\<rparr>)"
    using assms by (simp_all add: value_ok_def wire_value_def AsStringBuf_def)
  moreover have "wire_value ?h"
    using assms by (cases "Data v") (simp_all add: value_ok_def wire_value_def AsStringBuf_def)
  moreover have "WriteRowValue v True = WriteRowValue ?h False"
    using WriteRowValue_Flags [of 0 "v\<lparr>Data := map_string ((#) InlineHunkTag) (Data v)\<rparr>" False]
    by (simp add: WriteRowValue_inline [of v])
  ultimately show ?thesis
    using saved_value.dec_enc [of v rest] row_value.dec_enc [of "v\<lparr>Flags := 0\<rparr>" rest]
      row_value.dec_enc [of ?h rest]
    by (simp add: WriteRowValue_Flags)
qed

theorem value_formats_roundtrip_witness:
  "ReadRowValue (WriteRowValue (MakeStringValue [0x61] 3 1) True @ [0x7F]) =
     Inr (MakeStringValue [0x00, 0x61] 3 0, 5)"
proof -
  let ?v = "MakeStringValue [0x61] 3 1"
  have "length (AsStringBuf ?v) + 1 < 2 ^ 32"
    by (simp add: MakeStringValue_def MakeStringLikeValue_def AsStringBuf_def)
  moreover have "length (WriteRowValue \<lparr>Id = 3, Flags = 1, Data = D_String [0x61]\<rparr> True) = 5" by code_simp
  ultimately show ?thesis
    using value_formats_roundtrip [of ?v "[0x7F]"]
    by (simp add: MakeStringValue_def MakeStringLikeValue_def InlineHunkTag_def)
qed

end
