(* ===== verification/RowBuilder.thy ===== *)
theory RowBuilder
  imports Rows
begin

text \<open>
  The row builders: \<open>TUnversionedRowBuilder\<close>, \<open>TUnversionedOwningRowBuilder\<close> and
  \<open>TUnversionedOwningRow::Init\<close> of \<open>unversioned_row.cpp\<close>.

  The owning builder copies strings into one growing buffer and stores raw pointers into
  it, so every reallocation of the buffer has to move the pointers of all values added so
  far. The model keeps the addresses: a string value holds the address of its first byte,
  the buffer has a base address and the allocator is an argument that may return any
  address. Building is shown to implement appending to a list of values, for every
  behaviour of the allocator.
\<close>

section \<open>Stored values\<close>

datatype raw_data = RawScalar TUnversionedValueData | RawString EValueType int nat

record raw_value =
  RawId :: u16
  RawFlags :: byte
  RawData :: raw_data

record TBlob =
  Begin :: int
  Bytes :: "byte list"

text \<open>Reading a string through its pointer; the pointer has to lie inside the buffer.\<close>

definition deref :: "TBlob \<Rightarrow> int \<Rightarrow> nat \<Rightarrow> byte list res" where
  "deref blob p len =
     (if Begin blob \<le> p \<and> p + int len \<le> Begin blob + int (length (Bytes blob))
      then Inr (take len (drop (nat (p - Begin blob)) (Bytes blob)))
      else Inl (Undefined ''dangling string pointer''))"

definition load_value :: "TBlob \<Rightarrow> raw_value \<Rightarrow> TUnversionedValue res" where
  "load_value blob r =
     (case RawData r of
        RawScalar d \<Rightarrow> Inr \<lparr>Id = RawId r, Flags = RawFlags r, Data = d\<rparr>
      | RawString type p len \<Rightarrow>
          rbind (deref blob p len) (\<lambda>s. Inr \<lparr>Id = RawId r, Flags = RawFlags r, Data = string_data type s\<rparr>))"

fun load_values :: "TBlob \<Rightarrow> raw_value list \<Rightarrow> TUnversionedValue list res" where
  "load_values blob [] = Inr []"
| "load_values blob (r # rs) =
     rbind (load_value blob r) (\<lambda>v. rbind (load_values blob rs) (\<lambda>vs. Inr (v # vs)))"

definition raw_of :: "TUnversionedValue \<Rightarrow> int \<Rightarrow> raw_value" where
  "raw_of v p =
     \<lparr>RawId = Id v, RawFlags = Flags v,
      RawData = (if IsStringLikeType (Type v) then RawString (Type v) p (length (AsStringBuf v))
                 else RawScalar (Data v))\<rparr>"

section \<open>The plain builder\<close>

text \<open>It stores the values as they are and does not own their strings.\<close>

record TUnversionedRowBuilder =
  PlainCapacity :: nat
  PlainValues :: "TUnversionedValue list"

definition mk_TUnversionedRowBuilder :: "nat \<Rightarrow> TUnversionedRowBuilder" where
  "mk_TUnversionedRowBuilder initialValueCapacity =
     \<lparr>PlainCapacity = initialValueCapacity, PlainValues = []\<rparr>"

definition grown :: "nat \<Rightarrow> nat \<Rightarrow> nat" where
  "grown count capacity = (if count = capacity then 2 * max 1 capacity else capacity)"

definition AddValue_plain :: "TUnversionedRowBuilder \<Rightarrow> TUnversionedValue \<Rightarrow> (nat \<times> TUnversionedRowBuilder) res" where
  "AddValue_plain b v =
     (let count = length (PlainValues b); capacity = grown count (PlainCapacity b) in
      if count < capacity then
        Inr (count, \<lparr>PlainCapacity = capacity, PlainValues = PlainValues b @ [v]\<rparr>)
      else Inl (Undefined ''write behind the row''))"

definition Reset_plain :: "TUnversionedRowBuilder \<Rightarrow> TUnversionedRowBuilder" where
  "Reset_plain b = b\<lparr>PlainValues := []\<rparr>"

section \<open>The owning builder\<close>

record TUnversionedOwningRowBuilder =
  InitialValueCapacity :: nat
  Capacity :: nat
  Values :: "raw_value list"
  StringData :: TBlob

definition mk_TUnversionedOwningRowBuilder :: "nat \<Rightarrow> TUnversionedOwningRowBuilder" where
  "mk_TUnversionedOwningRowBuilder initialValueCapacity =
     \<lparr>InitialValueCapacity = initialValueCapacity, Capacity = initialValueCapacity, Values = [],
      StringData = \<lparr>Begin = 0, Bytes = []\<rparr>\<rparr>"

fun rebase :: "int \<Rightarrow> int \<Rightarrow> raw_value \<Rightarrow> raw_value" where
  "rebase newPtr oldPtr r =
     (case RawData r of
        RawScalar _ \<Rightarrow> r
      | RawString type p len \<Rightarrow> r\<lparr>RawData := RawString type (newPtr + (p - oldPtr)) len\<rparr>)"

text \<open>The allocator: the address of the buffer after it has grown to the given bytes.\<close>

type_synonym allocator = "TBlob \<Rightarrow> byte list \<Rightarrow> int"

definition Append :: "allocator \<Rightarrow> TBlob \<Rightarrow> byte list \<Rightarrow> TBlob" where
  "Append alloc blob s = \<lparr>Begin = alloc blob s, Bytes = Bytes blob @ s\<rparr>"

definition AddValue ::
  "allocator \<Rightarrow> TUnversionedOwningRowBuilder \<Rightarrow> TUnversionedValue \<Rightarrow>
   (nat \<times> TUnversionedOwningRowBuilder) res" where
  "AddValue alloc b v =
     (let count = length (Values b); capacity = grown count (Capacity b) in
      if \<not> count < capacity then Inl (Undefined ''write behind the row'')
      else if IsStringLikeType (Type v) then
        (let oldStringDataPtr = Begin (StringData b);
             oldStringDataLength = length (Bytes (StringData b));
             stringData = Append alloc (StringData b) (AsStringBuf v);
             newStringDataPtr = Begin stringData;
             newValue = raw_of v (newStringDataPtr + int oldStringDataLength);
             existing = (if newStringDataPtr \<noteq> oldStringDataPtr
                         then map (rebase newStringDataPtr oldStringDataPtr) (Values b) else Values b)
         in Inr (count, b\<lparr>Capacity := capacity, Values := existing @ [newValue], StringData := stringData\<rparr>))
      else Inr (count, b\<lparr>Capacity := capacity, Values := Values b @ [raw_of v 0]\<rparr>))"

definition Reset :: "TUnversionedOwningRowBuilder \<Rightarrow> TUnversionedOwningRowBuilder" where
  "Reset b = b\<lparr>Capacity := InitialValueCapacity b, Values := []\<rparr>"

text \<open>The row takes the buffers over, which leaves the string buffer of the builder empty.\<close>

type_synonym TUnversionedOwningRow = "raw_value list \<times> TBlob"

definition FinishRow ::
  "TUnversionedOwningRowBuilder \<Rightarrow> TUnversionedOwningRow \<times> TUnversionedOwningRowBuilder" where
  "FinishRow b =
     ((Values b, StringData b), Reset (b\<lparr>StringData := \<lparr>Begin = 0, Bytes = []\<rparr>\<rparr>))"

definition row_values :: "TUnversionedOwningRow \<Rightarrow> TUnversionedValue list res" where
  "row_values row = load_values (snd row) (fst row)"

section \<open>Copying a row\<close>

fun copy_strings :: "int \<Rightarrow> TUnversionedValue list \<Rightarrow> raw_value list \<times> byte list" where
  "copy_strings current [] = ([], [])"
| "copy_strings current (v # vs) =
     (if IsStringLikeType (Type v) then
        (case copy_strings (current + int (length (AsStringBuf v))) vs of
           (rs, bs) \<Rightarrow> (raw_of v current # rs, AsStringBuf v @ bs))
      else (case copy_strings current vs of (rs, bs) \<Rightarrow> (raw_of v 0 # rs, bs)))"

definition Init :: "int \<Rightarrow> TUnversionedValue list \<Rightarrow> TUnversionedOwningRow" where
  "Init address vs = (case copy_strings address vs of (rs, bs) \<Rightarrow> (rs, \<lparr>Begin = address, Bytes = bs\<rparr>))"

section \<open>Building implements appending\<close>

definition builder_inv :: "TUnversionedOwningRowBuilder \<Rightarrow> bool" where
  "builder_inv b \<longleftrightarrow> length (Values b) \<le> Capacity b \<and>
     (\<exists>vs. load_values (StringData b) (Values b) = Inr vs)"

definition built :: "TUnversionedOwningRowBuilder \<Rightarrow> TUnversionedValue list" where
  "built b = (case load_values (StringData b) (Values b) of Inl _ \<Rightarrow> [] | Inr vs \<Rightarrow> vs)"

lemma rbind_unit: "rbind m Inr = m"
  by (cases m) simp_all

lemma load_values_append:
  "load_values blob (rs @ qs) =
     rbind (load_values blob rs) (\<lambda>vs. rbind (load_values blob qs) (\<lambda>ws. Inr (vs @ ws)))"
  by (induction rs) (auto simp: rbind_assoc rbind_unit intro!: rbind_cong)

lemma deref_append:
  assumes "deref blob p len = Inr s"
  shows "deref \<lparr>Begin = a, Bytes = Bytes blob @ t\<rparr> (a + (p - Begin blob)) len = Inr s"
proof -
  have b: "Begin blob \<le> p" "p + int len \<le> Begin blob + int (length (Bytes blob))"
    and s: "s = take len (drop (nat (p - Begin blob)) (Bytes blob))"
    using assms by (auto simp: deref_def split: if_splits)
  from b have "nat (p - Begin blob) + len \<le> length (Bytes blob)" by linarith
  then have "take len (drop (nat (p - Begin blob)) (Bytes blob @ t)) = s" by (simp add: s)
  with b show ?thesis by (auto simp: deref_def)
qed

lemma load_values_moved:
  assumes "load_values blob rs = Inr vs"
  shows "load_values \<lparr>Begin = a, Bytes = Bytes blob @ t\<rparr>
    (if a \<noteq> Begin blob then map (rebase a (Begin blob)) rs else rs) = Inr vs"
proof -
  have one: "load_value \<lparr>Begin = a, Bytes = Bytes blob @ t\<rparr> (rebase a (Begin blob) r) = Inr v"
    if "load_value blob r = Inr v" for r v
    using that deref_append [of blob _ _ _ a t]
    by (cases "RawData r") (auto simp: load_value_def)
  have "rebase (Begin blob) (Begin blob) r = r" for r by (cases "RawData r") simp_all
  then have "map (rebase a (Begin blob)) rs = rs" if "a = Begin blob"
    using that by (simp add: map_idI)
  moreover have "load_values \<lparr>Begin = a, Bytes = Bytes blob @ t\<rparr> (map (rebase a (Begin blob)) rs) = Inr vs"
    using assms by (induction rs arbitrary: vs) (auto dest!: one)
  ultimately show ?thesis by (cases "a = Begin blob") auto
qed

lemma load_value_raw_of:
  assumes "IsStringLikeType (Type v)"
  shows "load_value \<lparr>Begin = a, Bytes = bs @ AsStringBuf v @ t\<rparr> (raw_of v (a + int (length bs))) = Inr v"
  using assms by (cases v; cases "Data v")
    (auto simp: load_value_def raw_of_def deref_def Type_def AsStringBuf_def IsStringLikeType_def
      IsAnyOrComposite_def)

lemma load_value_scalar: "\<not> IsStringLikeType (Type v) \<Longrightarrow> load_value blob (raw_of v p) = Inr v"
  by (simp add: load_value_def raw_of_def)

lemma load_values_length: "load_values blob rs = Inr vs \<Longrightarrow> length rs = length vs"
  by (induction rs arbitrary: vs) auto

lemma grown_less: "count \<le> capacity \<Longrightarrow> count < grown count capacity"
  by (auto simp: grown_def)

lemma AddValue_built:
  assumes "builder_inv b"
  shows "\<exists>b'. AddValue alloc b v = Inr (length (built b), b') \<and> builder_inv b' \<and> built b' = built b @ [v]"
proof -
  obtain vs where vs: "load_values (StringData b) (Values b) = Inr vs" "length (Values b) \<le> Capacity b"
    using assms by (auto simp: builder_inv_def)
  note len = load_values_length [OF vs(1)]
  show ?thesis
  proof (cases "IsStringLikeType (Type v)")
    case True
    let ?a = "alloc (StringData b) (AsStringBuf v)"
    let ?rs = "if ?a \<noteq> Begin (StringData b) then map (rebase ?a (Begin (StringData b))) (Values b) else Values b"
    let ?blob = "\<lparr>Begin = ?a, Bytes = Bytes (StringData b) @ AsStringBuf v\<rparr>"
    have "load_values ?blob (?rs @ [raw_of v (?a + int (length (Bytes (StringData b))))]) = Inr (vs @ [v])"
      using load_values_moved [OF vs(1)] load_value_raw_of [OF True, where t = "[]"]
      by (simp add: load_values_append)
    with True vs len grown_less [OF vs(2)] show ?thesis
      by (auto simp: AddValue_def builder_inv_def built_def Append_def Let_def)
  next
    case False
    have "load_values (StringData b) (Values b @ [raw_of v 0]) = Inr (vs @ [v])"
      using vs load_value_scalar [OF False] by (simp add: load_values_append)
    with False vs len grown_less [OF vs(2)] show ?thesis
      by (auto simp: AddValue_def builder_inv_def built_def Let_def)
  qed
qed

fun AddValues ::
  "(allocator \<times> TUnversionedValue) list \<Rightarrow> TUnversionedOwningRowBuilder \<Rightarrow>
   TUnversionedOwningRowBuilder res" where
  "AddValues [] b = Inr b"
| "AddValues ((alloc, v) # rest) b = rbind (AddValue alloc b v) (\<lambda>(_, b). AddValues rest b)"

lemma AddValues_built:
  "builder_inv b \<Longrightarrow> \<exists>b'. AddValues avs b = Inr b' \<and> builder_inv b' \<and> built b' = built b @ map snd avs"
proof (induction avs arbitrary: b)
  case (Cons av avs)
  obtain alloc v where av: "av = (alloc, v)" by (cases av)
  from AddValue_built [OF Cons.prems, of alloc v] obtain b' where
    "AddValue alloc b v = Inr (length (built b), b')" "builder_inv b'" "built b' = built b @ [v]" by blast
  with Cons.IH [of b'] show ?case by (auto simp: av)
qed simp

lemma FinishRow_built:
  assumes "builder_inv b"
  shows "row_values (fst (FinishRow b)) = Inr (built b)" "builder_inv (snd (FinishRow b))"
    "built (snd (FinishRow b)) = []"
  using assms by (auto simp: builder_inv_def built_def row_values_def FinishRow_def Reset_def)

lemma copy_strings_values:
  assumes "copy_strings (a + int (length pre)) vs = (rs, bs)"
  shows "load_values \<lparr>Begin = a, Bytes = pre @ bs\<rparr> rs = Inr vs"
  using assms
proof (induction vs arbitrary: pre rs bs)
  case (Cons v vs)
  show ?case
  proof (cases "IsStringLikeType (Type v)")
    case True
    obtain rs' bs' where c: "copy_strings (a + int (length (pre @ AsStringBuf v))) vs = (rs', bs')"
      by fastforce
    with Cons.prems True have "rs = raw_of v (a + int (length pre)) # rs'" "bs = AsStringBuf v @ bs'"
      by (simp_all add: add.assoc)
    with Cons.IH [OF c] load_value_raw_of [OF True, of a pre bs'] show ?thesis by simp
  next
    case False
    with Cons show ?thesis by (auto simp: load_value_scalar split: prod.splits)
  qed
qed simp

text \<open>C6. Whatever addresses the allocator returns, adding values to an owning row builder and
  finishing the row gives a row that reads back exactly the values added since the last
  row, in order and with their strings, and leaves an empty builder; no write leaves the
  row and no pointer dangles. Copying a row reads back the same values.\<close>

theorem owning_row_builder_builds:
  assumes "builder_inv b" "built b = []"
  shows "\<exists>b'. AddValues avs b = Inr b' \<and> row_values (fst (FinishRow b')) = Inr (map snd avs) \<and>
      builder_inv (snd (FinishRow b')) \<and> built (snd (FinishRow b')) = [] \<and>
      row_values (Init address (map snd avs)) = Inr (map snd avs)"
proof -
  have "row_values (Init address (map snd avs)) = Inr (map snd avs)"
    using copy_strings_values [of address "[]" "map snd avs"]
    by (auto simp: Init_def row_values_def split: prod.splits)
  with AddValues_built [OF assms(1), of avs] assms(2) FinishRow_built show ?thesis by fastforce
qed

theorem owning_row_builder_builds_witness:
  "\<exists>b'. AddValues [(\<lambda>_ _. 1000, MakeStringValue [0x61] 0 0), (\<lambda>_ _. 500, MakeStringValue [0x62, 0x63] 1 0)]
       (mk_TUnversionedOwningRowBuilder 1) = Inr b' \<and>
     row_values (fst (FinishRow b')) = Inr [MakeStringValue [0x61] 0 0, MakeStringValue [0x62, 0x63] 1 0]"
proof -
  have "builder_inv (mk_TUnversionedOwningRowBuilder 1)" "built (mk_TUnversionedOwningRowBuilder 1) = []"
    by (simp_all add: builder_inv_def built_def mk_TUnversionedOwningRowBuilder_def)
  from owning_row_builder_builds [OF this] show ?thesis by fastforce
qed

end
