(* ===== verification/KeyBounds.thy ===== *)
theory KeyBounds
  imports Rows
begin

text \<open>
  Keys and key bounds: \<open>key.cpp\<close> and \<open>key_bound.cpp\<close> of \<open>yt/yt/client/table_client\<close>. A key
  is a row without sentinels; a key bound is a prefix of a key with a direction and an
  inclusiveness and stands for a ray of keys.

  The owning and the non-owning classes differ only in who owns the memory of the prefix,
  so one record models both; the checks that only debug builds make are left out.
\<close>

section \<open>Keys\<close>

type_synonym TKey = "TUnversionedValue list option"

definition GetCount :: "TUnversionedRow \<Rightarrow> nat" where
  "GetCount row = (case row of None \<Rightarrow> 0 | Some vs \<Rightarrow> length vs)"

definition Elements :: "TUnversionedRow \<Rightarrow> TUnversionedValue list" where
  "Elements row = (case row of None \<Rightarrow> [] | Some vs \<Rightarrow> vs)"

definition ValidateValueTypes :: "TUnversionedValue list \<Rightarrow> unit res" where
  "ValidateValueTypes vs = check_all (\<lambda>v. ValidateDataValueType (Type v)) vs"

definition TKey_FromRow :: "TUnversionedRow \<Rightarrow> int option \<Rightarrow> TKey res" where
  "TKey_FromRow row len =
     (case row of
        None \<Rightarrow> Inr None
      | Some vs \<Rightarrow>
          let keyLength = (case len of None \<Rightarrow> int (length vs) | Some n \<Rightarrow> n) in
          rbind (verify (keyLength \<le> int (length vs)) ''keyLength <= row.GetCount()'') (\<lambda>_.
            rbind (ValidateValueTypes (take (nat keyLength) vs)) (\<lambda>_.
              Inr (Some (take (nat keyLength) vs)))))"

definition TKey_FromRowUnchecked :: "TUnversionedRow \<Rightarrow> int option \<Rightarrow> TKey res" where
  "TKey_FromRowUnchecked row len =
     (case row of
        None \<Rightarrow> Inr None
      | Some vs \<Rightarrow>
          let keyLength = (case len of None \<Rightarrow> int (length vs) | Some n \<Rightarrow> n) in
          rbind (verify (keyLength \<le> int (length vs)) ''keyLength <= row.GetCount()'') (\<lambda>_.
            Inr (Some (take (nat keyLength) vs))))"

definition TKey_GetLength :: "TKey \<Rightarrow> int" where
  "TKey_GetLength key = int (GetCount key)"

definition AsOwningRow :: "TKey \<Rightarrow> TUnversionedRow" where
  "AsOwningRow key = (case key of None \<Rightarrow> None | Some vs \<Rightarrow> Some vs)"

definition key_eq :: "text_lib \<Rightarrow> TKey \<Rightarrow> TKey \<Rightarrow> bool res" where
  "key_eq L lhs rhs =
     (if lhs = None \<or> rhs = None then Inr ((lhs \<noteq> None) = (rhs \<noteq> None))
      else rbind (CompareValueRanges L (Elements lhs) (Elements rhs)) (\<lambda>r. Inr (r = 0)))"

definition friendly_value :: "TUnversionedValue list \<Rightarrow> nat \<Rightarrow> TUnversionedValue" where
  "friendly_value vs index =
     (if index < length vs then
        (let v = vs ! index in
         if Type v = VT_Min \<or> Type v = VT_Max then v\<lparr>Data := D_Null\<rparr> else v)
      else MakeNullValue 0 0)"

definition LegacyKeyToKeyFriendlyOwningRow :: "TUnversionedRow \<Rightarrow> int \<Rightarrow> TUnversionedRow res" where
  "LegacyKeyToKeyFriendlyOwningRow row keyLength =
     (case row of
        None \<Rightarrow> Inr None
      | Some vs \<Rightarrow>
          let result = map (friendly_value vs) [0..<nat keyLength] in
          rbind (verify (int (length result) = keyLength) ''result.GetCount() == keyLength'') (\<lambda>_.
            Inr (Some result)))"

section \<open>Key bounds\<close>

record TKeyBound =
  Prefix :: TUnversionedRow
  IsInclusive :: bool
  IsUpper :: bool

definition null_bound :: TKeyBound where
  "null_bound = \<lparr>Prefix = None, IsInclusive = False, IsUpper = False\<rparr>"

definition RelationToIsUpperAndIsInclusive :: "string \<Rightarrow> (bool \<times> bool) res" where
  "RelationToIsUpperAndIsInclusive relation =
     (if relation = ''<='' then Inr (True, True)
      else if relation = ''>='' then Inr (True, False)
      else if relation = ''<'' then Inr (False, True)
      else if relation = ''>'' then Inr (False, False)
      else Inl (Thrown ''Error parsing relation literal''))"

definition FromRow :: "TUnversionedRow \<Rightarrow> bool \<Rightarrow> bool \<Rightarrow> TKeyBound res" where
  "FromRow row isInclusive isUpper =
     rbind (verify (row \<noteq> None) ''row'') (\<lambda>_.
       rbind (ValidateValueTypes (Elements row)) (\<lambda>_.
         Inr \<lparr>Prefix = row, IsInclusive = isInclusive, IsUpper = isUpper\<rparr>))"

definition FromRowUnchecked :: "TUnversionedRow \<Rightarrow> bool \<Rightarrow> bool \<Rightarrow> TKeyBound res" where
  "FromRowUnchecked row isInclusive isUpper =
     rbind (verify (row \<noteq> None) ''row'') (\<lambda>_.
       Inr \<lparr>Prefix = row, IsInclusive = isInclusive, IsUpper = isUpper\<rparr>)"

definition MakeUniversal :: "bool \<Rightarrow> TKeyBound res" where
  "MakeUniversal isUpper = FromRow (Some EmptyKey) True isUpper"

definition MakeEmpty :: "bool \<Rightarrow> TKeyBound res" where
  "MakeEmpty isUpper = FromRow (Some EmptyKey) False isUpper"

definition bound_exists :: "TKeyBound \<Rightarrow> bool" where
  "bound_exists b \<longleftrightarrow> Prefix b \<noteq> None"

definition IsUniversal :: "TKeyBound \<Rightarrow> bool" where
  "IsUniversal b \<longleftrightarrow> IsInclusive b \<and> Prefix b \<noteq> None \<and> GetCount (Prefix b) = 0"

definition IsEmptyBound :: "TKeyBound \<Rightarrow> bool" where
  "IsEmptyBound b \<longleftrightarrow> \<not> IsInclusive b \<and> Prefix b \<noteq> None \<and> GetCount (Prefix b) = 0"

definition Invert :: "TKeyBound \<Rightarrow> TKeyBound res" where
  "Invert b =
     rbind (verify (Prefix b \<noteq> None) ''Prefix'') (\<lambda>_.
       FromRowUnchecked (Prefix b) (\<not> IsInclusive b) (\<not> IsUpper b))"

definition ToggleInclusiveness :: "TKeyBound \<Rightarrow> TKeyBound res" where
  "ToggleInclusiveness b =
     rbind (verify (Prefix b \<noteq> None) ''Prefix'') (\<lambda>_.
       FromRowUnchecked (Prefix b) (\<not> IsInclusive b) (IsUpper b))"

definition UpperCounterpart :: "TKeyBound \<Rightarrow> TKeyBound res" where
  "UpperCounterpart b =
     rbind (verify (Prefix b \<noteq> None) ''Prefix'') (\<lambda>_. if IsUpper b then Inr b else Invert b)"

definition LowerCounterpart :: "TKeyBound \<Rightarrow> TKeyBound res" where
  "LowerCounterpart b =
     rbind (verify (Prefix b \<noteq> None) ''Prefix'') (\<lambda>_. if IsUpper b then Invert b else Inr b)"

definition GetRelation :: "TKeyBound \<Rightarrow> string" where
  "GetRelation b =
     (if IsUpper b \<and> IsInclusive b then ''<=''
      else if IsUpper b \<and> \<not> IsInclusive b then ''<''
      else if \<not> IsUpper b \<and> IsInclusive b then ''>=''
      else ''>'')"

definition bound_eq :: "text_lib \<Rightarrow> TKeyBound \<Rightarrow> TKeyBound \<Rightarrow> bool res" where
  "bound_eq L lhs rhs =
     rbind (row_eq L (Prefix lhs) (Prefix rhs)) (\<lambda>e.
       Inr (e \<and> IsInclusive lhs = IsInclusive rhs \<and> IsUpper lhs = IsUpper rhs))"

section \<open>Key bounds as nodes\<close>

text \<open>
  The node tree that \<open>Serialize\<close> emits and \<open>Deserialize\<close> receives; the conversion of rows
  to nodes and back is an argument.
\<close>

datatype 'r node = EntityNode | StringNode string | ListNode "'r node list" | OtherNode 'r

definition Serialize_bound :: "(TUnversionedRow \<Rightarrow> 'r node) \<Rightarrow> TKeyBound \<Rightarrow> 'r node" where
  "Serialize_bound row_node b =
     (if bound_exists b then ListNode [StringNode (GetRelation b), row_node (Prefix b)]
      else EntityNode)"

definition Deserialize_bound :: "('r node \<Rightarrow> TUnversionedRow res) \<Rightarrow> 'r node \<Rightarrow> TKeyBound res" where
  "Deserialize_bound node_row node =
     (case node of
        EntityNode \<Rightarrow> Inr null_bound
      | ListNode children \<Rightarrow>
          rbind (throw_if (length children \<noteq> 2) ''list node must have exactly two elements'') (\<lambda>_.
            case children ! 0 of
              StringNode relation \<Rightarrow>
                rbind (RelationToIsUpperAndIsInclusive relation) (\<lambda>(isInclusive, isUpper).
                  rbind (node_row (children ! 1)) (\<lambda>row. FromRow row isInclusive isUpper))
            | _ \<Rightarrow> Inl (Thrown ''first element must be a string node''))
      | _ \<Rightarrow> Inl (Thrown ''Error parsing key bound''))"

section \<open>Legacy rows\<close>

text \<open>The loop: the prefix length so far, the flag of a long row and the leftmost sentinel.\<close>

function bound_prefix_loop ::
  "TUnversionedValue list \<Rightarrow> nat \<Rightarrow> nat \<Rightarrow> nat \<Rightarrow> nat \<times> bool \<times> EValueType option" where
  "bound_prefix_loop row keyLength index prefixLength =
     (if index < length row \<and> index \<le> keyLength then
        if index = keyLength then (prefixLength, True, None)
        else if Type (row ! index) \<noteq> VT_Min \<and> Type (row ! index) \<noteq> VT_Max
        then bound_prefix_loop row keyLength (index + 1) (prefixLength + 1)
        else (prefixLength, False, Some (Type (row ! index)))
      else (prefixLength, False, None))"
  by pat_completeness auto
termination
  by (relation "measure (\<lambda>(row, keyLength, index, _). length row - index)") auto

declare bound_prefix_loop.simps [simp del]

definition GetBoundPrefixAndInclusiveness :: "TUnversionedValue list \<Rightarrow> bool \<Rightarrow> nat \<Rightarrow> nat \<times> bool" where
  "GetBoundPrefixAndInclusiveness row isUpper keyLength =
     (case bound_prefix_loop row keyLength 0 0 of (prefixLength, isLongRow, leftmostSentinelType) \<Rightarrow>
        let toggleInclusiveness = isLongRow \<or> leftmostSentinelType = Some VT_Max;
            isInclusive = isUpper \<and> toggleInclusiveness \<or> \<not> isUpper \<and> \<not> toggleInclusiveness
        in (prefixLength, isInclusive))"

definition KeyBoundFromLegacyRow :: "TUnversionedRow \<Rightarrow> bool \<Rightarrow> nat \<Rightarrow> TKeyBound res" where
  "KeyBoundFromLegacyRow row isUpper keyLength =
     (case row of
        None \<Rightarrow> MakeUniversal isUpper
      | Some vs \<Rightarrow>
          (case GetBoundPrefixAndInclusiveness vs isUpper keyLength of (prefixLength, isInclusive) \<Rightarrow>
             FromRow (Some (take prefixLength vs)) isInclusive isUpper))"

definition KeyBoundToLegacyRow :: "TKeyBound \<Rightarrow> TUnversionedRow" where
  "KeyBoundToLegacyRow b =
     (if \<not> bound_exists b then None
      else
        (let shouldAddMax = IsUpper b \<and> IsInclusive b \<or> \<not> IsUpper b \<and> \<not> IsInclusive b
         in Some (Elements (Prefix b) @ (if shouldAddMax then [sentinel VT_Max] else []))))"

text \<open>The overload over a row buffer gives the sentinel the column id of its position.\<close>

definition KeyBoundToLegacyRow_buffer :: "TKeyBound \<Rightarrow> TUnversionedRow" where
  "KeyBoundToLegacyRow_buffer b =
     (if \<not> bound_exists b then None
      else
        (let shouldAddMax = IsUpper b \<and> IsInclusive b \<or> \<not> IsUpper b \<and> \<not> IsInclusive b
         in Some (Elements (Prefix b) @
              (if shouldAddMax then [MakeSentinelValue VT_Max (int (GetCount (Prefix b))) 0] else []))))"

definition ShortenKeyBound :: "TKeyBound \<Rightarrow> nat \<Rightarrow> TKeyBound res" where
  "ShortenKeyBound b len =
     (if \<not> bound_exists b then Inr null_bound
      else if GetCount (Prefix b) \<le> len then Inr b
      else FromRowUnchecked (Some (take len (Elements (Prefix b)))) True (IsUpper b))"

definition ShortenKeyBound_owning :: "TKeyBound \<Rightarrow> nat \<Rightarrow> TKeyBound res" where
  "ShortenKeyBound_owning b len =
     (if GetCount (Prefix b) \<le> len then Inr b
      else FromRowUnchecked (Some (take len (Elements (Prefix b)))) True (IsUpper b))"

section \<open>The prefix of a legacy row\<close>

definition no_sentinel :: "TUnversionedValue \<Rightarrow> bool" where
  "no_sentinel v \<longleftrightarrow> Type v \<noteq> VT_Min \<and> Type v \<noteq> VT_Max"

lemma bound_prefix_loop_eq:
  assumes "index \<le> keyLength"
  shows "bound_prefix_loop row keyLength index n =
    (let p = length (takeWhile no_sentinel (take (keyLength - index) (drop index row)))
     in (n + p, index + p = keyLength \<and> keyLength < length row,
         if index + p < keyLength \<and> index + p < length row then Some (Type (row ! (index + p))) else None))"
  using assms
proof (induction row keyLength index n rule: bound_prefix_loop.induct)
  case (1 row keyLength index n)
  show ?case
  proof (cases "index < length row \<and> index < keyLength \<and> no_sentinel (row ! index)")
    case True
    then have "take (keyLength - index) (drop index row) =
      row ! index # take (keyLength - Suc index) (drop (Suc index) row)"
      by (metis Cons_nth_drop_Suc Suc_diff_Suc take_Suc_Cons)
    moreover have "Type (row ! index) \<noteq> VT_Min \<and> Type (row ! index) \<noteq> VT_Max"
      using True by (simp add: no_sentinel_def)
    ultimately show ?thesis
      using True 1 by (subst bound_prefix_loop.simps) (auto simp: Let_def)
  next
    case False
    moreover have "drop index row = row ! index # drop (Suc index) row" if "index < length row"
      using that by (simp add: Cons_nth_drop_Suc)
    ultimately have "takeWhile no_sentinel (take (keyLength - index) (drop index row)) = []"
      by (cases "index < length row"; cases "keyLength - index") auto
    with False "1.prems" show ?thesis
      by (subst bound_prefix_loop.simps) (auto simp: no_sentinel_def Let_def)
  qed
qed

lemma takeWhile_all: "\<forall>x\<in>set xs. P x \<Longrightarrow> takeWhile P xs = xs"
  by (simp add: takeWhile_eq_all_conv)

definition data_values :: "TUnversionedValue list \<Rightarrow> bool" where
  "data_values vs \<longleftrightarrow> (\<forall>v\<in>set vs. ValidateDataValueType (Type v) = Inr ())"

lemma data_values_no_sentinel: "data_values vs \<Longrightarrow> v \<in> set vs \<Longrightarrow> no_sentinel v"
  by (auto simp: data_values_def Validate_value_type_iff no_sentinel_def IsSentinel_def)

lemma ValidateValueTypes_iff [simp]: "ValidateValueTypes vs = Inr () \<longleftrightarrow> data_values vs"
  by (simp add: ValidateValueTypes_def data_values_def)

lemma FromRow_valid [simp]:
  "data_values vs \<Longrightarrow> FromRow (Some vs) i u = Inr \<lparr>Prefix = Some vs, IsInclusive = i, IsUpper = u\<rparr>"
  by (simp add: FromRow_def Elements_def)

lemma GetBoundPrefix_plain:
  assumes "\<forall>v\<in>set p. no_sentinel v" "length p \<le> keyLength"
  shows "GetBoundPrefixAndInclusiveness p isUpper keyLength = (length p, \<not> isUpper)"
  using assms bound_prefix_loop_eq [of 0 keyLength p 0]
  by (auto simp: GetBoundPrefixAndInclusiveness_def takeWhile_all)

lemma GetBoundPrefix_Max:
  assumes "\<forall>v\<in>set p. no_sentinel v" "length p \<le> keyLength" "Type m = VT_Max"
  shows "GetBoundPrefixAndInclusiveness (p @ [m]) isUpper keyLength = (length p, isUpper)"
proof -
  have "takeWhile no_sentinel (take keyLength (p @ [m])) = p"
    using assms by (cases "keyLength - length p") (auto simp: takeWhile_all no_sentinel_def)
  with assms bound_prefix_loop_eq [of 0 keyLength "p @ [m]" 0] show ?thesis
    by (auto simp: GetBoundPrefixAndInclusiveness_def Let_def)
qed

lemma KeyBoundFromLegacyRow_data:
  assumes "data_values p" "length p \<le> keyLength"
  shows "KeyBoundFromLegacyRow (Some p) isUpper keyLength =
      Inr \<lparr>Prefix = Some p, IsInclusive = (\<not> isUpper), IsUpper = isUpper\<rparr>"
    and "Type m = VT_Max \<Longrightarrow> KeyBoundFromLegacyRow (Some (p @ [m])) isUpper keyLength =
      Inr \<lparr>Prefix = Some p, IsInclusive = isUpper, IsUpper = isUpper\<rparr>"
  using assms data_values_no_sentinel [OF assms(1)]
  by (simp_all add: KeyBoundFromLegacyRow_def GetBoundPrefix_plain GetBoundPrefix_Max)

text \<open>Converting a key bound to a legacy row and back gives the same bound: for every bound
  whose prefix holds data values and is not longer than the key, in both directions and
  with either inclusiveness, through either of the two conversions to a row.\<close>

theorem legacy_bound_roundtrip:
  assumes "Prefix b = Some p" "data_values p" "length p \<le> keyLength"
  shows "KeyBoundFromLegacyRow (KeyBoundToLegacyRow b) (IsUpper b) keyLength = Inr b \<and>
    KeyBoundFromLegacyRow (KeyBoundToLegacyRow_buffer b) (IsUpper b) keyLength = Inr b"
  using KeyBoundFromLegacyRow_data [OF assms(2,3)] assms(1)
  by (cases b) (auto simp: KeyBoundToLegacyRow_def KeyBoundToLegacyRow_buffer_def bound_exists_def
      Elements_def Let_def)

theorem legacy_bound_roundtrip_witness:
  "KeyBoundToLegacyRow \<lparr>Prefix = Some [MakeInt64Value 7 0 0], IsInclusive = True, IsUpper = True\<rparr> =
     Some [MakeInt64Value 7 0 0, sentinel VT_Max] \<and>
   KeyBoundFromLegacyRow (Some [MakeInt64Value 7 0 0, sentinel VT_Max]) True 2 =
     Inr \<lparr>Prefix = Some [MakeInt64Value 7 0 0], IsInclusive = True, IsUpper = True\<rparr>"
proof -
  let ?b = "\<lparr>Prefix = Some [MakeInt64Value 7 0 0], IsInclusive = True, IsUpper = True\<rparr>"
  have "data_values [MakeInt64Value 7 0 0]" by (simp add: data_values_def ValidateDataValueType_def)
  moreover have "KeyBoundToLegacyRow ?b = Some [MakeInt64Value 7 0 0, sentinel VT_Max]"
    by (simp add: KeyBoundToLegacyRow_def bound_exists_def Elements_def)
  ultimately show ?thesis using legacy_bound_roundtrip [of ?b _ 2] by simp
qed

section \<open>Bounds as nodes, friendly keys\<close>

text \<open>A bound is read back from the node it is written to, provided that rows are: the null
  bound as an entity, every other bound as its relation and its prefix. Every other
  relation literal is rejected.\<close>

theorem bound_node_roundtrip:
  assumes rows: "\<And>row. node_row (row_node row) = Inr row"
    and "b = null_bound \<or> (\<exists>p. Prefix b = Some p \<and> data_values p)"
  shows "Deserialize_bound node_row (Serialize_bound row_node b) = Inr b \<and>
    (relation \<notin> {''<='', ''<'', ''>='', ''>''} \<longrightarrow>
      (\<exists>e. Deserialize_bound node_row (ListNode [StringNode relation, x]) = Inl (Thrown e)))"
proof -
  have "Deserialize_bound node_row (Serialize_bound row_node b) = Inr b"
    using assms(2)
  proof
    assume "\<exists>p. Prefix b = Some p \<and> data_values p"
    then obtain p where p: "Prefix b = Some p" "data_values p" by blast
    have "RelationToIsUpperAndIsInclusive (GetRelation b) = Inr (IsInclusive b, IsUpper b)"
      by (simp add: GetRelation_def RelationToIsUpperAndIsInclusive_def)
    with p rows show ?thesis
      by (simp add: Serialize_bound_def Deserialize_bound_def bound_exists_def)
  qed (simp add: Serialize_bound_def Deserialize_bound_def bound_exists_def null_bound_def)
  then show ?thesis by (simp add: Deserialize_bound_def RelationToIsUpperAndIsInclusive_def)
qed

theorem bound_node_roundtrip_witness:
  "Deserialize_bound (\<lambda>node. case node of OtherNode row \<Rightarrow> Inr row | _ \<Rightarrow> Inl (Thrown ''row''))
     (Serialize_bound OtherNode \<lparr>Prefix = Some [], IsInclusive = True, IsUpper = False\<rparr>) =
   Inr \<lparr>Prefix = Some [], IsInclusive = True, IsUpper = False\<rparr>"
proof -
  let ?node_row = "\<lambda>node. case node of OtherNode row \<Rightarrow> Inr row | _ \<Rightarrow> Inl (Thrown ''row'')"
  have "\<And>row. ?node_row (OtherNode row) = Inr row" by simp
  from bound_node_roundtrip [OF this, of "\<lparr>Prefix = Some [], IsInclusive = True, IsUpper = False\<rparr>"]
  show ?thesis by (simp add: data_values_def)
qed

lemma friendly_row_valid:
  assumes "\<forall>v\<in>set vs. Type v \<noteq> VT_TheBottom" "0 \<le> keyLength"
  shows "\<exists>ws. LegacyKeyToKeyFriendlyOwningRow (Some vs) keyLength = Inr (Some ws) \<and>
    int (length ws) = keyLength \<and> TKey_FromRow (Some ws) None = Inr (Some ws)"
proof -
  let ?ws = "map (friendly_value vs) [0..<nat keyLength]"
  have "Type (friendly_value vs i) \<notin> {VT_Min, VT_Max, VT_TheBottom}" for i
    using assms(1) by (auto simp: friendly_value_def Let_def Type_def MakeNullValue_def)
  then have "data_values ?ws"
    by (auto simp: data_values_def Validate_value_type_iff IsSentinel_def)
  with assms(2) show ?thesis
    by (intro exI [of _ ?ws]) (simp add: LegacyKeyToKeyFriendlyOwningRow_def TKey_FromRow_def)
qed

end
