(* ===== verification/Comparator.thy ===== *)
theory Comparator
  imports KeyBounds
begin

text \<open>
  Comparators of keys and key bounds: \<open>comparator.cpp\<close>, \<open>comparator-inl.h\<close> and
  \<open>comparator.h\<close> of \<open>yt/yt/client/table_client\<close>.

  Keys and key bounds are shown to be points of one linear order: a key is the sequence of
  the ranks of its values, oriented by the sort order of each column, and a bound is the
  position just before or just after all keys with its prefix. Every operation of the
  comparator is shown to agree with that order.
\<close>

section \<open>The comparator\<close>

datatype ESortOrder = Ascending | Descending

text \<open>A generated comparer takes two ranges and a length, as \<open>ComparePrefix\<close> does.\<close>

type_synonym TPrefixComparer = "TUnversionedValue list \<Rightarrow> TUnversionedValue list \<Rightarrow> nat \<Rightarrow> int res"

record TComparator =
  SortOrders :: "ESortOrder list"
  CGComparator :: "TPrefixComparer option"

definition mk_TComparator :: "ESortOrder list \<Rightarrow> TPrefixComparer option \<Rightarrow> TComparator" where
  "mk_TComparator sortOrders cgComparator = \<lparr>SortOrders = sortOrders, CGComparator = cgComparator\<rparr>"

definition GetLength :: "TComparator \<Rightarrow> nat" where
  "GetLength comparator = length (SortOrders comparator)"

definition ValidateKey :: "TComparator \<Rightarrow> TKey \<Rightarrow> unit res" where
  "ValidateKey comparator key =
     throw_if (TKey_GetLength key \<noteq> int (GetLength comparator))
       ''Comparator is used with key of different length''"

definition ValidateKeyBound :: "TComparator \<Rightarrow> TKeyBound \<Rightarrow> unit res" where
  "ValidateKeyBound comparator keyBound =
     throw_if (GetCount (Prefix keyBound) > GetLength comparator)
       ''Comparator is used with longer key bound''"

definition CompareValues ::
  "text_lib \<Rightarrow> TComparator \<Rightarrow> nat \<Rightarrow> TUnversionedValue \<Rightarrow> TUnversionedValue \<Rightarrow> int res" where
  "CompareValues L comparator index lhs rhs =
     rbind (CompareRowValues L lhs rhs) (\<lambda>valueComparisonResult.
       Inr (if SortOrders comparator ! index = Descending
            then - valueComparisonResult else valueComparisonResult))"

text \<open>Comparison of two ranges value by value from a given index, up to the first difference.\<close>

fun compare_values_loop ::
  "text_lib \<Rightarrow> TComparator \<Rightarrow> nat \<Rightarrow> TUnversionedValue list \<Rightarrow> TUnversionedValue list \<Rightarrow> int res" where
  "compare_values_loop L comparator index (l # lhs) (r # rhs) =
     rbind (CompareValues L comparator index l r) (\<lambda>comparisonResult.
       if comparisonResult \<noteq> 0 then Inr comparisonResult
       else compare_values_loop L comparator (index + 1) lhs rhs)"
| "compare_values_loop L comparator index lhs rhs = Inr 0"

definition TestKey :: "text_lib \<Rightarrow> TComparator \<Rightarrow> TKey \<Rightarrow> TKeyBound \<Rightarrow> bool res" where
  "TestKey L comparator key keyBound =
     rbind (ValidateKey comparator key) (\<lambda>_.
     rbind (ValidateKeyBound comparator keyBound) (\<lambda>_.
     rbind (compare_values_loop L comparator 0 (Elements key) (Elements (Prefix keyBound)))
       (\<lambda>comparisonResult.
         let comparisonResult = (if IsUpper keyBound then - comparisonResult else comparisonResult)
         in Inr (comparisonResult > 0 \<or> comparisonResult = 0 \<and> IsInclusive keyBound))))"

section \<open>Comparison of key bounds\<close>

record TKeyBoundRef =
  KeyRef :: "TUnversionedValue list"
  Inclusive :: bool
  Upper :: bool

definition ToKeyBoundRef :: "TKeyBound \<Rightarrow> TKeyBoundRef" where
  "ToKeyBoundRef bound =
     \<lparr>KeyRef = Elements (Prefix bound), Inclusive = IsInclusive bound, Upper = IsUpper bound\<rparr>"

definition ToKeyBoundRef_row :: "TUnversionedRow \<Rightarrow> bool \<Rightarrow> nat \<Rightarrow> TKeyBoundRef" where
  "ToKeyBoundRef_row row upper keyLength =
     (case row of
        None \<Rightarrow> \<lparr>KeyRef = [], Inclusive = True, Upper = upper\<rparr>
      | Some vs \<Rightarrow>
          (case GetBoundPrefixAndInclusiveness vs upper keyLength of (prefixLength, inclusive) \<Rightarrow>
             \<lparr>KeyRef = ToKeyRef_prefix vs prefixLength, Inclusive = inclusive, Upper = upper\<rparr>))"

definition inclusiveness_as_upper :: "TKeyBoundRef \<Rightarrow> bool" where
  "inclusiveness_as_upper b \<longleftrightarrow> Upper b \<and> Inclusive b \<or> \<not> Upper b \<and> \<not> Inclusive b"

text \<open>The loop over the values; \<open>lhs\<close> and \<open>rhs\<close> are what is left of the prefixes.\<close>

fun CompareKeyBounds_loop ::
  "text_lib \<Rightarrow> TComparator \<Rightarrow> TKeyBoundRef \<Rightarrow> TKeyBoundRef \<Rightarrow> int \<Rightarrow> nat \<Rightarrow>
   TUnversionedValue list \<Rightarrow> TUnversionedValue list \<Rightarrow> int res" where
  "CompareKeyBounds_loop L comparator a b lowerVsUpper index [] [] =
     (if inclusiveness_as_upper a \<noteq> inclusiveness_as_upper b then
        Inr (of_bool (inclusiveness_as_upper a) - of_bool (inclusiveness_as_upper b))
      else if lowerVsUpper = 0 then Inr 0
      else
        (let comparisonResult = of_bool (Upper a) - of_bool (Upper b)
         in Inr (if lowerVsUpper > 0 then - comparisonResult else comparisonResult)))"
| "CompareKeyBounds_loop L comparator a b lowerVsUpper index [] (r # rhs) =
     Inr (- (if inclusiveness_as_upper a then -1 else 1))"
| "CompareKeyBounds_loop L comparator a b lowerVsUpper index (l # lhs) [] =
     Inr (if inclusiveness_as_upper b then -1 else 1)"
| "CompareKeyBounds_loop L comparator a b lowerVsUpper index (l # lhs) (r # rhs) =
     rbind (CompareValues L comparator index l r) (\<lambda>comparisonResult.
       if comparisonResult \<noteq> 0 then Inr comparisonResult
       else CompareKeyBounds_loop L comparator a b lowerVsUpper (index + 1) lhs rhs)"

definition CompareKeyBoundsUnchecked ::
  "text_lib \<Rightarrow> TComparator \<Rightarrow> TKeyBoundRef \<Rightarrow> TKeyBoundRef \<Rightarrow> int \<Rightarrow> int res" where
  "CompareKeyBoundsUnchecked L comparator lhs rhs lowerVsUpper =
     CompareKeyBounds_loop L comparator lhs rhs lowerVsUpper 0 (KeyRef lhs) (KeyRef rhs)"

definition CompareKeyBounds ::
  "text_lib \<Rightarrow> TComparator \<Rightarrow> TKeyBound \<Rightarrow> TKeyBound \<Rightarrow> int \<Rightarrow> int res" where
  "CompareKeyBounds L comparator lhs rhs lowerVsUpper =
     rbind (ValidateKeyBound comparator lhs) (\<lambda>_.
     rbind (ValidateKeyBound comparator rhs) (\<lambda>_.
       CompareKeyBoundsUnchecked L comparator (ToKeyBoundRef lhs) (ToKeyBoundRef rhs) lowerVsUpper))"

definition CompareKeyBounds_ref ::
  "text_lib \<Rightarrow> TComparator \<Rightarrow> TKeyBoundRef \<Rightarrow> TKeyBoundRef \<Rightarrow> int \<Rightarrow> int res" where
  "CompareKeyBounds_ref L comparator lhs rhs lowerVsUpper =
     (let maxLength = max (length (KeyRef lhs)) (length (KeyRef rhs)) in
      rbind (throw_if (maxLength > GetLength comparator) ''Comparator is used with a key bound of length'') (\<lambda>_.
      rbind (check_all (\<lambda>v. ValidateDataValueType (Type v)) (KeyRef lhs @ KeyRef rhs)) (\<lambda>_.
        CompareKeyBoundsUnchecked L comparator lhs rhs lowerVsUpper)))"

definition IsRangeEmpty :: "text_lib \<Rightarrow> TComparator \<Rightarrow> TKeyBound \<Rightarrow> TKeyBound \<Rightarrow> bool res" where
  "IsRangeEmpty L comparator lowerBound upperBound =
     rbind (verify (\<not> IsUpper lowerBound) ''!lowerBound.IsUpper'') (\<lambda>_.
     rbind (verify (IsUpper upperBound) ''upperBound.IsUpper'') (\<lambda>_.
     rbind (CompareKeyBounds L comparator lowerBound upperBound 1) (\<lambda>r. Inr (r \<ge> 0))))"

definition TryAsSingletonKey :: "text_lib \<Rightarrow> TComparator \<Rightarrow> TKeyBound \<Rightarrow> TKeyBound \<Rightarrow> TKey option res" where
  "TryAsSingletonKey L comparator lowerBound upperBound =
     rbind (ValidateKeyBound comparator lowerBound) (\<lambda>_.
     rbind (ValidateKeyBound comparator upperBound) (\<lambda>_.
     rbind (verify (\<not> IsUpper lowerBound) ''!lowerBound.IsUpper'') (\<lambda>_.
     rbind (verify (IsUpper upperBound) ''upperBound.IsUpper'') (\<lambda>_.
       if GetCount (Prefix lowerBound) \<noteq> GetLength comparator \<or>
          GetCount (Prefix upperBound) \<noteq> GetLength comparator then Inr None
       else if \<not> IsInclusive lowerBound \<or> \<not> IsInclusive upperBound then Inr None
       else
         rbind (compare_values_loop L comparator 0 (Elements (Prefix lowerBound))
             (Elements (Prefix upperBound))) (\<lambda>r.
           if r \<noteq> 0 then Inr None
           else rbind (TKey_FromRowUnchecked (Prefix lowerBound) None) (\<lambda>key. Inr (Some key)))))))"

definition IsInteriorEmpty :: "text_lib \<Rightarrow> TComparator \<Rightarrow> TKeyBound \<Rightarrow> TKeyBound \<Rightarrow> bool res" where
  "IsInteriorEmpty L comparator lowerBound upperBound =
     rbind (verify (\<not> IsUpper lowerBound) ''!lowerBound.IsUpper'') (\<lambda>_.
     rbind (verify (IsUpper upperBound) ''upperBound.IsUpper'') (\<lambda>_.
     rbind (IsRangeEmpty L comparator lowerBound upperBound) (\<lambda>e.
       if e then Inr True
       else rbind (TryAsSingletonKey L comparator lowerBound upperBound) (\<lambda>k. Inr (k \<noteq> None)))))"

section \<open>Comparison of keys\<close>

definition CompareKeys :: "text_lib \<Rightarrow> TComparator \<Rightarrow> TKey \<Rightarrow> TKey \<Rightarrow> int res" where
  "CompareKeys L comparator lhs rhs =
     rbind (ValidateKey comparator lhs) (\<lambda>_.
     rbind (ValidateKey comparator rhs) (\<lambda>_.
       case CGComparator comparator of
         Some cg \<Rightarrow>
           rbind (cg (Elements lhs) (Elements rhs) (GetLength comparator)) (\<lambda>comparisonResult.
             if comparisonResult = 0 then Inr comparisonResult
             else
               (let differentColumnIdx = nat (\<bar>comparisonResult\<bar> - 1);
                    orderSign = (if SortOrders comparator ! differentColumnIdx = Ascending then 1 else -1)
                in Inr (comparisonResult * orderSign)))
       | None \<Rightarrow> compare_values_loop L comparator 0 (Elements lhs) (Elements rhs)))"

definition Trim :: "TComparator \<Rightarrow> nat \<Rightarrow> TComparator res" where
  "Trim comparator keyColumnCount =
     rbind (verify (keyColumnCount \<le> length (SortOrders comparator)) ''keyColumnCount <= ssize'') (\<lambda>_.
       Inr (mk_TComparator (take keyColumnCount (SortOrders comparator)) None))"

definition HasDescendingSortOrder :: "TComparator \<Rightarrow> bool" where
  "HasDescendingSortOrder comparator \<longleftrightarrow> List.member (SortOrders comparator) Descending"

definition comparator_exists :: "TComparator \<Rightarrow> bool" where
  "comparator_exists comparator \<longleftrightarrow> SortOrders comparator \<noteq> []"

section \<open>Stronger and weaker bounds\<close>

definition directed_comparison :: "text_lib \<Rightarrow> TComparator \<Rightarrow> TKeyBound \<Rightarrow> TKeyBound \<Rightarrow> int res" where
  "directed_comparison L comparator lhs rhs =
     rbind (verify (IsUpper lhs = IsUpper rhs) ''lhs.IsUpper == rhs.IsUpper'') (\<lambda>_.
     rbind (CompareKeyBounds L comparator lhs rhs 0) (\<lambda>comparisonResult.
       Inr (if IsUpper lhs then - comparisonResult else comparisonResult)))"

definition StrongerKeyBound :: "text_lib \<Rightarrow> TComparator \<Rightarrow> TKeyBound \<Rightarrow> TKeyBound \<Rightarrow> TKeyBound res" where
  "StrongerKeyBound L comparator lhs rhs =
     rbind (verify (bound_exists lhs) ''lhs'') (\<lambda>_.
     rbind (verify (bound_exists rhs) ''rhs'') (\<lambda>_.
     rbind (directed_comparison L comparator lhs rhs) (\<lambda>r. Inr (if r \<le> 0 then rhs else lhs))))"

definition ReplaceIfStrongerKeyBound ::
  "text_lib \<Rightarrow> TComparator \<Rightarrow> TKeyBound \<Rightarrow> TKeyBound \<Rightarrow> TKeyBound res" where
  "ReplaceIfStrongerKeyBound L comparator lhs rhs =
     (if \<not> bound_exists lhs then Inr rhs
      else if \<not> bound_exists rhs then Inr lhs
      else rbind (directed_comparison L comparator lhs rhs) (\<lambda>r. Inr (if r < 0 then rhs else lhs)))"

definition WeakerKeyBound :: "text_lib \<Rightarrow> TComparator \<Rightarrow> TKeyBound \<Rightarrow> TKeyBound \<Rightarrow> TKeyBound res" where
  "WeakerKeyBound L comparator lhs rhs =
     rbind (directed_comparison L comparator lhs rhs) (\<lambda>r. Inr (if r \<ge> 0 then rhs else lhs))"

section \<open>Prefix comparers\<close>

definition GetCompareSign :: "int \<Rightarrow> int" where
  "GetCompareSign v = (if v \<noteq> 0 then if v > 0 then 1 else -1 else 0)"

fun ComparePrefix_loop ::
  "text_lib \<Rightarrow> TUnversionedValue list \<Rightarrow> TUnversionedValue list \<Rightarrow> nat \<Rightarrow> int \<Rightarrow> int res" where
  "ComparePrefix_loop L lhs rhs 0 index = Inr 0"
| "ComparePrefix_loop L (l # lhs) (r # rhs) (Suc n) index =
     rbind (CompareRowValues L l r) (\<lambda>result.
       let index = index + 1 in
       if result \<noteq> 0 then Inr (if result > 0 then index else - index)
       else ComparePrefix_loop L lhs rhs n index)"
| "ComparePrefix_loop L lhs rhs (Suc n) index = Inl (Undefined ''read behind the range'')"

definition ComparePrefix :: "text_lib \<Rightarrow> TPrefixComparer" where
  "ComparePrefix L lhs rhs len = ComparePrefix_loop L lhs rhs len 0"

definition CompareKeys_ranges ::
  "TPrefixComparer \<Rightarrow> TUnversionedValue list \<Rightarrow> TUnversionedValue list \<Rightarrow> int res" where
  "CompareKeys_ranges prefixComparer lhs rhs =
     (let minCount = min (length lhs) (length rhs) in
      rbind (prefixComparer lhs rhs minCount) (\<lambda>result.
        let result =
          (if result = 0 then
             if length lhs < length rhs then - (int minCount + 1)
             else if length lhs > length rhs then int minCount + 1 else result
           else result)
        in Inr (GetCompareSign result)))"

definition CompareKeys_legacy :: "TPrefixComparer \<Rightarrow> TLegacyKey \<Rightarrow> TLegacyKey \<Rightarrow> int res" where
  "CompareKeys_legacy prefixComparer lhs rhs = CompareKeys_ranges prefixComparer (ToKeyRef lhs) (ToKeyRef rhs)"

definition TestComparisonResult_sorted :: "int \<Rightarrow> ESortOrder list \<Rightarrow> bool \<Rightarrow> bool \<Rightarrow> bool" where
  "TestComparisonResult_sorted result sortOrders inclusive upper =
     (let result =
        (if result \<noteq> 0 then
           (let result = (if sortOrders ! nat (\<bar>result\<bar> - 1) = Descending then - result else result)
            in if upper then - result else result)
         else result)
      in result > 0 \<or> inclusive \<and> result = 0)"

definition TestComparisonResult :: "int \<Rightarrow> bool \<Rightarrow> bool \<Rightarrow> bool" where
  "TestComparisonResult result inclusive upper =
     (let result = (if upper then - result else result) in result > 0 \<or> inclusive \<and> result = 0)"

text \<open>The key is widened with nulls; the loop looks for a value of the bound that is not null.\<close>

fun widening_loop :: "TUnversionedValue list \<Rightarrow> int \<Rightarrow> int" where
  "widening_loop [] index = 0"
| "widening_loop (b # boundKey) index =
     (if Type b \<noteq> VT_Null then - (index + 1) else widening_loop boundKey (index + 1))"

definition CompareWithWidening ::
  "TUnversionedValue list \<Rightarrow> TUnversionedValue list \<Rightarrow> TPrefixComparer \<Rightarrow> int res" where
  "CompareWithWidening keyPrefix boundKey prefixComparer =
     (if length keyPrefix < length boundKey then
        rbind (prefixComparer keyPrefix boundKey (length keyPrefix)) (\<lambda>result.
          Inr (if result = 0
               then widening_loop (drop (length keyPrefix) boundKey) (int (length keyPrefix))
               else result))
      else prefixComparer keyPrefix boundKey (length boundKey))"

definition TestKey_ranges ::
  "text_lib \<Rightarrow> TUnversionedValue list \<Rightarrow> TKeyBoundRef \<Rightarrow> ESortOrder list \<Rightarrow> bool res" where
  "TestKey_ranges L key bound sortOrders =
     rbind (verify (length (KeyRef bound) \<le> length key) ''bound.size() <= key.size()'') (\<lambda>_.
     rbind (ComparePrefix L key (KeyRef bound) (length (KeyRef bound))) (\<lambda>result.
       Inr (TestComparisonResult_sorted result sortOrders (Inclusive bound) (Upper bound))))"

definition TestKeyWithWidening_sorted ::
  "text_lib \<Rightarrow> TUnversionedValue list \<Rightarrow> TKeyBoundRef \<Rightarrow> ESortOrder list \<Rightarrow> bool res" where
  "TestKeyWithWidening_sorted L key bound sortOrders =
     rbind (CompareWithWidening key (KeyRef bound) (ComparePrefix L)) (\<lambda>result.
       Inr (TestComparisonResult_sorted result sortOrders (Inclusive bound) (Upper bound)))"

definition TestKeyWithWidening ::
  "TUnversionedValue list \<Rightarrow> TKeyBoundRef \<Rightarrow> TPrefixComparer \<Rightarrow> bool res" where
  "TestKeyWithWidening key bound prefixComparer =
     rbind (CompareWithWidening key (KeyRef bound) prefixComparer) (\<lambda>result.
       Inr (TestComparisonResult result (Inclusive bound) (Upper bound)))"

section \<open>The line of keys and bounds\<close>

text \<open>
  A coordinate is the rank of a value, upright or upside down by the sort order of its
  column, the end of a key, or one of the two ends of a bound.
\<close>

datatype coordinate = Below | Here | Up "int list list" | Down "int list list" | Above

fun coordinate_class :: "coordinate \<Rightarrow> nat" where
  "coordinate_class Below = 0"
| "coordinate_class Here = 1"
| "coordinate_class (Up _) = 2"
| "coordinate_class (Down _) = 3"
| "coordinate_class Above = 4"

fun up_rank :: "coordinate \<Rightarrow> int list list" where
  "up_rank (Up r) = r"
| "up_rank _ = []"

fun down_rank :: "coordinate \<Rightarrow> int list list" where
  "down_rank (Down r) = r"
| "down_rank _ = []"

instantiation coordinate :: linorder
begin

definition less_coordinate :: "coordinate \<Rightarrow> coordinate \<Rightarrow> bool" where
  "less_coordinate a b \<longleftrightarrow>
     coordinate_class a < coordinate_class b \<or>
     coordinate_class a = coordinate_class b \<and> (up_rank a < up_rank b \<or> down_rank b < down_rank a)"

definition less_eq_coordinate :: "coordinate \<Rightarrow> coordinate \<Rightarrow> bool" where
  "less_eq_coordinate a b \<longleftrightarrow> a < b \<or> a = b"

instance
proof
  fix a b c :: coordinate
  show "a < b \<longleftrightarrow> a \<le> b \<and> \<not> b \<le> a"
    by (cases a; cases b) (auto simp: less_eq_coordinate_def less_coordinate_def)
  show "a \<le> a" by (simp add: less_eq_coordinate_def)
  show "a \<le> b \<or> b \<le> a"
    by (cases a; cases b) (auto simp: less_eq_coordinate_def less_coordinate_def)
  show "a \<le> b \<Longrightarrow> b \<le> a \<Longrightarrow> a = b"
    by (cases a; cases b) (auto simp: less_eq_coordinate_def less_coordinate_def)
  show "a \<le> b \<Longrightarrow> b \<le> c \<Longrightarrow> a \<le> c"
    by (cases a; cases b; cases c) (auto simp: less_eq_coordinate_def less_coordinate_def)
qed

end

definition orient :: "ESortOrder \<Rightarrow> int list list \<Rightarrow> coordinate" where
  "orient so r = (case so of Ascending \<Rightarrow> Up r | Descending \<Rightarrow> Down r)"

lemma TernaryCompare_orient:
  "TernaryCompare (orient so x) (orient so y) =
     (if so = Descending then - TernaryCompare x y else TernaryCompare x y)"
  by (cases so) (auto simp: orient_def TernaryCompare_def less_coordinate_def)

lemma orient_simps [simp]:
  "Below < orient so r" "Here < orient so r" "orient so r < Above" "Below < Here" "Here < Above" "Below < Above"
  "orient so r = orient so r' \<longleftrightarrow> r = r'"
  "Below \<noteq> orient so r" "Above \<noteq> orient so r" "orient so r \<noteq> Below" "orient so r \<noteq> Above"
  by (cases so; simp add: orient_def less_coordinate_def)+

definition coordinates :: "text_lib \<Rightarrow> ESortOrder list \<Rightarrow> TUnversionedValue list \<Rightarrow> coordinate list" where
  "coordinates L orders vs = map2 (\<lambda>so v. orient so (value_rank L v)) orders vs"

definition key_point :: "text_lib \<Rightarrow> TComparator \<Rightarrow> TKey \<Rightarrow> coordinate list" where
  "key_point L c key = coordinates L (SortOrders c) (Elements key) @ [Here]"

definition ref_point :: "text_lib \<Rightarrow> TComparator \<Rightarrow> TKeyBoundRef \<Rightarrow> coordinate list" where
  "ref_point L c b = coordinates L (SortOrders c) (KeyRef b) @
     [if inclusiveness_as_upper b then Above else Below]"

definition bound_point :: "text_lib \<Rightarrow> TComparator \<Rightarrow> TKeyBound \<Rightarrow> coordinate list" where
  "bound_point L c b = ref_point L c (ToKeyBoundRef b)"

text \<open>Keys and bounds that fit a comparator, with columns of comparable values.\<close>

definition key_ok :: "text_lib \<Rightarrow> (nat \<Rightarrow> column_kind) \<Rightarrow> TComparator \<Rightarrow> TKey \<Rightarrow> bool" where
  "key_ok L kinds c key \<longleftrightarrow> key \<noteq> None \<and> row_ok L kinds (Elements key) \<and> length (Elements key) = GetLength c"

definition bound_ok :: "text_lib \<Rightarrow> (nat \<Rightarrow> column_kind) \<Rightarrow> TComparator \<Rightarrow> TKeyBound \<Rightarrow> bool" where
  "bound_ok L kinds c b \<longleftrightarrow> Prefix b \<noteq> None \<and> row_ok L kinds (Elements (Prefix b)) \<and>
     length (Elements (Prefix b)) \<le> GetLength c"

lemma GetCount_Elements: "GetCount row = length (Elements row)"
  by (cases row) (simp_all add: GetCount_def Elements_def)

lemma coordinates_simps [simp]:
  "coordinates L orders [] = []"
  "coordinates L (so # orders) (v # vs) = orient so (value_rank L v) # coordinates L orders vs"
  "length (coordinates L orders vs) = min (length orders) (length vs)"
  by (simp_all add: coordinates_def)

lemma coordinates_append:
  "length vs + length ws \<le> length orders \<Longrightarrow>
   coordinates L orders (vs @ ws) = coordinates L orders vs @ coordinates L (drop (length vs) orders) ws"
proof (induction vs arbitrary: orders)
  case (Cons v vs)
  then show ?case by (cases orders) auto
qed simp

lemma coordinates_nth_split:
  assumes "i < length vs" "length vs \<le> length orders"
  shows "coordinates L orders vs = coordinates L orders (take i vs) @
    orient (orders ! i) (value_rank L (vs ! i)) # coordinates L (drop (Suc i) orders) (drop (Suc i) vs)"
proof -
  have "coordinates L orders vs =
      coordinates L orders (take i vs) @ coordinates L (drop i orders) (drop i vs)"
    using assms coordinates_append [of "take i vs" "drop i vs" orders L] by simp
  moreover have "drop i vs = vs ! i # drop (Suc i) vs" "drop i orders = orders ! i # drop (Suc i) orders"
    using assms by (simp_all add: Cons_nth_drop_Suc)
  ultimately show ?thesis by simp
qed

lemma CompareValues_rank:
  assumes "column_value L k a" "column_value L k b"
  shows "CompareValues L c i a b =
    Inr (TernaryCompare (orient (SortOrders c ! i) (value_rank L a)) (orient (SortOrders c ! i) (value_rank L b)))"
  using CompareRowValues_rank [OF assms] by (simp add: CompareValues_def TernaryCompare_orient)

lemma compare_values_loop_point:
  assumes "row_ok L (\<lambda>j. kinds (i + j)) a" "row_ok L (\<lambda>j. kinds (i + j)) b"
    and "drop i (SortOrders c) = orders" "length a \<le> length orders" "length b \<le> length a"
  shows "compare_values_loop L c i a b =
    Inr (TernaryCompare (coordinates L orders (take (length b) a)) (coordinates L orders b))"
  using assms
proof (induction L c i a b arbitrary: orders rule: compare_values_loop.induct)
  case (1 L c i l lhs r rhs)
  obtain so orders' where o: "orders = so # orders'" using "1.prems"(4) by (cases orders) auto
  with "1.prems"(3) have so: "SortOrders c ! i = so" "drop (Suc i) (SortOrders c) = orders'"
    by (metis nth_via_drop, metis drop_Suc list.sel(3) tl_drop)
  have cmp: "CompareValues L c i l r =
    Inr (TernaryCompare (orient so (value_rank L l)) (orient so (value_rank L r)))"
    using CompareValues_rank "1.prems"(1,2) so(1) by auto
  show ?case
  proof (cases "value_rank L l = value_rank L r")
    case True
    with cmp "1.IH" [of 0 orders'] "1.prems" so o show ?thesis
      by (simp add: TernaryCompare_Cons)
  next
    case False
    with cmp o show ?thesis by (simp add: TernaryCompare_Cons)
  qed
qed auto

lemma TernaryCompare_append:
  fixes xs ys :: "'a::linorder list"
  assumes "length xs = length ys"
  shows "TernaryCompare (xs @ us) (ys @ vs) =
    (if xs = ys then TernaryCompare us vs else TernaryCompare xs ys)"
  using assms by (induction xs ys rule: list_induct2) (simp_all add: TernaryCompare_Cons)

lemma TernaryCompare_sgn_iff:
  "TernaryCompare x y = -1 \<longleftrightarrow> x < y" "TernaryCompare x y = 1 \<longleftrightarrow> y < (x::'a::linorder)"
  "-1 = TernaryCompare x y \<longleftrightarrow> x < y" "1 = TernaryCompare x y \<longleftrightarrow> y < (x::'a::linorder)"
  by (auto simp: TernaryCompare_def)

lemma CompareKeyBounds_loop_point:
  assumes "row_ok L (\<lambda>j. kinds (i + j)) xs" "row_ok L (\<lambda>j. kinds (i + j)) ys"
    and "drop i (SortOrders c) = orders" "length xs \<le> length orders" "length ys \<le> length orders"
  shows "CompareKeyBounds_loop L c a b lvu i xs ys =
    Inr (let p = coordinates L orders xs @ [if inclusiveness_as_upper a then Above else Below];
             q = coordinates L orders ys @ [if inclusiveness_as_upper b then Above else Below]
         in if p = q then - sgn lvu * (of_bool (Upper a) - of_bool (Upper b)) else TernaryCompare p q)"
  using assms
proof (induction L c a b lvu i xs ys arbitrary: orders rule: CompareKeyBounds_loop.induct)
  case (1 L c a b lvu i)
  then show ?case by (auto simp: Let_def TernaryCompare_Cons TernaryCompare_sgn_iff)
next
  case (2 L c a b lvu i r rhs)
  then obtain so orders' where "orders = so # orders'" by (cases orders) auto
  then show ?case by (auto simp: TernaryCompare_Cons TernaryCompare_sgn_iff less_imp_neq [symmetric] Let_def)
next
  case (3 L c a b lvu i l lhs)
  then obtain so orders' where "orders = so # orders'" by (cases orders) auto
  then show ?case by (auto simp: TernaryCompare_Cons TernaryCompare_sgn_iff Let_def)
next
  case (4 L c a b lvu i l lhs r rhs)
  obtain so orders' where o: "orders = so # orders'" using "4.prems"(4) by (cases orders) auto
  with "4.prems"(3) have so: "SortOrders c ! i = so" "drop (Suc i) (SortOrders c) = orders'"
    by (metis nth_via_drop, metis drop_Suc list.sel(3) tl_drop)
  have cmp: "CompareValues L c i l r =
    Inr (TernaryCompare (orient so (value_rank L l)) (orient so (value_rank L r)))"
    using CompareValues_rank "4.prems"(1,2) so(1) by auto
  show ?case
  proof (cases "value_rank L l = value_rank L r")
    case True
    with cmp "4.IH" [of 0 orders'] "4.prems" so o show ?thesis
      by (simp add: TernaryCompare_Cons Let_def)
  next
    case False
    with cmp o show ?thesis by (simp add: TernaryCompare_Cons Let_def)
  qed
qed

lemma CompareKeyBounds_point:
  assumes "bound_ok L kinds c a" "bound_ok L kinds c b"
  shows "CompareKeyBounds L c a b lvu =
    Inr (if bound_point L c a = bound_point L c b
         then - sgn lvu * (of_bool (IsUpper a) - of_bool (IsUpper b))
         else TernaryCompare (bound_point L c a) (bound_point L c b))"
proof -
  have "CompareKeyBounds_loop L c (ToKeyBoundRef a) (ToKeyBoundRef b) lvu 0
      (Elements (Prefix a)) (Elements (Prefix b)) =
    Inr (if bound_point L c a = bound_point L c b
         then - sgn lvu * (of_bool (IsUpper a) - of_bool (IsUpper b))
         else TernaryCompare (bound_point L c a) (bound_point L c b))"
    using CompareKeyBounds_loop_point [of L kinds 0 "Elements (Prefix a)" "Elements (Prefix b)" c
        "SortOrders c" "ToKeyBoundRef a" "ToKeyBoundRef b" lvu] assms
    by (simp add: bound_ok_def GetLength_def bound_point_def ref_point_def ToKeyBoundRef_def Let_def
        del: mult_minus_left)
  with assms show ?thesis
    by (simp add: CompareKeyBounds_def CompareKeyBoundsUnchecked_def ValidateKeyBound_def bound_ok_def
        GetCount_Elements ToKeyBoundRef_def)
qed

lemma CompareKeys_point:
  assumes "key_ok L kinds c a" "key_ok L kinds c b" "CGComparator c = None"
  shows "CompareKeys L c a b = Inr (TernaryCompare (key_point L c a) (key_point L c b))"
proof -
  have "compare_values_loop L c 0 (Elements a) (Elements b) =
    Inr (TernaryCompare (key_point L c a) (key_point L c b))"
    using compare_values_loop_point [of L kinds 0 "Elements a" "Elements b" c "SortOrders c"] assms(1,2)
    by (simp add: key_ok_def GetLength_def key_point_def TernaryCompare_append)
  with assms show ?thesis
    by (simp add: CompareKeys_def ValidateKey_def key_ok_def TKey_GetLength_def GetCount_Elements)
qed

text \<open>Where a key stands relative to a bound.\<close>

lemma key_point_vs_bound:
  fixes L :: text_lib
  assumes "length (Elements k) = GetLength c" "length (Elements (Prefix b)) \<le> GetLength c"
  defines "p \<equiv> coordinates L (SortOrders c) (take (length (Elements (Prefix b))) (Elements k))"
    and "q \<equiv> coordinates L (SortOrders c) (Elements (Prefix b))"
  shows "key_point L c k < bound_point L c b \<longleftrightarrow>
      p < q \<or> p = q \<and> inclusiveness_as_upper (ToKeyBoundRef b)"
    and "bound_point L c b < key_point L c k \<longleftrightarrow>
      q < p \<or> p = q \<and> \<not> inclusiveness_as_upper (ToKeyBoundRef b)"
proof -
  let ?n = "length (Elements (Prefix b))"
  let ?u = "coordinates L (drop ?n (SortOrders c)) (drop ?n (Elements k)) @ [Here]"
  let ?m = "if inclusiveness_as_upper (ToKeyBoundRef b) then Above else Below"
  have k: "key_point L c k = p @ ?u"
    using coordinates_append [of "take ?n (Elements k)" "drop ?n (Elements k)" "SortOrders c" L] assms(1,2)
    by (simp add: key_point_def p_def GetLength_def)
  have b: "bound_point L c b = q @ [?m]"
    by (simp add: bound_point_def ref_point_def q_def ToKeyBoundRef_def)
  have len: "length p = length q" using assms(1,2) by (simp add: p_def q_def GetLength_def)
  have u: "?u < [Above]" "[Below] < ?u"
    by (cases "drop ?n (SortOrders c)"; cases "drop ?n (Elements k)"; simp add: coordinates_def)+
  have "TernaryCompare (p @ ?u) (q @ [?m]) = (if p = q then TernaryCompare ?u [?m] else TernaryCompare p q)"
    by (rule TernaryCompare_append [OF len])
  moreover have "TernaryCompare ?u [?m] = (if inclusiveness_as_upper (ToKeyBoundRef b) then -1 else 1)"
    using u by (simp add: TernaryCompare_sgn_iff)
  ultimately have t: "TernaryCompare (key_point L c k) (bound_point L c b) =
    (if p = q then if inclusiveness_as_upper (ToKeyBoundRef b) then -1 else 1 else TernaryCompare p q)"
    by (simp add: k b)
  show "key_point L c k < bound_point L c b \<longleftrightarrow>
      p < q \<or> p = q \<and> inclusiveness_as_upper (ToKeyBoundRef b)"
    using TernaryCompare_less_0 [of "key_point L c k" "bound_point L c b"] t by (auto split: if_splits)
  show "bound_point L c b < key_point L c k \<longleftrightarrow>
      q < p \<or> p = q \<and> \<not> inclusiveness_as_upper (ToKeyBoundRef b)"
    using TernaryCompare_greater_0 [of "key_point L c k" "bound_point L c b"] t by (auto split: if_splits)
qed

definition admits :: "text_lib \<Rightarrow> TComparator \<Rightarrow> TKeyBound \<Rightarrow> TKey \<Rightarrow> bool" where
  "admits L c b k \<longleftrightarrow>
     (if IsUpper b then key_point L c k < bound_point L c b else bound_point L c b < key_point L c k)"

lemma TestKey_point:
  assumes "key_ok L kinds c k" "bound_ok L kinds c b"
  shows "TestKey L c k b = Inr (admits L c b k)"
proof -
  let ?n = "length (Elements (Prefix b))"
  have "compare_values_loop L c 0 (Elements k) (Elements (Prefix b)) =
    Inr (TernaryCompare (coordinates L (SortOrders c) (take ?n (Elements k)))
      (coordinates L (SortOrders c) (Elements (Prefix b))))"
    using compare_values_loop_point [of L kinds 0 "Elements k" "Elements (Prefix b)" c "SortOrders c"] assms
    by (simp add: key_ok_def bound_ok_def GetLength_def)
  moreover have "ValidateKey c k = Inr ()" "ValidateKeyBound c b = Inr ()"
    using assms by (simp_all add: ValidateKey_def ValidateKeyBound_def key_ok_def bound_ok_def
        TKey_GetLength_def GetCount_Elements)
  ultimately show ?thesis
    using key_point_vs_bound [of k c b L] assms
    by (auto simp: TestKey_def admits_def key_ok_def bound_ok_def inclusiveness_as_upper_def
        ToKeyBoundRef_def Let_def)
qed

end
