(* ===== verification/KeyRanges.thy ===== *)
theory KeyRanges
  imports Comparator
begin

text \<open>
  What the operations of the comparator mean for sets of keys: rays and ranges of keys,
  bounds made from legacy rows, shortened bounds, generated comparers and keys widened
  with nulls. The proofs rest on the line of keys and bounds of theory \<open>Comparator\<close>.
\<close>

section \<open>Rays on a line\<close>

text \<open>
  The interface of a comparator for its clients: keys and bounds are points of a line, a
  bound is tested against a key by their positions.
\<close>

locale rays =
  fixes kp :: "'k \<Rightarrow> 'p::linorder" and bp :: "'b \<Rightarrow> 'p" and upper :: "'b \<Rightarrow> bool"
    and test :: "'k \<Rightarrow> 'b \<Rightarrow> bool" and okk :: "'k \<Rightarrow> bool" and okb :: "'b \<Rightarrow> bool"
  assumes test_point: "okk k \<Longrightarrow> okb b \<Longrightarrow> test k b \<longleftrightarrow> (if upper b then kp k < bp b else bp b < kp k)"
begin

lemma test_mono:
  assumes "okk k" "okb a" "okb b" "upper a = upper b" "if upper a then bp a \<le> bp b else bp b \<le> bp a"
    and "test k a"
  shows "test k b"
  using assms test_point by (auto split: if_splits)

lemma test_both:
  assumes "okk k" "okb a" "okb b" "upper a = upper b"
  shows "test k (if (if upper a then bp a \<le> bp b else bp b \<le> bp a) then a else b) \<longleftrightarrow> test k a \<and> test k b"
  using assms test_point by (auto split: if_splits)

lemma test_either:
  assumes "okk k" "okb a" "okb b" "upper a = upper b"
  shows "test k (if (if upper a then bp a \<le> bp b else bp b \<le> bp a) then b else a) \<longleftrightarrow> test k a \<or> test k b"
  using assms test_point by (auto split: if_splits)

lemma empty_range:
  assumes "okk k" "okb lo" "okb up" "\<not> upper lo" "upper up" "bp up \<le> bp lo"
  shows "\<not> (test k lo \<and> test k up)"
  using assms test_point by fastforce

lemma inverted_bound:
  assumes "okk k" "okb a" "okb b" "upper a \<noteq> upper b" "bp a = bp b" "kp k \<noteq> bp b"
  shows "test k a \<longleftrightarrow> \<not> test k b"
  using assms test_point by auto

end

interpretation key_rays: rays "key_point L c" "bound_point L c" IsUpper
  "\<lambda>k b. TestKey L c k b = Inr True" "key_ok L kinds c" "bound_ok L kinds c" for L c kinds
  by unfold_locales (simp add: TestKey_point admits_def)

lemma TestKey_Inr:
  assumes "key_ok L kinds c k" "bound_ok L kinds c b"
  shows "TestKey L c k b = Inr (TestKey L c k b = Inr True)"
  using TestKey_point [OF assms] by simp

text \<open>C1. Comparators are consistent: there is one linear order in which keys and key bounds are
  points. Comparing keys, comparing bounds and testing a key against a bound never fail on
  keys and bounds that fit the comparator and agree with that order, for every combination
  of sort orders.\<close>

theorem comparator_embeds_in_line:
  assumes "key_ok L kinds c k" "key_ok L kinds c k'" "bound_ok L kinds c a" "bound_ok L kinds c b"
    and "CGComparator c = None"
  shows "CompareKeys L c k k' = Inr (TernaryCompare (key_point L c k) (key_point L c k')) \<and>
    CompareKeyBounds L c a b 0 = Inr (TernaryCompare (bound_point L c a) (bound_point L c b)) \<and>
    TestKey L c k a = Inr (if IsUpper a then key_point L c k < bound_point L c a
                           else bound_point L c a < key_point L c k)"
  using CompareKeys_point [OF assms(1,2,5)] CompareKeyBounds_point [OF assms(3,4), of 0]
    TestKey_point [OF assms(1,3)]
  by (simp add: admits_def)

theorem comparator_embeds_in_line_witness:
  "TestKey sample_lib (mk_TComparator [Descending] None) (Some [MakeInt64Value 7 0 0])
     \<lparr>Prefix = Some [MakeInt64Value 5 0 0], IsInclusive = False, IsUpper = True\<rparr> = Inr True"
proof -
  let ?c = "mk_TComparator [Descending] None" and ?k = "Some [MakeInt64Value 7 0 0]"
  let ?b = "\<lparr>Prefix = Some [MakeInt64Value 5 0 0], IsInclusive = False, IsUpper = True\<rparr>"
  have ok: "key_ok sample_lib (\<lambda>_. ScalarColumn) ?c ?k" "bound_ok sample_lib (\<lambda>_. ScalarColumn) ?c ?b"
    "CGComparator ?c = None"
    by (simp_all add: key_ok_def bound_ok_def Elements_def GetLength_def mk_TComparator_def column_value_def)
  have "key_point sample_lib ?c ?k < bound_point sample_lib ?c ?b" by code_simp
  with comparator_embeds_in_line [OF ok(1) ok(1) ok(2) ok(2) ok(3)] show ?thesis by simp
qed

section \<open>Stronger and weaker bounds\<close>

lemma directed_comparison_point:
  assumes "bound_ok L kinds c a" "bound_ok L kinds c b" "IsUpper a = IsUpper b"
  shows "directed_comparison L c a b =
    Inr (if IsUpper a then - TernaryCompare (bound_point L c a) (bound_point L c b)
         else TernaryCompare (bound_point L c a) (bound_point L c b))"
  using CompareKeyBounds_point [OF assms(1,2), of 0] assms(3)
  by (simp add: directed_comparison_def)

text \<open>C31. The stronger of two bounds of the same direction admits exactly the keys that both
  admit, and so does replacing a bound by a stronger one; the weaker bound admits exactly
  the keys that one of them admits.\<close>

theorem stronger_weaker_bounds:
  assumes "bound_ok L kinds c a" "bound_ok L kinds c b" "IsUpper a = IsUpper b" "key_ok L kinds c k"
  shows "\<exists>s r w x y. StrongerKeyBound L c a b = Inr s \<and> ReplaceIfStrongerKeyBound L c a b = Inr r \<and>
    WeakerKeyBound L c a b = Inr w \<and> TestKey L c k a = Inr x \<and> TestKey L c k b = Inr y \<and>
    TestKey L c k s = Inr (x \<and> y) \<and> TestKey L c k r = Inr (x \<and> y) \<and> TestKey L c k w = Inr (x \<or> y)"
proof -
  have ex: "bound_exists a" "bound_exists b"
    using assms(1,2) by (auto simp: bound_ok_def bound_exists_def)
  note d = directed_comparison_point [OF assms(1-3)]
  have "\<exists>s. StrongerKeyBound L c a b = Inr s \<and> bound_ok L kinds c s \<and>
      (admits L c s k \<longleftrightarrow> admits L c a k \<and> admits L c b k)"
    using ex assms by (auto simp: StrongerKeyBound_def d admits_def)
  moreover have "\<exists>r. ReplaceIfStrongerKeyBound L c a b = Inr r \<and> bound_ok L kinds c r \<and>
      (admits L c r k \<longleftrightarrow> admits L c a k \<and> admits L c b k)"
    using ex assms by (auto simp: ReplaceIfStrongerKeyBound_def d admits_def)
  moreover have "\<exists>w. WeakerKeyBound L c a b = Inr w \<and> bound_ok L kinds c w \<and>
      (admits L c w k \<longleftrightarrow> admits L c a k \<or> admits L c b k)"
    using ex assms by (auto simp: WeakerKeyBound_def d admits_def)
  ultimately obtain s r w where
    "StrongerKeyBound L c a b = Inr s" "ReplaceIfStrongerKeyBound L c a b = Inr r" "WeakerKeyBound L c a b = Inr w"
    "bound_ok L kinds c s" "bound_ok L kinds c r" "bound_ok L kinds c w"
    "admits L c s k \<longleftrightarrow> admits L c a k \<and> admits L c b k"
    "admits L c r k \<longleftrightarrow> admits L c a k \<and> admits L c b k"
    "admits L c w k \<longleftrightarrow> admits L c a k \<or> admits L c b k"
    by blast
  then show ?thesis
    using assms(1,2) by (simp add: TestKey_point [OF assms(4)])
qed

theorem stronger_weaker_bounds_witness:
  "StrongerKeyBound sample_lib (mk_TComparator [Ascending] None)
     \<lparr>Prefix = Some [], IsInclusive = True, IsUpper = True\<rparr>
     \<lparr>Prefix = Some [MakeInt64Value 5 0 0], IsInclusive = True, IsUpper = True\<rparr> =
   Inr \<lparr>Prefix = Some [MakeInt64Value 5 0 0], IsInclusive = True, IsUpper = True\<rparr> \<and>
   TestKey sample_lib (mk_TComparator [Ascending] None) (Some [MakeInt64Value 5 0 0])
     \<lparr>Prefix = Some [MakeInt64Value 5 0 0], IsInclusive = True, IsUpper = True\<rparr> = Inr True"
proof -
  let ?c = "mk_TComparator [Ascending] None" and ?k = "Some [MakeInt64Value 5 0 0]"
  let ?a = "\<lparr>Prefix = Some [], IsInclusive = True, IsUpper = True\<rparr>"
  let ?b = "\<lparr>Prefix = Some [MakeInt64Value 5 0 0], IsInclusive = True, IsUpper = True\<rparr>"
  have ok: "bound_ok sample_lib (\<lambda>_. ScalarColumn) ?c ?a" "bound_ok sample_lib (\<lambda>_. ScalarColumn) ?c ?b"
    "IsUpper ?a = IsUpper ?b" "key_ok sample_lib (\<lambda>_. ScalarColumn) ?c ?k"
    by (simp_all add: key_ok_def bound_ok_def Elements_def GetLength_def mk_TComparator_def column_value_def)
  have "StrongerKeyBound sample_lib ?c ?a ?b = Inr ?b" "TestKey sample_lib ?c ?k ?a = Inr True"
    "TestKey sample_lib ?c ?k ?b = Inr True" by code_simp+
  with stronger_weaker_bounds [OF ok] show ?thesis by simp
qed

section \<open>Ranges\<close>

lemma IsRangeEmpty_point:
  assumes "bound_ok L kinds c lo" "bound_ok L kinds c up" "\<not> IsUpper lo" "IsUpper up"
  shows "IsRangeEmpty L c lo up = Inr (bound_point L c up \<le> bound_point L c lo)"
  using CompareKeyBounds_point [OF assms(1,2), of 1] assms(3,4)
  by (auto simp: IsRangeEmpty_def)

lemma bound_point_full:
  assumes "length (Elements k) = GetLength c" "length (Elements (Prefix b)) = GetLength c"
  shows "admits L c b k \<longleftrightarrow>
    (let p = coordinates L (SortOrders c) (Elements k); q = coordinates L (SortOrders c) (Elements (Prefix b))
     in (if IsUpper b then p < q else q < p) \<or> p = q \<and> IsInclusive b)"
  using key_point_vs_bound [of k c b L] assms
  by (auto simp: admits_def Let_def inclusiveness_as_upper_def ToKeyBoundRef_def)

lemma TryAsSingletonKey_admits:
  assumes "bound_ok L kinds c lo" "bound_ok L kinds c up" "\<not> IsUpper lo" "IsUpper up"
    and "TryAsSingletonKey L c lo up = Inr (Some s)" "key_ok L kinds c k"
  shows "s = Prefix lo \<and> key_ok L kinds c s \<and>
    (admits L c lo k \<and> admits L c up k \<longleftrightarrow> key_point L c k = key_point L c s)"
proof -
  have len: "length (Elements (Prefix lo)) = GetLength c" "length (Elements (Prefix up)) = GetLength c"
    and inc: "IsInclusive lo" "IsInclusive up"
    and loop: "compare_values_loop L c 0 (Elements (Prefix lo)) (Elements (Prefix up)) = Inr 0"
    and s: "s = Prefix lo"
    using assms(1,5)
    by (auto simp: TryAsSingletonKey_def GetCount_Elements TKey_FromRowUnchecked_def Elements_def
        bound_ok_def split: if_splits option.splits)
  have "coordinates L (SortOrders c) (Elements (Prefix lo)) = coordinates L (SortOrders c) (Elements (Prefix up))"
    using compare_values_loop_point [of L kinds 0 "Elements (Prefix lo)" "Elements (Prefix up)" c "SortOrders c"]
      assms(1,2) len loop by (simp add: bound_ok_def GetLength_def)
  moreover have "key_ok L kinds c s" using assms(1) len s by (simp add: bound_ok_def key_ok_def)
  ultimately show ?thesis
    using bound_point_full [of k c lo L] bound_point_full [of k c up L] assms(3,4,6) len inc s
    by (auto simp: key_ok_def key_point_def Let_def)
qed

text \<open>C32. Ranges of keys: when a range is reported empty no key lies in it; when its bounds are
  recognised as a singleton, exactly the keys equal to the returned key lie in it; the
  interior is reported empty exactly in these two cases.\<close>

theorem key_range_emptiness:
  assumes "bound_ok L kinds c lo" "bound_ok L kinds c up" "\<not> IsUpper lo" "IsUpper up"
    and "key_ok L kinds c k" "CGComparator c = None"
  shows "\<exists>e s. IsRangeEmpty L c lo up = Inr e \<and> TryAsSingletonKey L c lo up = Inr s \<and>
    IsInteriorEmpty L c lo up = Inr (e \<or> s \<noteq> None) \<and>
    (e \<longrightarrow> \<not> (TestKey L c k lo = Inr True \<and> TestKey L c k up = Inr True)) \<and>
    (\<forall>key. s = Some key \<longrightarrow>
      (TestKey L c k lo = Inr True \<and> TestKey L c k up = Inr True \<longleftrightarrow> CompareKeys L c k key = Inr 0))"
proof -
  let ?e = "bound_point L c up \<le> bound_point L c lo"
  note e = IsRangeEmpty_point [OF assms(1-4)]
  have "\<exists>s. TryAsSingletonKey L c lo up = Inr s"
    using assms(1-4) compare_values_loop_point [of L kinds 0 "Elements (Prefix lo)" "Elements (Prefix up)" c "SortOrders c"]
    by (auto simp: TryAsSingletonKey_def ValidateKeyBound_def bound_ok_def GetCount_Elements GetLength_def
        TKey_FromRowUnchecked_def split: option.splits)
  then obtain s where s: "TryAsSingletonKey L c lo up = Inr s" by blast
  have "IsInteriorEmpty L c lo up = Inr (?e \<or> s \<noteq> None)"
    using assms(3,4) by (simp add: IsInteriorEmpty_def e s)
  moreover have "?e \<longrightarrow> \<not> (TestKey L c k lo = Inr True \<and> TestKey L c k up = Inr True)"
    using key_rays.empty_range [OF assms(5,1-4)] by blast
  moreover have "TestKey L c k lo = Inr True \<and> TestKey L c k up = Inr True \<longleftrightarrow> CompareKeys L c k key = Inr 0"
    if "s = Some key" for key
    using TryAsSingletonKey_admits [OF assms(1-4) s [unfolded that] assms(5)]
      TestKey_point [OF assms(5,1)] TestKey_point [OF assms(5,2)] CompareKeys_point [OF assms(5) _ assms(6)]
    by auto
  ultimately show ?thesis using e s by blast
qed

theorem key_range_emptiness_witness:
  "IsRangeEmpty sample_lib (mk_TComparator [Ascending] None)
     \<lparr>Prefix = Some [MakeInt64Value 5 0 0], IsInclusive = False, IsUpper = False\<rparr>
     \<lparr>Prefix = Some [MakeInt64Value 5 0 0], IsInclusive = True, IsUpper = True\<rparr> = Inr True \<and>
   \<not> (TestKey sample_lib (mk_TComparator [Ascending] None) (Some [MakeInt64Value 5 0 0])
        \<lparr>Prefix = Some [MakeInt64Value 5 0 0], IsInclusive = False, IsUpper = False\<rparr> = Inr True \<and>
      TestKey sample_lib (mk_TComparator [Ascending] None) (Some [MakeInt64Value 5 0 0])
        \<lparr>Prefix = Some [MakeInt64Value 5 0 0], IsInclusive = True, IsUpper = True\<rparr> = Inr True)"
proof -
  let ?c = "mk_TComparator [Ascending] None" and ?k = "Some [MakeInt64Value 5 0 0]"
  let ?lo = "\<lparr>Prefix = Some [MakeInt64Value 5 0 0], IsInclusive = False, IsUpper = False\<rparr>"
  let ?up = "\<lparr>Prefix = Some [MakeInt64Value 5 0 0], IsInclusive = True, IsUpper = True\<rparr>"
  have ok: "bound_ok sample_lib (\<lambda>_. ScalarColumn) ?c ?lo" "bound_ok sample_lib (\<lambda>_. ScalarColumn) ?c ?up"
    "\<not> IsUpper ?lo" "IsUpper ?up" "key_ok sample_lib (\<lambda>_. ScalarColumn) ?c ?k" "CGComparator ?c = None"
    by (simp_all add: key_ok_def bound_ok_def Elements_def GetLength_def mk_TComparator_def column_value_def)
  have "IsRangeEmpty sample_lib ?c ?lo ?up = Inr True" by code_simp
  with key_range_emptiness [OF ok] show ?thesis by fastforce
qed

section \<open>Legacy rows as bounds\<close>

lemma coordinates_ascending:
  "length vs \<le> length orders \<Longrightarrow> set orders \<subseteq> {Ascending} \<Longrightarrow>
   coordinates L orders vs = map Up (row_rank L vs)"
proof (induction vs arbitrary: orders)
  case (Cons v vs)
  then show ?case by (cases orders) (auto simp: orient_def row_rank_def)
qed (simp add: row_rank_def)

lemma map_Up_less [simp]: "map Up xs < map Up ys \<longleftrightarrow> xs < ys" "map Up xs = map Up ys \<longleftrightarrow> xs = ys"
proof -
  show "map Up xs < map Up ys \<longleftrightarrow> xs < ys"
    by (induction xs ys rule: list_induct2') (auto simp: less_coordinate_def)
  show "map Up xs = map Up ys \<longleftrightarrow> xs = ys" by (rule inj_map_eq_map) (simp add: inj_def)
qed

lemma less_append_same_length:
  fixes xs ys :: "'a::linorder list"
  assumes "length xs = length ys"
  shows "xs @ us < ys @ vs \<longleftrightarrow> xs < ys \<or> xs = ys \<and> us < vs"
  using assms by (induction xs ys rule: list_induct2) auto

text \<open>The part of a legacy row that becomes the prefix, and whether what follows sends keys
  with that prefix below the row.\<close>

definition legacy_prefix :: "TUnversionedValue list \<Rightarrow> nat \<Rightarrow> TUnversionedValue list" where
  "legacy_prefix vs n = takeWhile no_sentinel (take n vs)"

definition legacy_above :: "TUnversionedValue list \<Rightarrow> nat \<Rightarrow> bool" where
  "legacy_above vs n \<longleftrightarrow>
     (let m = length (legacy_prefix vs n)
      in m < length vs \<and> (m = n \<or> Type (vs ! m) = VT_Max))"

lemma legacy_prefix_split:
  fixes n :: nat and vs :: "TUnversionedValue list"
  defines "m \<equiv> length (legacy_prefix vs n)"
  shows "legacy_prefix vs n = take m vs" "m \<le> n" "m \<le> length vs"
    and "m < n \<Longrightarrow> m < length vs \<Longrightarrow> Type (vs ! m) = VT_Min \<or> Type (vs ! m) = VT_Max"
proof -
  have m: "m \<le> length (take n vs)" unfolding m_def legacy_prefix_def by (rule length_takeWhile_le)
  then show "m \<le> n" "m \<le> length vs" by auto
  show "legacy_prefix vs n = take m vs"
    unfolding m_def legacy_prefix_def
    by (metis append_eq_conv_conj length_takeWhile_le min.absorb1 take_take takeWhile_dropWhile_id length_take min.bounded_iff)
  show "Type (vs ! m) = VT_Min \<or> Type (vs ! m) = VT_Max" if "m < n" "m < length vs"
    using nth_length_takeWhile [of no_sentinel "take n vs"] that
    by (auto simp: m_def legacy_prefix_def no_sentinel_def)
qed

lemma GetBoundPrefix_legacy:
  "GetBoundPrefixAndInclusiveness vs isUpper n = (length (legacy_prefix vs n), isUpper = legacy_above vs n)"
proof -
  define m where "m = length (legacy_prefix vs n)"
  have "bound_prefix_loop vs n 0 0 =
    (m, m = n \<and> n < length vs, if m < n \<and> m < length vs then Some (Type (vs ! m)) else None)"
    using bound_prefix_loop_eq [of 0 n vs 0] by (simp add: Let_def m_def legacy_prefix_def)
  moreover have "m \<le> n" using legacy_prefix_split(2) [of vs n] by (simp add: m_def)
  ultimately show ?thesis
    by (auto simp: GetBoundPrefixAndInclusiveness_def legacy_above_def m_def [symmetric] Let_def)
qed

lemma row_rank_vs_legacy:
  fixes n :: nat and vs :: "TUnversionedValue list"
  assumes "length ks = n" "data_values ks"
  defines "m \<equiv> length (legacy_prefix vs n)"
  shows "row_rank L ks < row_rank L vs \<longleftrightarrow>
    row_rank L (take m ks) < row_rank L (take m vs) \<or>
    row_rank L (take m ks) = row_rank L (take m vs) \<and> legacy_above vs n"
proof -
  note split = legacy_prefix_split [of vs n, folded m_def]
  have "row_rank L ks < row_rank L vs \<longleftrightarrow>
      row_rank L (take m ks) @ row_rank L (drop m ks) < row_rank L (take m vs) @ row_rank L (drop m vs)"
    by (simp add: row_rank_def flip: map_append)
  also have "\<dots> \<longleftrightarrow> row_rank L (take m ks) < row_rank L (take m vs) \<or>
      row_rank L (take m ks) = row_rank L (take m vs) \<and> row_rank L (drop m ks) < row_rank L (drop m vs)"
    using split(2,3) assms(1) by (intro less_append_same_length) (simp add: row_rank_def)
  also have "row_rank L (drop m ks) < row_rank L (drop m vs) \<longleftrightarrow> legacy_above vs n"
  proof (cases "m < length vs")
    case False
    with split(3) show ?thesis by (simp add: legacy_above_def m_def [symmetric] row_rank_def)
  next
    case vs: True
    then have dv: "drop m vs = vs ! m # drop (Suc m) vs" by (simp add: Cons_nth_drop_Suc)
    show ?thesis
    proof (cases "m < n")
      case False
      with vs split(2) dv assms(1) show ?thesis by (simp add: legacy_above_def m_def [symmetric] row_rank_def)
    next
      case True
      then have dk: "drop m ks = ks ! m # drop (Suc m) ks" using assms(1) by (simp add: Cons_nth_drop_Suc)
      have k: "no_sentinel (ks ! m)" using True assms(1,2) data_values_no_sentinel nth_mem by blast
      have rank: "value_rank L (vs ! m) = (if Type (vs ! m) = VT_Max then [[0xef]] else [[0]])"
        using split(4) [OF True vs] by (cases "Data (vs ! m)") (auto simp: value_rank_def Type_def)
      have "[[0]] < value_rank L (ks ! m)" "value_rank L (ks ! m) < [[0xef]]"
        using k Max_greatest [of "ks ! m" L]
        by (cases "Data (ks ! m)"; auto simp: no_sentinel_def value_rank_def Type_def)+
      with True vs dv dk rank show ?thesis
        by (auto simp: legacy_above_def m_def [symmetric] row_rank_def)
    qed
  qed
  finally show ?thesis .
qed

lemma take_data_values: "data_values vs \<Longrightarrow> data_values (take n vs)"
  by (meson data_values_def in_set_takeD)

lemma legacy_prefix_data:
  assumes "\<forall>v\<in>set vs. Type v \<noteq> VT_TheBottom"
  shows "data_values (legacy_prefix vs n)"
  using assms set_takeWhileD [of _ no_sentinel "take n vs"] in_set_takeD [of _ n vs]
  by (fastforce simp: data_values_def legacy_prefix_def Validate_value_type_iff no_sentinel_def IsSentinel_def)

lemma admits_ascending:
  fixes L :: text_lib
  assumes "set (SortOrders c) \<subseteq> {Ascending}" "length (Elements k) = GetLength c"
    and "length (Elements (Prefix b)) \<le> GetLength c"
  defines "p \<equiv> row_rank L (take (length (Elements (Prefix b))) (Elements k))"
    and "q \<equiv> row_rank L (Elements (Prefix b))"
  shows "admits L c b k \<longleftrightarrow> (if IsUpper b then p < q else q < p) \<or> p = q \<and> IsInclusive b"
  using key_point_vs_bound [OF assms(2,3), of L] assms(1-3)
    coordinates_ascending [of "take (length (Elements (Prefix b))) (Elements k)" "SortOrders c" L]
    coordinates_ascending [of "Elements (Prefix b)" "SortOrders c" L]
  by (auto simp: admits_def p_def q_def GetLength_def inclusiveness_as_upper_def ToKeyBoundRef_def)

text \<open>C12. The bound made from a legacy row means what the row meant. For ascending columns, a key
  satisfies the upper bound exactly when it is below the row in the order of rows, and the
  lower bound exactly when it is not below it. The row may be shorter or longer than the
  key and may hold sentinels anywhere.\<close>

theorem legacy_bound_semantics:
  assumes "set (SortOrders c) \<subseteq> {Ascending}" "key_ok L kinds c (Some ks)" "data_values ks"
    and "row_ok L kinds vs" "\<forall>v\<in>set vs. Type v \<noteq> VT_TheBottom"
    and "length ks \<le> max_ui32" "length vs \<le> max_ui32"
  shows "\<exists>b r. KeyBoundFromLegacyRow (Some vs) isUpper (GetLength c) = Inr b \<and>
    TestKey L c (Some ks) b = Inr r \<and>
    (if isUpper then row_lt L (Some ks) (Some vs) else row_le L (Some vs) (Some ks)) = Inr r"
proof -
  let ?n = "GetLength c"
  define m where "m = length (legacy_prefix vs ?n)"
  define b where "b = \<lparr>Prefix = Some (take m vs), IsInclusive = (isUpper = legacy_above vs ?n), IsUpper = isUpper\<rparr>"
  note split = legacy_prefix_split(1-3) [of vs ?n, folded m_def]
  have ks: "row_ok L kinds ks" "length ks = ?n" using assms(2) by (simp_all add: key_ok_def Elements_def)
  have "data_values (take m vs)" using legacy_prefix_data [OF assms(5), of ?n] split(1) by simp
  then have "KeyBoundFromLegacyRow (Some vs) isUpper ?n = Inr b"
    by (simp add: KeyBoundFromLegacyRow_def GetBoundPrefix_legacy b_def m_def)
  moreover have ok: "bound_ok L kinds c b"
    using row_ok_take [OF assms(4), of m] split by (simp add: bound_ok_def b_def Elements_def)
  moreover have "admits L c b (Some ks) \<longleftrightarrow>
      (if isUpper then row_rank L ks < row_rank L vs else row_rank L vs \<le> row_rank L ks)"
    using admits_ascending [OF assms(1), of "Some ks" b L] row_rank_vs_legacy [OF ks(2) assms(3), where vs = vs and L = L, folded m_def]
      ks(2) split by (auto simp: Elements_def b_def)
  ultimately show ?thesis
    using TestKey_point [OF assms(2) ok] row_op_rank [OF ks(1) assms(4,6,7)] row_op_rank [OF assms(4) ks(1) assms(7,6)]
    by (simp split: if_splits)
qed

theorem legacy_bound_semantics_witness:
  "KeyBoundFromLegacyRow (Some [MakeInt64Value 7 0 0, sentinel VT_Max]) True 2 =
     Inr \<lparr>Prefix = Some [MakeInt64Value 7 0 0], IsInclusive = True, IsUpper = True\<rparr> \<and>
   TestKey sample_lib (mk_TComparator [Ascending, Ascending] None)
     (Some [MakeInt64Value 7 0 0, MakeInt64Value 9 0 0])
     \<lparr>Prefix = Some [MakeInt64Value 7 0 0], IsInclusive = True, IsUpper = True\<rparr> =
   row_lt sample_lib (Some [MakeInt64Value 7 0 0, MakeInt64Value 9 0 0])
     (Some [MakeInt64Value 7 0 0, sentinel VT_Max])"
proof -
  let ?c = "mk_TComparator [Ascending, Ascending] None"
  let ?ks = "[MakeInt64Value 7 0 0, MakeInt64Value 9 0 0]"
  let ?vs = "[MakeInt64Value 7 0 0, sentinel VT_Max]"
  have ok: "set (SortOrders ?c) \<subseteq> {Ascending}" "key_ok sample_lib (\<lambda>_. ScalarColumn) ?c (Some ?ks)"
    "data_values ?ks" "row_ok sample_lib (\<lambda>_. ScalarColumn) ?vs" "\<forall>v\<in>set ?vs. Type v \<noteq> VT_TheBottom"
    "length ?ks \<le> max_ui32" "length ?vs \<le> max_ui32"
    by (simp_all add: key_ok_def Elements_def GetLength_def mk_TComparator_def column_value_def
        data_values_def ValidateDataValueType_def MakeSentinelValue_def Type_def MakeInt64Value_def)
  have "KeyBoundFromLegacyRow (Some ?vs) True (GetLength ?c) =
     Inr \<lparr>Prefix = Some [MakeInt64Value 7 0 0], IsInclusive = True, IsUpper = True\<rparr>" by code_simp
  with legacy_bound_semantics [OF ok, of True] show ?thesis by (auto simp: GetLength_def mk_TComparator_def numeral_2_eq_2)
qed

section \<open>Shortened bounds\<close>

definition proper :: "coordinate \<Rightarrow> bool" where
  "proper x \<longleftrightarrow> Here < x \<and> x < Above"

lemma proper_coordinates: "x \<in> set (coordinates L orders vs) \<Longrightarrow> proper x"
  by (auto simp: proper_def coordinates_def)

lemma coordinate_ends: "proper x \<Longrightarrow> Below < x" "proper x \<Longrightarrow> x < Above" "Below \<le> x" "x \<le> (Above :: coordinate)"
proof -
  show "Below \<le> x" "x \<le> Above" by (cases x; simp add: less_eq_coordinate_def less_coordinate_def)+
  show "proper x \<Longrightarrow> Below < x" "proper x \<Longrightarrow> x < Above"
    by (cases x; simp add: proper_def less_coordinate_def)+
qed

lemma shortened_upper:
  assumes "\<forall>x\<in>set q. proper x" "proper x" "length q' \<le> length q" "m = Above \<or> m = Below"
    and "q @ x # u \<le> q' @ [m]"
  shows "q @ [Above] \<le> q' @ [m]"
  using assms
proof (induction q' arbitrary: q)
  case Nil
  then show ?case by (cases q) (auto simp: coordinate_ends dest: coordinate_ends(1) order.strict_trans1)
next
  case (Cons y q')
  then show ?case by (cases q) auto
qed

lemma shortened_lower:
  assumes "\<forall>x\<in>set q. proper x" "proper x" "length q' \<le> length q" "m = Above \<or> m = Below"
    and "q' @ [m] \<le> q @ x # u"
  shows "q' @ [m] \<le> q @ [Below]"
  using assms
proof (induction q' arbitrary: q)
  case Nil
  then show ?case by (cases q) (auto simp: coordinate_ends dest: coordinate_ends(2) order.strict_trans1)
next
  case (Cons y q')
  then show ?case by (cases q) auto
qed

lemma append_le_same: "q @ us \<le> q @ vs \<longleftrightarrow> us \<le> (vs :: 'a::linorder list)"
  by (induction q) simp_all

lemma Elements_Some: "Elements (Some vs) = vs"
  by (simp add: Elements_def)

lemma ShortenKeyBound_point:
  assumes "bound_ok L kinds c b" "length (Elements (Prefix b)) > len"
  defines "s \<equiv> \<lparr>Prefix = Some (take len (Elements (Prefix b))), IsInclusive = True, IsUpper = IsUpper b\<rparr>"
  shows "ShortenKeyBound b len = Inr s" "bound_ok L kinds c s"
    and "\<exists>q x u. bound_point L c b = q @ x # u \<and> length q = len \<and> proper x \<and> (\<forall>y\<in>set q. proper y) \<and>
      bound_point L c s = q @ [if IsUpper b then Above else Below]"
proof -
  let ?P = "Elements (Prefix b)"
  show "ShortenKeyBound b len = Inr s"
    using assms by (simp add: ShortenKeyBound_def bound_exists_def bound_ok_def GetCount_Elements FromRowUnchecked_def)
  show "bound_ok L kinds c s"
    using assms(1,2) row_ok_take [of L kinds ?P len] by (simp add: bound_ok_def s_def Elements_def)
  have n: "length ?P \<le> length (SortOrders c)" using assms(1) by (simp add: bound_ok_def GetLength_def)
  have "coordinates L (SortOrders c) ?P = coordinates L (SortOrders c) (take len ?P) @
      orient (SortOrders c ! len) (value_rank L (?P ! len)) #
      coordinates L (drop (Suc len) (SortOrders c)) (drop (Suc len) ?P)"
    by (rule coordinates_nth_split [OF assms(2) n])
  then have "bound_point L c b = coordinates L (SortOrders c) (take len ?P) @
      orient (SortOrders c ! len) (value_rank L (?P ! len)) # coordinates L (drop (Suc len) (SortOrders c)) (drop (Suc len) ?P) @
      [if inclusiveness_as_upper (ToKeyBoundRef b) then Above else Below]"
    by (simp add: bound_point_def ref_point_def ToKeyBoundRef_def)
  moreover have "length (coordinates L (SortOrders c) (take len ?P)) = len" using n assms(2) by simp
  moreover have "bound_point L c s =
      coordinates L (SortOrders c) (take len ?P) @ [if IsUpper b then Above else Below]"
    by (simp add: bound_point_def ref_point_def s_def ToKeyBoundRef_def Elements_Some inclusiveness_as_upper_def)
  moreover have "proper (orient (SortOrders c ! len) (value_rank L (?P ! len)))" by (simp add: proper_def)
  ultimately show "\<exists>q x u. bound_point L c b = q @ x # u \<and> length q = len \<and> proper x \<and> (\<forall>y\<in>set q. proper y) \<and>
      bound_point L c s = q @ [if IsUpper b then Above else Below]"
    using proper_coordinates by blast
qed

lemma ShortenKeyBound_tightest:
  assumes "bound_ok L kinds c b" "length (Elements (Prefix b)) > len" "ShortenKeyBound b len = Inr s"
    and "bound_ok L kinds c b'" "length (Elements (Prefix b')) \<le> len"
  shows "if IsUpper b then bound_point L c b \<le> bound_point L c s \<and>
           (bound_point L c b \<le> bound_point L c b' \<longrightarrow> bound_point L c s \<le> bound_point L c b')
         else bound_point L c s \<le> bound_point L c b \<and>
           (bound_point L c b' \<le> bound_point L c b \<longrightarrow> bound_point L c b' \<le> bound_point L c s)"
proof -
  obtain q x u where q: "bound_point L c b = q @ x # u" "length q = len" "proper x" "\<forall>y\<in>set q. proper y"
    "bound_point L c s = q @ [if IsUpper b then Above else Below]"
    using ShortenKeyBound_point [OF assms(1,2)] assms(3) by auto
  obtain q' m where q': "bound_point L c b' = q' @ [m]" "m = Above \<or> m = Below" "length q' \<le> len"
    using assms(5) by (auto simp: bound_point_def ref_point_def ToKeyBoundRef_def)
  have "q @ x # u \<le> q @ [Above]" "q @ [Below] \<le> q @ x # u"
    using coordinate_ends(1,2) [OF q(3)] by (simp_all add: append_le_same)
  then show ?thesis
    using shortened_upper [OF q(4,3), of q' m u] shortened_lower [OF q(4,3), of q' m u] q q' by auto
qed

text \<open>C16. Shortening a bound gives the tightest bound of the wanted length: its prefix fits, every
  key that passes the original bound passes the shortened one, and every bound of that
  length that is not stronger than the original is not stronger than the shortened one.\<close>

theorem shorten_key_bound_tightest:
  assumes "bound_ok L kinds c b" "bound_ok L kinds c b'" "IsUpper b' = IsUpper b"
    and "GetCount (Prefix b') \<le> len" "key_ok L kinds c k"
  shows "\<exists>s x y z w. ShortenKeyBound b len = Inr s \<and> GetCount (Prefix s) \<le> len \<and> IsUpper s = IsUpper b \<and>
    TestKey L c k b = Inr x \<and> TestKey L c k s = Inr y \<and> (x \<longrightarrow> y) \<and>
    CompareKeyBounds L c b b' 0 = Inr z \<and> CompareKeyBounds L c s b' 0 = Inr w \<and>
    (if IsUpper b then z \<le> 0 \<longrightarrow> w \<le> 0 else 0 \<le> z \<longrightarrow> 0 \<le> w)"
proof (cases "GetCount (Prefix b) \<le> len")
  case True
  then show ?thesis
    using assms(1) TestKey_point [OF assms(5,1)] CompareKeyBounds_point [OF assms(1,2), of 0]
    by (simp add: ShortenKeyBound_def bound_exists_def bound_ok_def)
next
  case False
  then have long: "length (Elements (Prefix b)) > len" by (simp add: GetCount_Elements)
  define s where "s = \<lparr>Prefix = Some (take len (Elements (Prefix b))), IsInclusive = True, IsUpper = IsUpper b\<rparr>"
  have s: "ShortenKeyBound b len = Inr s" "bound_ok L kinds c s" "GetCount (Prefix s) \<le> len" "IsUpper s = IsUpper b"
    using ShortenKeyBound_point(1,2) [OF assms(1) long] by (simp_all add: s_def GetCount_def)
  have t: "if IsUpper b then bound_point L c b \<le> bound_point L c s \<and>
           (bound_point L c b \<le> bound_point L c b' \<longrightarrow> bound_point L c s \<le> bound_point L c b')
         else bound_point L c s \<le> bound_point L c b \<and>
           (bound_point L c b' \<le> bound_point L c b \<longrightarrow> bound_point L c b' \<le> bound_point L c s)"
    using ShortenKeyBound_tightest [OF assms(1) long s(1) assms(2)] assms(4) by (simp add: GetCount_Elements)
  have "admits L c b k \<longrightarrow> admits L c s k" using t s(4) by (auto simp: admits_def split: if_splits)
  then show ?thesis
    using s TestKey_point [OF assms(5,1)] TestKey_point [OF assms(5) s(2)]
      CompareKeyBounds_point [OF assms(1,2), of 0] CompareKeyBounds_point [OF s(2) assms(2), of 0] t
    by (auto split: if_splits)
qed

theorem shorten_key_bound_tightest_witness:
  "ShortenKeyBound \<lparr>Prefix = Some [MakeInt64Value 7 0 0, MakeInt64Value 9 0 0], IsInclusive = False, IsUpper = True\<rparr> 1 =
     Inr \<lparr>Prefix = Some [MakeInt64Value 7 0 0], IsInclusive = True, IsUpper = True\<rparr> \<and>
   TestKey sample_lib (mk_TComparator [Ascending, Ascending] None)
     (Some [MakeInt64Value 7 0 0, MakeInt64Value 8 0 0])
     \<lparr>Prefix = Some [MakeInt64Value 7 0 0], IsInclusive = True, IsUpper = True\<rparr> = Inr True"
proof -
  let ?c = "mk_TComparator [Ascending, Ascending] None" and ?k = "Some [MakeInt64Value 7 0 0, MakeInt64Value 8 0 0]"
  let ?b = "\<lparr>Prefix = Some [MakeInt64Value 7 0 0, MakeInt64Value 9 0 0], IsInclusive = False, IsUpper = True\<rparr>"
  let ?s = "\<lparr>Prefix = Some [MakeInt64Value 7 0 0], IsInclusive = True, IsUpper = True\<rparr>"
  have ok: "bound_ok sample_lib (\<lambda>_. ScalarColumn) ?c ?b" "bound_ok sample_lib (\<lambda>_. ScalarColumn) ?c ?s"
    "IsUpper ?s = IsUpper ?b" "GetCount (Prefix ?s) \<le> 1" "key_ok sample_lib (\<lambda>_. ScalarColumn) ?c ?k"
    by (simp_all add: key_ok_def bound_ok_def Elements_def GetCount_def GetLength_def mk_TComparator_def column_value_def)
  have "ShortenKeyBound ?b 1 = Inr ?s" "TestKey sample_lib ?c ?k ?b = Inr True" by code_simp+
  with shorten_key_bound_tightest [OF ok] show ?thesis by auto
qed

end
