(* ===== verification/PrefixComparers.thy ===== *)
theory PrefixComparers
  imports KeyRanges
begin

text \<open>
  Comparers of prefixes of rows: the contract that a compiler-generated comparer shares with
  \<open>ComparePrefix\<close> of \<open>comparator.cpp\<close>, and what the functions over such a comparer compute.
  The contract is a locale; \<open>ComparePrefix\<close> is shown to meet it.
\<close>

section \<open>The contract\<close>

lemma TernaryCompare_snoc:
  "length xs = length ys \<Longrightarrow> TernaryCompare (xs @ [x]) (ys @ [x]) = TernaryCompare xs (ys :: 'a::linorder list)"
  by (simp add: TernaryCompare_append)

lemma Nil_less_iff: "[] < xs \<longleftrightarrow> xs \<noteq> ([] :: 'a::linorder list)"
  by (cases xs) simp_all

text \<open>The result names the first column that differs, counted from one, with the sign of the
  comparison there.\<close>

definition first_diff ::
  "text_lib \<Rightarrow> TUnversionedValue list \<Rightarrow> TUnversionedValue list \<Rightarrow> nat \<Rightarrow> int \<Rightarrow> bool" where
  "first_diff L a b n r \<longleftrightarrow>
     (if r = 0 then row_rank L (take n a) = row_rank L (take n b)
      else (let i = nat (\<bar>r\<bar> - 1) in
        i < n \<and> row_rank L (take i a) = row_rank L (take i b) \<and>
        sgn r = TernaryCompare (value_rank L (a ! i)) (value_rank L (b ! i))))"

definition prefix_contract :: "text_lib \<Rightarrow> (nat \<Rightarrow> column_kind) \<Rightarrow> TPrefixComparer \<Rightarrow> bool" where
  "prefix_contract L kinds cg \<longleftrightarrow>
     (\<forall>a b n. row_ok L kinds a \<and> row_ok L kinds b \<and> n \<le> length a \<and> n \<le> length b \<longrightarrow>
        (\<exists>r. cg a b n = Inr r \<and> first_diff L a b n r))"

lemma coordinates_of_ranks: "coordinates L orders vs = map2 orient orders (row_rank L vs)"
  by (simp add: coordinates_def row_rank_def zip_map2 split_def)

lemma first_diff_point:
  assumes "first_diff L a b n r" "n \<le> length a" "n \<le> length b" "n \<le> length orders"
  shows "TernaryCompare (coordinates L orders (take n a)) (coordinates L orders (take n b)) =
    (if r = 0 then 0 else if orders ! nat (\<bar>r\<bar> - 1) = Descending then - sgn r else sgn r)"
proof (cases "r = 0")
  case True
  with assms(1) show ?thesis by (simp add: first_diff_def coordinates_of_ranks)
next
  case False
  define i where "i = nat (\<bar>r\<bar> - 1)"
  have i: "i < n" "row_rank L (take i a) = row_rank L (take i b)"
    "sgn r = TernaryCompare (value_rank L (a ! i)) (value_rank L (b ! i))"
    using assms(1) False by (simp_all add: first_diff_def i_def Let_def)
  have "value_rank L (a ! i) \<noteq> value_rank L (b ! i)" using i(3) False by (auto simp: sgn_0_0)
  moreover have "coordinates L orders (take i a) = coordinates L orders (take i b)"
    using i(2) by (simp add: coordinates_of_ranks)
  ultimately show ?thesis
    using coordinates_nth_split [of i "take n a" orders L] coordinates_nth_split [of i "take n b" orders L]
      i(1,3) assms(2-4) False
    by (simp add: TernaryCompare_append TernaryCompare_Cons TernaryCompare_orient i_def [symmetric])
qed

lemma first_diff_rows:
  assumes "first_diff L a b n r" "n \<le> length a" "n \<le> length b"
  shows "sgn r = TernaryCompare (row_rank L (take n a)) (row_rank L (take n b))"
proof -
  have "TernaryCompare (map Up xs) (map Up ys) = TernaryCompare xs ys" for xs ys :: "int list list list"
    by (simp add: TernaryCompare_def)
  then show ?thesis
    using first_diff_point [OF assms, of "replicate n Ascending"] assms
      coordinates_ascending [of "take n a" "replicate n Ascending" L]
      coordinates_ascending [of "take n b" "replicate n Ascending" L]
    by (cases "r = 0") (auto simp: first_diff_def Let_def)
qed

section \<open>The comparer of the library\<close>

lemma ComparePrefix_loop_first_diff:
  assumes "row_ok L kinds a" "row_ok L kinds b" "n \<le> length a" "n \<le> length b" "0 \<le> k"
  shows "\<exists>r. ComparePrefix_loop L a b n k = Inr r \<and>
    (if r = 0 then row_rank L (take n a) = row_rank L (take n b)
     else (let i = nat (\<bar>r\<bar> - 1 - k) in k < \<bar>r\<bar> \<and>
        i < n \<and> row_rank L (take i a) = row_rank L (take i b) \<and>
        sgn r = TernaryCompare (value_rank L (a ! i)) (value_rank L (b ! i))))"
  using assms
proof (induction L a b n k arbitrary: kinds rule: ComparePrefix_loop.induct)
  case (2 L l lhs r rhs n index)
  then have c: "CompareRowValues L l r = Inr (TernaryCompare (value_rank L l) (value_rank L r))"
    by (auto intro: CompareRowValues_rank)
  show ?case
  proof (cases "value_rank L l = value_rank L r")
    case True
    from "2.IH" [OF c refl, of "\<lambda>j. kinds (Suc j)"] "2.prems" True obtain x where x:
      "ComparePrefix_loop L lhs rhs n (index + 1) = Inr x"
      "if x = 0 then row_rank L (take n lhs) = row_rank L (take n rhs)
       else (let i = nat (\<bar>x\<bar> - 1 - (index + 1)) in index + 1 < \<bar>x\<bar> \<and>
          i < n \<and> row_rank L (take i lhs) = row_rank L (take i rhs) \<and>
          sgn x = TernaryCompare (value_rank L (lhs ! i)) (value_rank L (rhs ! i)))"
      by auto
    have i: "nat (\<bar>x\<bar> - 1 - index) = Suc (nat (\<bar>x\<bar> - 1 - (index + 1)))" if "index + 1 < \<bar>x\<bar>" using that by simp
    show ?thesis
      using x c True i by (cases "x = 0") (auto simp: row_rank_def Let_def)
  next
    case False
    with c "2.prems"(5) show ?thesis
      by (auto simp: row_rank_def Let_def TernaryCompare_def)
  qed
qed auto

lemma ComparePrefix_contract: "prefix_contract L kinds (ComparePrefix L)"
  unfolding prefix_contract_def ComparePrefix_def
proof (intro allI impI, elim conjE)
  fix a b n
  assume "row_ok L kinds a" "row_ok L kinds b" "n \<le> length a" "n \<le> length b"
  from ComparePrefix_loop_first_diff [OF this, of 0] obtain r where
    "ComparePrefix_loop L a b n 0 = Inr r" "first_diff L a b n r"
    by (auto simp: first_diff_def Let_def split: if_splits)
  then show "\<exists>r. ComparePrefix_loop L a b n 0 = Inr r \<and> first_diff L a b n r" by blast
qed

section \<open>Widening\<close>

lemma null_rank:
  "Type v = VT_Null \<Longrightarrow> value_rank L v = [[2]]"
  "no_sentinel v \<Longrightarrow> Type v \<noteq> VT_TheBottom \<Longrightarrow> Type v \<noteq> VT_Null \<Longrightarrow> [[2]] < value_rank L v"
  by (cases "Data v"; simp add: value_rank_def Type_def no_sentinel_def)+

lemma row_rank_nulls: "\<forall>b\<in>set xs. Type b = VT_Null \<Longrightarrow> row_rank L xs = replicate (length xs) [[2]]"
  by (induction xs) (simp_all add: row_rank_def null_rank(1))

lemma data_value_above_null:
  "data_values vs \<Longrightarrow> v \<in> set vs \<Longrightarrow> Type v \<noteq> VT_Null \<Longrightarrow> [[2]] < value_rank L v"
  by (rule null_rank(2)) (auto simp: data_values_def Validate_value_type_iff IsSentinel_def no_sentinel_def)

lemma widening_loop_spec:
  assumes "0 \<le> k"
  shows "if widening_loop bs k = 0 then \<forall>b\<in>set bs. Type b = VT_Null
    else \<exists>i<length bs. widening_loop bs k = - (k + int i + 1) \<and>
      (\<forall>b\<in>set (take i bs). Type b = VT_Null) \<and> Type (bs ! i) \<noteq> VT_Null"
  using assms
proof (induction bs k rule: widening_loop.induct)
  case (2 b bs k)
  show ?case
  proof (cases "Type b = VT_Null")
    case True
    with 2 have "if widening_loop bs (k + 1) = 0 then \<forall>b\<in>set bs. Type b = VT_Null
      else \<exists>i<length bs. widening_loop bs (k + 1) = - (k + 1 + int i + 1) \<and>
        (\<forall>b\<in>set (take i bs). Type b = VT_Null) \<and> Type (bs ! i) \<noteq> VT_Null" by simp
    then consider "widening_loop bs (k + 1) = 0" "\<forall>b\<in>set bs. Type b = VT_Null"
      | i where "i < length bs" "widening_loop bs (k + 1) = - (k + 1 + int i + 1)" "widening_loop bs (k + 1) \<noteq> 0"
        "\<forall>b\<in>set (take i bs). Type b = VT_Null" "Type (bs ! i) \<noteq> VT_Null"
      by (auto split: if_splits)
    then show ?thesis
    proof cases
      case (2 i)
      with True show ?thesis by (auto intro!: exI [of _ "Suc i"])
    qed (simp add: True)
  next
    case False
    with 2(2) show ?thesis by (auto intro!: exI [of _ 0])
  qed
qed simp

lemma first_diff_widen:
  assumes "first_diff L a b (length a) r" "r \<noteq> 0" "length a \<le> n"
  shows "first_diff L (a @ ws) b n r"
  using assms by (auto simp: first_diff_def Let_def nth_append)

lemma widened_first_diff:
  assumes "first_diff L key bound (length key) 0" "length key \<le> length bound" "data_values bound"
  shows "first_diff L (key @ replicate (length bound - length key) (MakeNullValue 0 0)) bound (length bound)
    (widening_loop (drop (length key) bound) (int (length key)))"
proof -
  let ?n = "length key" and ?r = "widening_loop (drop (length key) bound) (int (length key))"
  let ?wide = "key @ replicate (length bound - ?n) (MakeNullValue 0 0)"
  have rk: "row_rank L key = row_rank L (take ?n bound)" using assms(1) by (simp add: first_diff_def)
  have null: "value_rank L (MakeNullValue 0 0) = [[2]]" by (rule null_rank(1)) simp
  have ranks: "row_rank L (take i (replicate m (MakeNullValue 0 0))) = row_rank L (take i bs)"
    if "\<forall>b\<in>set (take i bs). Type b = VT_Null" "i \<le> m" "i \<le> length bs" for i m and bs :: "TUnversionedValue list"
    using row_rank_nulls [OF that(1), of L] that(2,3) null by (simp add: row_rank_def)
  have eq: "row_rank L (take (?n + i) ?wide) = row_rank L (take (?n + i) bound)"
    if "\<forall>b\<in>set (take i (drop ?n bound)). Type b = VT_Null" "?n + i \<le> length bound" for i
    using ranks [OF that(1), of "length bound - ?n"] that(2) rk by (simp add: row_rank_def take_add)
  consider "?r = 0" "\<forall>b\<in>set (drop ?n bound). Type b = VT_Null"
    | i where "i < length bound - ?n" "?r = - (int ?n + int i + 1)"
      "\<forall>b\<in>set (take i (drop ?n bound)). Type b = VT_Null" "Type (drop ?n bound ! i) \<noteq> VT_Null"
    using widening_loop_spec [of "int ?n" "drop ?n bound"] by (auto split: if_splits)
  then show ?thesis
  proof cases
    case 1
    with eq [of "length bound - ?n"] assms(2) show ?thesis by (simp add: first_diff_def)
  next
    case (2 i)
    then have idx: "nat (\<bar>?r\<bar> - 1) = ?n + i" and neg: "?r < 0" by simp_all
    have "[[2]] < value_rank L (bound ! (?n + i))"
      using data_value_above_null [OF assms(3), of "bound ! (?n + i)" L] 2 by simp
    moreover have "value_rank L (?wide ! (?n + i)) = [[2]]" using 2(1) null by (simp add: nth_append)
    ultimately show ?thesis
      using eq [OF 2(3)] 2(1) idx neg by (auto simp: first_diff_def Let_def TernaryCompare_def)
  qed
qed

section \<open>Functions over a comparer\<close>

locale prefix_comparer =
  fixes L :: text_lib and kinds :: "nat \<Rightarrow> column_kind" and cg :: TPrefixComparer
  assumes contract: "prefix_contract L kinds cg"
begin

lemma result:
  assumes "row_ok L kinds a" "row_ok L kinds b" "n \<le> length a" "n \<le> length b"
  obtains r where "cg a b n = Inr r" "first_diff L a b n r"
  using contract assms unfolding prefix_contract_def by blast

lemma keys:
  assumes "key_ok L kinds c a" "key_ok L kinds c b" "CGComparator c = Some cg"
  shows "\<exists>r. CompareKeys L c a b = Inr r \<and> sgn r = TernaryCompare (key_point L c a) (key_point L c b)"
proof -
  have ab: "row_ok L kinds (Elements a)" "row_ok L kinds (Elements b)"
    "length (Elements a) = GetLength c" "length (Elements b) = GetLength c"
    using assms(1,2) by (simp_all add: key_ok_def)
  obtain r where r: "cg (Elements a) (Elements b) (GetLength c) = Inr r"
    "first_diff L (Elements a) (Elements b) (GetLength c) r"
    using result [OF ab(1,2), of "GetLength c"] ab(3,4) by auto
  have "TernaryCompare (key_point L c a) (key_point L c b) =
      (if r = 0 then 0 else if SortOrders c ! nat (\<bar>r\<bar> - 1) = Descending then - sgn r else sgn r)"
    using first_diff_point [OF r(2), of "SortOrders c"] ab(3,4)
    by (simp add: key_point_def TernaryCompare_snoc GetLength_def)
  moreover have "x = Descending \<longleftrightarrow> x \<noteq> Ascending" for x by (cases x) simp_all
  ultimately show ?thesis
    using assms(3) r(1) ab(3,4)
    by (auto simp: CompareKeys_def ValidateKey_def TKey_GetLength_def GetCount_Elements Let_def sgn_mult)
qed

lemma ranges:
  assumes "row_ok L kinds a" "row_ok L kinds b"
  shows "CompareKeys_ranges cg a b = Inr (TernaryCompare (row_rank L a) (row_rank L b))"
proof -
  let ?n = "min (length a) (length b)"
  obtain r where r: "cg a b ?n = Inr r" "first_diff L a b ?n r" using result [OF assms, of ?n] by auto
  have sgn: "sgn r = TernaryCompare (row_rank L (take ?n a)) (row_rank L (take ?n b))"
    by (rule first_diff_rows [OF r(2)]) simp_all
  have "TernaryCompare (row_rank L a) (row_rank L b) =
      TernaryCompare (row_rank L (take ?n a) @ row_rank L (drop ?n a)) (row_rank L (take ?n b) @ row_rank L (drop ?n b))"
    by (simp add: row_rank_def flip: map_append)
  also have "\<dots> = (if r = 0 then TernaryCompare (row_rank L (drop ?n a)) (row_rank L (drop ?n b)) else sgn r)"
    using sgn by (subst TernaryCompare_append) (auto simp: row_rank_def sgn_0_0)
  also have "TernaryCompare (row_rank L (drop ?n a)) (row_rank L (drop ?n b)) =
      (if length a < length b then -1 else if length b < length a then 1 else 0)"
    by (cases "length a" "length b" rule: linorder_cases)
      (auto simp: row_rank_def TernaryCompare_def Nil_less_iff)
  finally show ?thesis
    using r(1) by (auto simp: CompareKeys_ranges_def GetCompareSign_def Let_def sgn_if)
qed

lemma widening:
  assumes "row_ok L kinds key" "row_ok L kinds bound" "data_values bound"
  shows "\<exists>r. CompareWithWidening key bound cg = Inr r \<and>
    first_diff L (key @ replicate (length bound - length key) (MakeNullValue 0 0)) bound (length bound) r"
proof (cases "length key < length bound")
  case True
  obtain r where r: "cg key bound (length key) = Inr r" "first_diff L key bound (length key) r"
    using result [OF assms(1,2), of "length key"] True by auto
  with True show ?thesis
    using widened_first_diff [OF _ _ assms(3), of L key] first_diff_widen [of L key bound r "length bound"]
    by (auto simp: CompareWithWidening_def)
next
  case False
  then show ?thesis
    using result [OF assms(1,2), of "length bound"] by (auto simp: CompareWithWidening_def)
qed

end

interpretation generic_comparer: prefix_comparer L kinds "ComparePrefix L" for L kinds
  by unfold_locales (rule ComparePrefix_contract)

section \<open>Tests of keys\<close>

lemma TestComparisonResult_point:
  assumes "first_diff L a b n r" "n \<le> length a" "length b = n" "n \<le> length orders"
  shows "TestComparisonResult_sorted r orders inclusive upper \<longleftrightarrow>
    (let p = coordinates L orders (take n a); q = coordinates L orders b
     in (if upper then p < q else q < p) \<or> p = q \<and> inclusive)"
proof -
  have "TernaryCompare (coordinates L orders (take n a)) (coordinates L orders b) =
      (if r = 0 then 0 else if orders ! nat (\<bar>r\<bar> - 1) = Descending then - sgn r else sgn r)"
    using first_diff_point [OF assms(1,2) _ assms(4)] assms(3) by simp
  then show ?thesis
    by (auto simp: TestComparisonResult_sorted_def Let_def TernaryCompare_def sgn_if split: if_splits)
qed

lemma admits_coordinates:
  assumes "length ks = GetLength c" "length (Elements (Prefix b)) \<le> GetLength c"
  shows "admits L c b (Some ks) \<longleftrightarrow>
    (let p = coordinates L (SortOrders c) (take (length (Elements (Prefix b))) ks);
         q = coordinates L (SortOrders c) (Elements (Prefix b))
     in (if IsUpper b then p < q else q < p) \<or> p = q \<and> IsInclusive b)"
  using key_point_vs_bound [of "Some ks" c b L] assms
  by (auto simp: admits_def Let_def inclusiveness_as_upper_def ToKeyBoundRef_def Elements_Some)

lemma row_ok_nulls: "row_ok L kinds (replicate n (MakeNullValue 0 0))"
  by (induction n arbitrary: kinds) (auto simp: column_value_def)

text \<open>A key that is shorter than the comparator is tested as if it were padded with nulls: the
  test with widening of the short key, the test of the padded key as a range of values and
  the comparator's own test of the padded key all give the same answer, for every
  combination of sort orders.\<close>

theorem widened_key_test:
  assumes "row_ok L kinds key" "length key \<le> GetLength c" "bound_ok L kinds c b"
    and "data_values (Elements (Prefix b))"
  shows "let wide = key @ replicate (GetLength c - length key) (MakeNullValue 0 0) in
    \<exists>r. TestKey L c (Some wide) b = Inr r \<and>
      TestKeyWithWidening_sorted L key (ToKeyBoundRef b) (SortOrders c) = Inr r \<and>
      TestKey_ranges L wide (ToKeyBoundRef b) (SortOrders c) = Inr r"
proof -
  define wide where "wide = key @ replicate (GetLength c - length key) (MakeNullValue 0 0)"
  let ?P = "Elements (Prefix b)" let ?n = "length ?P"
  let ?w = "key @ replicate (?n - length key) (MakeNullValue 0 0)"
  have P: "row_ok L kinds ?P" "?n \<le> GetLength c" using assms(3) by (simp_all add: bound_ok_def)
  have wide: "row_ok L kinds wide" "length wide = GetLength c"
    using assms(1,2) by (simp_all add: wide_def row_ok_append row_ok_nulls)
  have tw: "take ?n ?w = take ?n wide" using P(2) by (simp add: wide_def min_def)
  obtain r where r: "CompareWithWidening key ?P (ComparePrefix L) = Inr r" "first_diff L ?w ?P ?n r"
    using generic_comparer.widening [OF assms(1) P(1) assms(4)] by blast
  obtain r' where r': "ComparePrefix L wide ?P ?n = Inr r'" "first_diff L wide ?P ?n r'"
    using generic_comparer.result [OF wide(1) P(1), of ?n] wide(2) P(2) by auto
  have "TestKey L c (Some wide) b = Inr (admits L c b (Some wide))"
    by (rule TestKey_point) (use wide assms(3) in \<open>simp_all add: key_ok_def Elements_Some\<close>)
  moreover have "TestComparisonResult_sorted r (SortOrders c) (IsInclusive b) (IsUpper b) = admits L c b (Some wide)"
    "TestComparisonResult_sorted r' (SortOrders c) (IsInclusive b) (IsUpper b) = admits L c b (Some wide)"
    using TestComparisonResult_point [OF r(2), of "SortOrders c"] TestComparisonResult_point [OF r'(2), of "SortOrders c"]
      admits_coordinates [OF wide(2) P(2), of L] tw wide(2) P(2) by (simp_all add: GetLength_def)
  ultimately show ?thesis
    using r(1) r'(1) wide(2) P(2)
    by (simp add: wide_def [symmetric] TestKeyWithWidening_sorted_def TestKey_ranges_def ToKeyBoundRef_def)
qed

theorem widened_key_test_witness:
  "TestKeyWithWidening_sorted sample_lib [MakeInt64Value 7 0 0]
     (ToKeyBoundRef \<lparr>Prefix = Some [MakeInt64Value 7 0 0, MakeInt64Value 9 0 0], IsInclusive = False, IsUpper = True\<rparr>)
     [Ascending, Descending] = Inr False \<and>
   TestKey sample_lib (mk_TComparator [Ascending, Descending] None)
     (Some [MakeInt64Value 7 0 0, MakeNullValue 0 0])
     \<lparr>Prefix = Some [MakeInt64Value 7 0 0, MakeInt64Value 9 0 0], IsInclusive = False, IsUpper = True\<rparr> = Inr False"
proof -
  let ?c = "mk_TComparator [Ascending, Descending] None" and ?k = "[MakeInt64Value 7 0 0]"
  let ?b = "\<lparr>Prefix = Some [MakeInt64Value 7 0 0, MakeInt64Value 9 0 0], IsInclusive = False, IsUpper = True\<rparr>"
  have ok: "row_ok sample_lib (\<lambda>_. ScalarColumn) ?k" "length ?k \<le> GetLength ?c"
    "bound_ok sample_lib (\<lambda>_. ScalarColumn) ?c ?b" "data_values (Elements (Prefix ?b))"
    by (simp_all add: bound_ok_def Elements_def GetLength_def mk_TComparator_def column_value_def data_values_def
        ValidateDataValueType_def)
  have "TestKeyWithWidening_sorted sample_lib ?k (ToKeyBoundRef ?b) (SortOrders ?c) = Inr False" by code_simp
  with widened_key_test [OF ok] show ?thesis by (auto simp: GetLength_def mk_TComparator_def Let_def)
qed

text \<open>C33. A comparator with a generated comparer orders keys as one without: whenever the generated
  comparer keeps its contract, comparing two keys gives a result with the sign of the
  comparison column by column, for every combination of sort orders.\<close>

theorem generated_comparer_agrees:
  assumes "prefix_contract L kinds cg" "key_ok L kinds c a" "key_ok L kinds c b"
    and "CGComparator c = Some cg"
  shows "\<exists>r s. CompareKeys L c a b = Inr r \<and> CompareKeys L (c\<lparr>CGComparator := None\<rparr>) a b = Inr s \<and> sgn r = sgn s"
proof -
  have "prefix_comparer L kinds cg" by unfold_locales (rule assms(1))
  from prefix_comparer.keys [OF this assms(2-4)] obtain r where
    "CompareKeys L c a b = Inr r" "sgn r = TernaryCompare (key_point L c a) (key_point L c b)" by blast
  moreover have "CompareKeys L (c\<lparr>CGComparator := None\<rparr>) a b = Inr (TernaryCompare (key_point L c a) (key_point L c b))"
    using CompareKeys_point [of L kinds "c\<lparr>CGComparator := None\<rparr>" a b] assms(2,3)
    by (simp add: key_ok_def GetLength_def key_point_def)
  ultimately show ?thesis by (simp add: TernaryCompare_def)
qed

theorem generated_comparer_agrees_witness:
  "sgn (case CompareKeys sample_lib (mk_TComparator [Descending] (Some (ComparePrefix sample_lib)))
      (Some [MakeInt64Value 7 0 0]) (Some [MakeInt64Value 9 0 0]) of Inr r \<Rightarrow> r | Inl _ \<Rightarrow> 0) = 1"
proof -
  let ?c = "mk_TComparator [Descending] (Some (ComparePrefix sample_lib))"
  let ?a = "Some [MakeInt64Value 7 0 0]" and ?b = "Some [MakeInt64Value 9 0 0]"
  have ok: "key_ok sample_lib (\<lambda>_. ScalarColumn) ?c ?a" "key_ok sample_lib (\<lambda>_. ScalarColumn) ?c ?b"
    "CGComparator ?c = Some (ComparePrefix sample_lib)"
    by (simp_all add: key_ok_def Elements_def GetLength_def mk_TComparator_def column_value_def)
  have "CompareKeys sample_lib (?c\<lparr>CGComparator := None\<rparr>) ?a ?b = Inr 1" by code_simp
  with generated_comparer_agrees [OF ComparePrefix_contract ok] show ?thesis by (auto simp: mk_TComparator_def)
qed

text \<open>The comparison of two legacy keys over the library's prefix comparer is the order of
  rows, and its result is only ever a sign: the index of the first different column, which
  the comment promises, is lost.\<close>

theorem compare_legacy_keys_sign:
  assumes "row_ok L kinds a" "row_ok L kinds b" "length a \<le> max_ui32" "length b \<le> max_ui32"
  shows "\<exists>r. CompareKeys_legacy (ComparePrefix L) a b = Inr r \<and> r \<in> {-1, 0, 1} \<and>
    row_lt L (Some a) (Some b) = Inr (r < 0) \<and> row_eq L (Some a) (Some b) = Inr (r = 0)"
  using generic_comparer.ranges [OF assms(1,2)] row_op_rank [OF assms]
  by (auto simp: CompareKeys_legacy_def ToKeyRef_def TernaryCompare_def)

theorem compare_legacy_keys_sign_witness:
  "CompareKeys_legacy (ComparePrefix sample_lib)
     [MakeInt64Value 7 0 0, MakeInt64Value 8 0 0] [MakeInt64Value 7 0 0, MakeInt64Value 9 0 0] = Inr (-1)"
proof -
  let ?a = "[MakeInt64Value 7 0 0, MakeInt64Value 8 0 0]" and ?b = "[MakeInt64Value 7 0 0, MakeInt64Value 9 0 0]"
  have ok: "row_ok sample_lib (\<lambda>_. ScalarColumn) ?a" "row_ok sample_lib (\<lambda>_. ScalarColumn) ?b"
    "length ?a \<le> max_ui32" "length ?b \<le> max_ui32"
    by (simp_all add: column_value_def)
  have "row_rank sample_lib ?a < row_rank sample_lib ?b" by code_simp
  with row_op_rank(1) [OF ok] have "row_lt sample_lib (Some ?a) (Some ?b) = Inr True" by simp
  with compare_legacy_keys_sign [OF ok] show ?thesis by auto
qed

end
