(* ===== verification/SortColumns.thy ===== *)
theory SortColumns
  imports KeyRanges
begin

text \<open>
  Sort columns: \<open>column_sort_schema.cpp\<close> and \<open>column_sort_schema.h\<close> of
  \<open>yt/yt/client/table_client\<close>. A list of sort columns names the key columns of a table with
  their sort orders; it travels as a node, as a message, and becomes a comparator.
\<close>

record TColumnSortSchema =
  Name :: string
  SortOrder :: ESortOrder

section \<open>Nodes\<close>

text \<open>A sort order is emitted as its literal; a map node lists its children by key.\<close>

datatype schema_node = S_String string | S_Map "(string \<times> schema_node) list" | S_Other

definition sort_order_literal :: "ESortOrder \<Rightarrow> string" where
  "sort_order_literal so = (case so of Ascending \<Rightarrow> ''ascending'' | Descending \<Rightarrow> ''descending'')"

definition Serialize_sort_column :: "TColumnSortSchema \<Rightarrow> schema_node" where
  "Serialize_sort_column schema =
     (if SortOrder schema = Ascending then S_String (Name schema)
      else S_Map [(''name'', S_String (Name schema)),
                  (''sort_order'', S_String (sort_order_literal (SortOrder schema)))])"

definition GetChildOrThrow :: "(string \<times> schema_node) list \<Rightarrow> string \<Rightarrow> schema_node res" where
  "GetChildOrThrow children key =
     (case map_of children key of
        Some child \<Rightarrow> Inr child
      | None \<Rightarrow> Inl (Thrown ''Node has no child with key''))"

definition node_string :: "schema_node \<Rightarrow> string res" where
  "node_string node =
     (case node of S_String s \<Rightarrow> Inr s | _ \<Rightarrow> Inl (Thrown ''Cannot parse string from node''))"

definition node_sort_order :: "schema_node \<Rightarrow> ESortOrder res" where
  "node_sort_order node =
     rbind (node_string node) (\<lambda>s.
       if s = ''ascending'' then Inr Ascending
       else if s = ''descending'' then Inr Descending
       else Inl (Thrown ''Error parsing enum value''))"

definition Deserialize_sort_column :: "schema_node \<Rightarrow> TColumnSortSchema res" where
  "Deserialize_sort_column node =
     (case node of
        S_Map children \<Rightarrow>
          rbind (GetChildOrThrow children ''name'') (\<lambda>n.
          rbind (node_string n) (\<lambda>name.
          rbind (GetChildOrThrow children ''sort_order'') (\<lambda>o'.
          rbind (node_sort_order o') (\<lambda>order.
            Inr \<lparr>Name = name, SortOrder = order\<rparr>))))
      | S_String s \<Rightarrow> Inr \<lparr>Name = s, SortOrder = Ascending\<rparr>
      | S_Other \<Rightarrow> Inl (Thrown ''Unexpected type of column sort schema node''))"

section \<open>Validation\<close>

fun sort_columns_distinct :: "TColumnSortSchema list \<Rightarrow> string set \<Rightarrow> unit res" where
  "sort_columns_distinct [] names = Inr ()"
| "sort_columns_distinct (column # columns) names =
     (if Name column \<in> names then Inl (Thrown ''Duplicate sort column name'')
      else sort_columns_distinct columns (insert (Name column) names))"

definition ValidateSortColumns :: "TColumnSortSchema list \<Rightarrow> unit res" where
  "ValidateSortColumns columns =
     rbind (ValidateKeyColumnCount (int (length columns))) (\<lambda>_. sort_columns_distinct columns {})"

section \<open>Messages\<close>

record TSortColumnsExt =
  names :: "string list"
  sort_orders :: "u32 list"

definition sort_order_code :: "ESortOrder \<Rightarrow> u32" where
  "sort_order_code so = (case so of Ascending \<Rightarrow> 0 | Descending \<Rightarrow> 1)"

definition sort_order_of_code :: "u32 \<Rightarrow> ESortOrder res" where
  "sort_order_of_code w =
     (if w = 0 then Inr Ascending else if w = 1 then Inr Descending
      else Inl (Thrown ''Error casting integral value to enum''))"

definition ToProto_sort_columns :: "TSortColumnsExt \<Rightarrow> TColumnSortSchema list \<Rightarrow> TSortColumnsExt" where
  "ToProto_sort_columns proto sortColumns =
     foldl (\<lambda>p c. p\<lparr>names := names p @ [Name c], sort_orders := sort_orders p @ [sort_order_code (SortOrder c)]\<rparr>)
       proto sortColumns"

fun sort_columns_loop :: "string list \<Rightarrow> u32 list \<Rightarrow> TColumnSortSchema list \<Rightarrow> TColumnSortSchema list res" where
  "sort_columns_loop (n # ns) (w # ws) acc =
     rbind (sort_order_of_code w) (\<lambda>so. sort_columns_loop ns ws (acc @ [\<lparr>Name = n, SortOrder = so\<rparr>]))"
| "sort_columns_loop ns ws acc = Inr acc"

definition FromProto_sort_columns ::
  "TColumnSortSchema list \<Rightarrow> TSortColumnsExt \<Rightarrow> TColumnSortSchema list res" where
  "FromProto_sort_columns sortColumns proto =
     rbind (verify (length (names proto) = length (sort_orders proto)) ''names_size() == sort_orders_size()'') (\<lambda>_.
       sort_columns_loop (names proto) (sort_orders proto) sortColumns)"

section \<open>Names, orders and the comparator\<close>

definition GetColumnNames :: "TColumnSortSchema list \<Rightarrow> string list" where
  "GetColumnNames sortColumns = foldl (\<lambda>keyColumns c. keyColumns @ [Name c]) [] sortColumns"

definition GetSortOrders :: "TColumnSortSchema list \<Rightarrow> ESortOrder list" where
  "GetSortOrders sortColumns = foldl (\<lambda>sortOrders c. sortOrders @ [SortOrder c]) [] sortColumns"

definition GetComparator :: "TColumnSortSchema list \<Rightarrow> TComparator" where
  "GetComparator sortColumns = mk_TComparator (GetSortOrders sortColumns) None"

section \<open>Properties\<close>

lemma foldl_snoc: "foldl (\<lambda>ys x. ys @ [f x]) acc xs = acc @ map f xs"
  by (induction xs arbitrary: acc) simp_all

lemma GetColumnNames_map: "GetColumnNames cols = map Name cols"
  by (simp add: GetColumnNames_def foldl_snoc)

lemma GetSortOrders_map: "GetSortOrders cols = map SortOrder cols"
  by (simp add: GetSortOrders_def foldl_snoc)

lemma sort_order_of_code_code [simp]: "sort_order_of_code (sort_order_code so) = Inr so"
  by (cases so) (simp_all add: sort_order_of_code_def sort_order_code_def)

lemma ToProto_sort_columns_eq:
  "ToProto_sort_columns p cols =
     p\<lparr>names := names p @ map Name cols, sort_orders := sort_orders p @ map (sort_order_code \<circ> SortOrder) cols\<rparr>"
  unfolding ToProto_sort_columns_def by (induction cols arbitrary: p) simp_all

lemma sort_columns_loop_inverse:
  "sort_columns_loop (map Name cols) (map (sort_order_code \<circ> SortOrder) cols) acc = Inr (acc @ cols)"
  by (induction cols arbitrary: acc) simp_all

lemma sort_columns_distinct_iff:
  "sort_columns_distinct cols ns = Inr () \<longleftrightarrow> distinct (map Name cols) \<and> set (map Name cols) \<inter> ns = {}"
  by (induction cols ns rule: sort_columns_distinct.induct) auto

lemma ValidateSortColumns_iff:
  "ValidateSortColumns cols = Inr () \<longleftrightarrow> length cols \<le> 256 \<and> distinct (map Name cols)"
  by (auto simp: ValidateSortColumns_def ValidateKeyColumnCount_def MaxKeyColumnCount_def sort_columns_distinct_iff)

lemma Deserialize_Serialize_sort_column: "Deserialize_sort_column (Serialize_sort_column c) = Inr c"
  by (cases c; cases "SortOrder c")
    (simp_all add: Serialize_sort_column_def Deserialize_sort_column_def GetChildOrThrow_def node_string_def
      node_sort_order_def sort_order_literal_def)

text \<open>Sort columns survive every representation: read back from a node and from a message they
  are the same columns, and the comparator made from the columns that were read orders keys
  as the original one; validation accepts exactly the lists of at most 256 columns with
  different names.\<close>

theorem sort_columns_roundtrip:
  "(\<exists>cols'. FromProto_sort_columns [] (ToProto_sort_columns \<lparr>names = [], sort_orders = []\<rparr> cols) = Inr cols' \<and>
      cols' = cols \<and> GetComparator cols' = mk_TComparator (map SortOrder cols) None) \<and>
   map (Deserialize_sort_column \<circ> Serialize_sort_column) cols = map Inr cols \<and>
   (ValidateSortColumns cols = Inr () \<longleftrightarrow> length cols \<le> 256 \<and> distinct (GetColumnNames cols))"
  by (simp add: ToProto_sort_columns_eq FromProto_sort_columns_def sort_columns_loop_inverse
      GetComparator_def GetSortOrders_map GetColumnNames_map ValidateSortColumns_iff
      Deserialize_Serialize_sort_column)

end
