(* ===== verification/ReadLimits.thy ===== *)
theory ReadLimits
  imports KeyRanges RowWire
begin

text \<open>
  Read limits and read ranges: \<open>read_limit.cpp\<close> and \<open>read_limit.h\<close> of
  \<open>yt/yt/client/chunk_client\<close>. A limit selects rows by a key bound, a row index, an offset, a
  chunk index or a tablet index; a range is a pair of limits. The legacy classes keep their
  fields in the message and the key beside it.

  Signed 64-bit and 32-bit fields are words read with \<open>sint\<close>; the message has a 32-bit chunk
  index where the classes have a 64-bit one. Incrementing the largest signed number is
  undefined behaviour.
\<close>

section \<open>Messages\<close>

record TReadLimit_proto =
  row_index :: "u64 option"
  chunk_index :: "u32 option"
  offset :: "u64 option"
  legacy_key :: "byte list option"
  key_bound_prefix :: "byte list option"
  key_bound_is_inclusive :: "bool option"
  tablet_index :: "u32 option"
  key_index :: "u32 option"

definition empty_limit_proto :: TReadLimit_proto where
  "empty_limit_proto = \<lparr>row_index = None, chunk_index = None, offset = None, legacy_key = None,
     key_bound_prefix = None, key_bound_is_inclusive = None, tablet_index = None, key_index = None\<rparr>"

record TReadRange_proto =
  lower_limit :: "TReadLimit_proto option"
  upper_limit :: "TReadLimit_proto option"

text \<open>A field that is absent reads as its default.\<close>

definition or_default :: "'a option \<Rightarrow> 'a \<Rightarrow> 'a" where
  "or_default x d = (case x of None \<Rightarrow> d | Some v \<Rightarrow> v)"

definition increment :: "'a::len word \<Rightarrow> 'a word res" where
  "increment w =
     (if sint w = 2 ^ (LENGTH('a) - 1) - 1 then Inl (Undefined ''signed overflow'') else Inr (w + 1))"

definition ToProto_row :: "TUnversionedRow \<Rightarrow> byte list res" where
  "ToProto_row row = SerializeToString row"

definition FromProto_row :: "byte list \<Rightarrow> TUnversionedRow res" where
  "FromProto_row protoRow = DeserializeFromString protoRow None"

section \<open>Legacy read limits\<close>

record TLegacyReadLimit =
  ReadLimit :: TReadLimit_proto
  Key :: TUnversionedRow

definition mk_TLegacyReadLimit :: TLegacyReadLimit where
  "mk_TLegacyReadLimit = \<lparr>ReadLimit = empty_limit_proto, Key = None\<rparr>"

definition InitKey :: "TLegacyReadLimit \<Rightarrow> TLegacyReadLimit res" where
  "InitKey limit =
     (case legacy_key (ReadLimit limit) of
        None \<Rightarrow> Inr limit
      | Some bs \<Rightarrow> rbind (FromProto_row bs) (\<lambda>key. Inr (limit\<lparr>Key := key\<rparr>)))"

definition InitCopy :: "TLegacyReadLimit \<Rightarrow> TReadLimit_proto \<Rightarrow> TLegacyReadLimit res" where
  "InitCopy limit readLimit = InitKey (limit\<lparr>ReadLimit := readLimit\<rparr>)"

definition TLegacyReadLimit_of_proto :: "TReadLimit_proto \<Rightarrow> TLegacyReadLimit res" where
  "TLegacyReadLimit_of_proto protoLimit = InitCopy mk_TLegacyReadLimit protoLimit"

definition HasLegacyKey :: "TLegacyReadLimit \<Rightarrow> bool" where
  "HasLegacyKey limit \<longleftrightarrow> legacy_key (ReadLimit limit) \<noteq> None"

definition GetLegacyKey :: "TLegacyReadLimit \<Rightarrow> TUnversionedRow" where
  "GetLegacyKey limit = Key limit"

definition SetLegacyKey :: "TLegacyReadLimit \<Rightarrow> TUnversionedRow \<Rightarrow> TLegacyReadLimit res" where
  "SetLegacyKey limit key =
     rbind (ToProto_row key) (\<lambda>bs.
       Inr (limit\<lparr>ReadLimit := (ReadLimit limit)\<lparr>legacy_key := Some bs\<rparr>, Key := key\<rparr>))"

definition TLegacyReadLimit_of_key :: "TUnversionedRow \<Rightarrow> TLegacyReadLimit res" where
  "TLegacyReadLimit_of_key key = SetLegacyKey mk_TLegacyReadLimit key"

definition HasRowIndex :: "TLegacyReadLimit \<Rightarrow> bool" where
  "HasRowIndex limit \<longleftrightarrow> row_index (ReadLimit limit) \<noteq> None"

definition GetRowIndex :: "TLegacyReadLimit \<Rightarrow> u64" where
  "GetRowIndex limit = or_default (row_index (ReadLimit limit)) 0"

definition SetRowIndex :: "TLegacyReadLimit \<Rightarrow> u64 \<Rightarrow> TLegacyReadLimit" where
  "SetRowIndex limit rowIndex = limit\<lparr>ReadLimit := (ReadLimit limit)\<lparr>row_index := Some rowIndex\<rparr>\<rparr>"

definition HasOffset :: "TLegacyReadLimit \<Rightarrow> bool" where
  "HasOffset limit \<longleftrightarrow> offset (ReadLimit limit) \<noteq> None"

definition GetOffset :: "TLegacyReadLimit \<Rightarrow> u64" where
  "GetOffset limit = or_default (offset (ReadLimit limit)) 0"

definition SetOffset :: "TLegacyReadLimit \<Rightarrow> u64 \<Rightarrow> TLegacyReadLimit" where
  "SetOffset limit off = limit\<lparr>ReadLimit := (ReadLimit limit)\<lparr>offset := Some off\<rparr>\<rparr>"

definition HasChunkIndex :: "TLegacyReadLimit \<Rightarrow> bool" where
  "HasChunkIndex limit \<longleftrightarrow> chunk_index (ReadLimit limit) \<noteq> None"

definition GetChunkIndex :: "TLegacyReadLimit \<Rightarrow> u64" where
  "GetChunkIndex limit = scast (or_default (chunk_index (ReadLimit limit)) 0)"

definition SetChunkIndex :: "TLegacyReadLimit \<Rightarrow> u64 \<Rightarrow> TLegacyReadLimit" where
  "SetChunkIndex limit chunkIndex = limit\<lparr>ReadLimit := (ReadLimit limit)\<lparr>chunk_index := Some (ucast chunkIndex)\<rparr>\<rparr>"

definition HasTabletIndex :: "TLegacyReadLimit \<Rightarrow> bool" where
  "HasTabletIndex limit \<longleftrightarrow> tablet_index (ReadLimit limit) \<noteq> None"

definition GetTabletIndex :: "TLegacyReadLimit \<Rightarrow> u32" where
  "GetTabletIndex limit = or_default (tablet_index (ReadLimit limit)) 0"

definition SetTabletIndex :: "TLegacyReadLimit \<Rightarrow> u32 \<Rightarrow> TLegacyReadLimit" where
  "SetTabletIndex limit tabletIndex = limit\<lparr>ReadLimit := (ReadLimit limit)\<lparr>tablet_index := Some tabletIndex\<rparr>\<rparr>"

definition GetSuccessor :: "TLegacyReadLimit \<Rightarrow> TLegacyReadLimit res" where
  "GetSuccessor limit =
     rbind (if HasLegacyKey limit
            then SetLegacyKey mk_TLegacyReadLimit
              (Some (GetKeyPrefixSuccessor (Elements (GetLegacyKey limit)) (GetCount (GetLegacyKey limit))))
            else Inr mk_TLegacyReadLimit) (\<lambda>result.
     rbind (if HasRowIndex limit
            then rbind (increment (GetRowIndex limit)) (\<lambda>i. Inr (SetRowIndex result i))
            else Inr result) (\<lambda>result.
     rbind (if HasChunkIndex limit
            then rbind (increment (GetChunkIndex limit)) (\<lambda>i. Inr (SetChunkIndex result i))
            else Inr result) (\<lambda>result.
       Inr (if HasTabletIndex limit then SetTabletIndex result (GetTabletIndex limit) else result))))"

definition IsTrivial_proto :: "TReadLimit_proto \<Rightarrow> bool" where
  "IsTrivial_proto limit \<longleftrightarrow>
     row_index limit = None \<and> legacy_key limit = None \<and> offset limit = None \<and>
     chunk_index limit = None \<and> tablet_index limit = None"

definition IsTrivial_legacy :: "TLegacyReadLimit \<Rightarrow> bool" where
  "IsTrivial_legacy limit \<longleftrightarrow> IsTrivial_proto (ReadLimit limit)"

definition MergeLowerLegacyKey :: "text_lib \<Rightarrow> TLegacyReadLimit \<Rightarrow> TUnversionedRow \<Rightarrow> TLegacyReadLimit res" where
  "MergeLowerLegacyKey L limit key =
     (if \<not> HasLegacyKey limit then SetLegacyKey limit key
      else rbind (row_lt L (GetLegacyKey limit) key) (\<lambda>less. if less then SetLegacyKey limit key else Inr limit))"

definition MergeUpperLegacyKey :: "text_lib \<Rightarrow> TLegacyReadLimit \<Rightarrow> TUnversionedRow \<Rightarrow> TLegacyReadLimit res" where
  "MergeUpperLegacyKey L limit key =
     (if \<not> HasLegacyKey limit then SetLegacyKey limit key
      else rbind (row_gt L (GetLegacyKey limit) key) (\<lambda>greater. if greater then SetLegacyKey limit key else Inr limit))"

definition MergeLowerRowIndex :: "TLegacyReadLimit \<Rightarrow> u64 \<Rightarrow> TLegacyReadLimit" where
  "MergeLowerRowIndex limit rowIndex =
     (if \<not> HasRowIndex limit \<or> sint (GetRowIndex limit) < sint rowIndex then SetRowIndex limit rowIndex else limit)"

definition MergeUpperRowIndex :: "TLegacyReadLimit \<Rightarrow> u64 \<Rightarrow> TLegacyReadLimit" where
  "MergeUpperRowIndex limit rowIndex =
     (if \<not> HasRowIndex limit \<or> sint (GetRowIndex limit) > sint rowIndex then SetRowIndex limit rowIndex else limit)"

section \<open>Legacy read ranges\<close>

record TLegacyReadRange =
  LowerLimit_legacy :: TLegacyReadLimit
  UpperLimit_legacy :: TLegacyReadLimit

definition mk_TLegacyReadRange :: TLegacyReadRange where
  "mk_TLegacyReadRange = \<lparr>LowerLimit_legacy = mk_TLegacyReadLimit, UpperLimit_legacy = mk_TLegacyReadLimit\<rparr>"

definition TLegacyReadRange_exact :: "TLegacyReadLimit \<Rightarrow> TLegacyReadRange res" where
  "TLegacyReadRange_exact exact =
     rbind (GetSuccessor exact) (\<lambda>successor.
       Inr \<lparr>LowerLimit_legacy = exact, UpperLimit_legacy = successor\<rparr>)"

definition limit_of_optional_proto :: "TReadLimit_proto option \<Rightarrow> TLegacyReadLimit res" where
  "limit_of_optional_proto p =
     (case p of Some l \<Rightarrow> TLegacyReadLimit_of_proto l | None \<Rightarrow> Inr mk_TLegacyReadLimit)"

definition TLegacyReadRange_of_proto :: "TReadRange_proto \<Rightarrow> TLegacyReadRange res" where
  "TLegacyReadRange_of_proto r =
     rbind (limit_of_optional_proto (lower_limit r)) (\<lambda>lo.
     rbind (limit_of_optional_proto (upper_limit r)) (\<lambda>up.
       Inr \<lparr>LowerLimit_legacy = lo, UpperLimit_legacy = up\<rparr>))"

definition ToProto_legacy_range :: "TReadRange_proto \<Rightarrow> TLegacyReadRange \<Rightarrow> TReadRange_proto" where
  "ToProto_legacy_range proto readRange =
     (let proto = (if \<not> IsTrivial_legacy (LowerLimit_legacy readRange)
                   then proto\<lparr>lower_limit := Some (ReadLimit (LowerLimit_legacy readRange))\<rparr> else proto)
      in if \<not> IsTrivial_legacy (UpperLimit_legacy readRange)
         then proto\<lparr>upper_limit := Some (ReadLimit (UpperLimit_legacy readRange))\<rparr> else proto)"

section \<open>Nodes\<close>

text \<open>
  A limit is emitted as a map of components. How a component is converted to a node of type
  \<open>'a\<close> and back is the business of the tree library and an argument.
\<close>

record 'a component_conv =
  row_node :: "TUnversionedRow \<Rightarrow> 'a"
  node_row :: "'a \<Rightarrow> TUnversionedRow res"
  bound_node :: "TKeyBound \<Rightarrow> 'a"
  node_bound :: "'a \<Rightarrow> TKeyBound res"
  i64_node :: "u64 \<Rightarrow> 'a"
  node_i64 :: "'a \<Rightarrow> u64 res"
  i32_node :: "u32 \<Rightarrow> 'a"
  node_i32 :: "'a \<Rightarrow> u32 res"

datatype 'a limit_node = LimitMap "(string \<times> 'a) list" | OtherLimitNode

definition Serialize_legacy_limit :: "('a, 'm) component_conv_scheme \<Rightarrow> TLegacyReadLimit \<Rightarrow> 'a limit_node" where
  "Serialize_legacy_limit cv readLimit = LimitMap (
     (if HasLegacyKey readLimit then [(''key'', row_node cv (GetLegacyKey readLimit))] else []) @
     (if HasRowIndex readLimit then [(''row_index'', i64_node cv (GetRowIndex readLimit))] else []) @
     (if HasOffset readLimit then [(''offset'', i64_node cv (GetOffset readLimit))] else []) @
     (if HasChunkIndex readLimit then [(''chunk_index'', i64_node cv (GetChunkIndex readLimit))] else []) @
     (if HasTabletIndex readLimit then [(''tablet_index'', i32_node cv (GetTabletIndex readLimit))] else []))"

definition FindReadLimitComponent :: "('a \<Rightarrow> 'b res) \<Rightarrow> (string \<times> 'a) list \<Rightarrow> string \<Rightarrow> 'b option res" where
  "FindReadLimitComponent convert attributes key =
     (case map_of attributes key of
        None \<Rightarrow> Inr None
      | Some node \<Rightarrow>
          (case convert node of
             Inr v \<Rightarrow> Inr (Some v)
           | Inl (Thrown _) \<Rightarrow> Inl (Thrown ''Error parsing component of a read limit'')
           | Inl e \<Rightarrow> Inl e))"

text \<open>Setting a component that was found.\<close>

definition set_found :: "('s \<Rightarrow> 'b \<Rightarrow> 's) \<Rightarrow> 's \<Rightarrow> 'b option \<Rightarrow> 's" where
  "set_found f s x = (case x of None \<Rightarrow> s | Some v \<Rightarrow> f s v)"

definition Deserialize_legacy_limit ::
  "('a, 'm) component_conv_scheme \<Rightarrow> 'a limit_node \<Rightarrow> TLegacyReadLimit res" where
  "Deserialize_legacy_limit cv node =
     (case node of
        OtherLimitNode \<Rightarrow> Inl (Thrown ''Error parsing read limit: expected map'')
      | LimitMap attributes \<Rightarrow>
          rbind (FindReadLimitComponent (node_row cv) attributes ''key'') (\<lambda>optionalKey.
          rbind (case optionalKey of None \<Rightarrow> Inr mk_TLegacyReadLimit
                 | Some key \<Rightarrow> SetLegacyKey mk_TLegacyReadLimit key) (\<lambda>readLimit.
          rbind (FindReadLimitComponent (node_i64 cv) attributes ''row_index'') (\<lambda>rowIndex.
          rbind (FindReadLimitComponent (node_i64 cv) attributes ''offset'') (\<lambda>off.
          rbind (FindReadLimitComponent (node_i64 cv) attributes ''chunk_index'') (\<lambda>chunkIndex.
          rbind (FindReadLimitComponent (node_i32 cv) attributes ''tablet_index'') (\<lambda>tabletIndex.
            Inr (set_found SetTabletIndex (set_found SetChunkIndex (set_found SetOffset
              (set_found SetRowIndex readLimit rowIndex) off) chunkIndex) tabletIndex))))))))"

datatype 'a range_node = RangeMap "(string \<times> 'a limit_node) list" | OtherRangeNode

definition Serialize_legacy_range :: "('a, 'm) component_conv_scheme \<Rightarrow> TLegacyReadRange \<Rightarrow> 'a range_node" where
  "Serialize_legacy_range cv readRange = RangeMap (
     (if \<not> IsTrivial_legacy (LowerLimit_legacy readRange)
      then [(''lower_limit'', Serialize_legacy_limit cv (LowerLimit_legacy readRange))] else []) @
     (if \<not> IsTrivial_legacy (UpperLimit_legacy readRange)
      then [(''upper_limit'', Serialize_legacy_limit cv (UpperLimit_legacy readRange))] else []))"

definition FindReadRangeComponent ::
  "('a, 'm) component_conv_scheme \<Rightarrow> (string \<times> 'a limit_node) list \<Rightarrow> string \<Rightarrow> TLegacyReadLimit option res" where
  "FindReadRangeComponent cv attributes key =
     (case map_of attributes key of
        None \<Rightarrow> Inr None
      | Some node \<Rightarrow>
          (case Deserialize_legacy_limit cv node of
             Inr v \<Rightarrow> Inr (Some v)
           | Inl (Thrown _) \<Rightarrow> Inl (Thrown ''Error parsing component of a read range'')
           | Inl e \<Rightarrow> Inl e))"

definition Deserialize_legacy_range ::
  "('a, 'm) component_conv_scheme \<Rightarrow> 'a range_node \<Rightarrow> TLegacyReadRange res" where
  "Deserialize_legacy_range cv node =
     (case node of
        OtherRangeNode \<Rightarrow> Inl (Thrown ''Error parsing read range: expected map'')
      | RangeMap attributes \<Rightarrow>
          rbind (FindReadRangeComponent cv attributes ''exact'') (\<lambda>optionalExact.
          rbind (FindReadRangeComponent cv attributes ''lower_limit'') (\<lambda>optionalLowerLimit.
          rbind (FindReadRangeComponent cv attributes ''upper_limit'') (\<lambda>optionalUpperLimit.
          rbind (case optionalExact of
                   None \<Rightarrow> Inr mk_TLegacyReadRange
                 | Some exact \<Rightarrow>
                     rbind (throw_if (optionalLowerLimit \<noteq> None \<or> optionalUpperLimit \<noteq> None)
                         ''lower_limit and upper_limit attributes cannot be specified together with exact'') (\<lambda>_.
                       TLegacyReadRange_exact exact)) (\<lambda>readRange.
            Inr (set_found (\<lambda>r l. r\<lparr>UpperLimit_legacy := l\<rparr>)
              (set_found (\<lambda>r l. r\<lparr>LowerLimit_legacy := l\<rparr>) readRange optionalLowerLimit) optionalUpperLimit))))))"

section \<open>Read limits\<close>

record TReadLimit =
  KeyBound :: TKeyBound
  RowIndex :: "u64 option"
  Offset :: "u64 option"
  ChunkIndex :: "u64 option"
  TabletIndex :: "u32 option"

definition empty_limit :: TReadLimit where
  "empty_limit = \<lparr>KeyBound = null_bound, RowIndex = None, Offset = None, ChunkIndex = None, TabletIndex = None\<rparr>"

definition mk_TReadLimit :: "TReadLimit_proto \<Rightarrow> bool \<Rightarrow> int \<Rightarrow> TReadLimit res" where
  "mk_TReadLimit readLimit isUpper keyLength =
     rbind
       (case key_bound_prefix readLimit of
          Some bs \<Rightarrow>
            rbind (FromProto_row bs) (\<lambda>prefix.
              Inr \<lparr>Prefix = prefix, IsInclusive = or_default (key_bound_is_inclusive readLimit) False,
                   IsUpper = isUpper\<rparr>)
        | None \<Rightarrow>
            (case legacy_key readLimit of
               Some bs \<Rightarrow>
                 rbind (verify (keyLength > 0) ''keyLength > 0'') (\<lambda>_.
                 rbind (FromProto_row bs) (\<lambda>legacyKey.
                   KeyBoundFromLegacyRow legacyKey isUpper (nat keyLength)))
             | None \<Rightarrow> Inr null_bound)) (\<lambda>keyBound.
       Inr \<lparr>KeyBound = keyBound, RowIndex = row_index readLimit, Offset = offset readLimit,
            ChunkIndex = map_option scast (chunk_index readLimit), TabletIndex = tablet_index readLimit\<rparr>)"

definition GetSelectorCount :: "TReadLimit \<Rightarrow> nat" where
  "GetSelectorCount l =
     of_bool (bound_exists (KeyBound l)) + of_bool (RowIndex l \<noteq> None) + of_bool (Offset l \<noteq> None) +
     of_bool (ChunkIndex l \<noteq> None) + of_bool (TabletIndex l \<noteq> None)"

definition IsTrivial :: "TReadLimit \<Rightarrow> bool" where
  "IsTrivial l \<longleftrightarrow> GetSelectorCount l = 0"

definition HasIndependentSelectors :: "TReadLimit \<Rightarrow> bool" where
  "HasIndependentSelectors l \<longleftrightarrow>
     (if GetSelectorCount l \<ge> 3 then True
      else if GetSelectorCount l = 2 then \<not> (RowIndex l \<noteq> None \<and> TabletIndex l \<noteq> None)
      else False)"

definition increment_option :: "'a::len word option \<Rightarrow> 'a word option res" where
  "increment_option x = (case x of None \<Rightarrow> Inr None | Some w \<Rightarrow> rbind (increment w) (\<lambda>v. Inr (Some v)))"

definition ToExactUpperCounterpart :: "TReadLimit \<Rightarrow> TReadLimit res" where
  "ToExactUpperCounterpart l =
     rbind (verify (\<not> HasIndependentSelectors l) ''!HasIndependentSelectors()'') (\<lambda>_.
     rbind
       (if bound_exists (KeyBound l) then
          rbind (verify (\<not> IsUpper (KeyBound l)) ''!KeyBound_.IsUpper'') (\<lambda>_.
          rbind (verify (IsEmptyBound (KeyBound l) \<or> IsInclusive (KeyBound l)) ''KeyBound_.IsInclusive'') (\<lambda>_.
          rbind (KeyBounds.Invert (KeyBound l)) (\<lambda>b. ToggleInclusiveness b)))
        else Inr (KeyBound l)) (\<lambda>keyBound.
     rbind (increment_option (RowIndex l)) (\<lambda>rowIndex.
     rbind (if RowIndex l = None then increment_option (TabletIndex l) else Inr (TabletIndex l)) (\<lambda>tabletIndex.
     rbind (increment_option (Offset l)) (\<lambda>off.
     rbind (increment_option (ChunkIndex l)) (\<lambda>chunkIndex.
       Inr \<lparr>KeyBound = keyBound, RowIndex = rowIndex, Offset = off, ChunkIndex = chunkIndex,
            TabletIndex = tabletIndex\<rparr>))))))"

definition Invert_limit :: "TReadLimit \<Rightarrow> TReadLimit res" where
  "Invert_limit l =
     rbind (verify (\<not> HasIndependentSelectors l) ''!HasIndependentSelectors()'') (\<lambda>_.
       if bound_exists (KeyBound l)
       then rbind (KeyBounds.Invert (KeyBound l)) (\<lambda>b. Inr (l\<lparr>KeyBound := b\<rparr>))
       else Inr l)"

definition limit_eq :: "text_lib \<Rightarrow> TReadLimit \<Rightarrow> TReadLimit \<Rightarrow> bool res" where
  "limit_eq L a b =
     rbind (bound_eq L (KeyBound a) (KeyBound b)) (\<lambda>e.
       Inr (e \<and> RowIndex a = RowIndex b \<and> Offset a = Offset b \<and> ChunkIndex a = ChunkIndex b \<and>
            TabletIndex a = TabletIndex b))"

definition ToProto_limit :: "TReadLimit_proto \<Rightarrow> TReadLimit \<Rightarrow> TReadLimit_proto res" where
  "ToProto_limit proto readLimit =
     rbind
       (if bound_exists (KeyBound readLimit) then
          rbind (ToProto_row (Prefix (KeyBound readLimit))) (\<lambda>prefix.
          rbind (ToProto_row (KeyBoundToLegacyRow (KeyBound readLimit))) (\<lambda>legacy.
            Inr (proto\<lparr>legacy_key := Some legacy, key_bound_prefix := Some prefix,
                       key_bound_is_inclusive := Some (IsInclusive (KeyBound readLimit))\<rparr>)))
        else Inr proto) (\<lambda>proto.
       Inr (set_found (\<lambda>p v. p\<lparr>tablet_index := Some v\<rparr>)
         (set_found (\<lambda>p v. p\<lparr>chunk_index := Some (ucast v)\<rparr>)
           (set_found (\<lambda>p v. p\<lparr>offset := Some v\<rparr>)
             (set_found (\<lambda>p v. p\<lparr>row_index := Some v\<rparr>) proto (RowIndex readLimit))
             (Offset readLimit)) (ChunkIndex readLimit)) (TabletIndex readLimit)))"

definition validateKeyLengthIsPresent :: "int \<Rightarrow> unit res" where
  "validateKeyLengthIsPresent keyLength =
     throw_if (keyLength = 0) ''Read limit contains key, but key length is not provided''"

definition FromProto_limit :: "TReadLimit \<Rightarrow> TReadLimit_proto \<Rightarrow> bool \<Rightarrow> int \<Rightarrow> TReadLimit res" where
  "FromProto_limit readLimit proto isUpper keyLength =
     (let readLimit = readLimit\<lparr>KeyBound := (KeyBound readLimit)\<lparr>IsUpper := isUpper\<rparr>\<rparr> in
      rbind
        (case key_bound_prefix proto of
           Some bs \<Rightarrow>
             rbind (validateKeyLengthIsPresent keyLength) (\<lambda>_.
             rbind (FromProto_row bs) (\<lambda>prefix.
             rbind (throw_if (int (GetCount prefix) > keyLength) ''Invalid key bound prefix length'') (\<lambda>_.
               Inr (readLimit\<lparr>KeyBound := (KeyBound readLimit)\<lparr>Prefix := prefix,
                      IsInclusive := or_default (key_bound_is_inclusive proto) False\<rparr>\<rparr>))))
         | None \<Rightarrow>
             (case legacy_key proto of
                Some bs \<Rightarrow>
                  rbind (validateKeyLengthIsPresent keyLength) (\<lambda>_.
                  rbind (FromProto_row bs) (\<lambda>legacyKey.
                  rbind (KeyBoundFromLegacyRow legacyKey isUpper (nat keyLength)) (\<lambda>b.
                    Inr (readLimit\<lparr>KeyBound := b\<rparr>))))
              | None \<Rightarrow> Inr readLimit)) (\<lambda>readLimit.
        Inr (set_found (\<lambda>l v. l\<lparr>TabletIndex := Some v\<rparr>)
          (set_found (\<lambda>l v. l\<lparr>ChunkIndex := Some (scast v)\<rparr>)
            (set_found (\<lambda>l v. l\<lparr>Offset := Some v\<rparr>)
              (set_found (\<lambda>l v. l\<lparr>RowIndex := Some v\<rparr>) readLimit (row_index proto))
              (offset proto)) (chunk_index proto)) (tablet_index proto))))"

definition Serialize_limit :: "('a, 'm) component_conv_scheme \<Rightarrow> TReadLimit \<Rightarrow> 'a limit_node" where
  "Serialize_limit cv readLimit = LimitMap (
     (if bound_exists (KeyBound readLimit)
      then [(''key_bound'', bound_node cv (KeyBound readLimit)),
            (''key'', row_node cv (KeyBoundToLegacyRow (KeyBound readLimit)))] else []) @
     (case RowIndex readLimit of None \<Rightarrow> [] | Some v \<Rightarrow> [(''row_index'', i64_node cv v)]) @
     (case Offset readLimit of None \<Rightarrow> [] | Some v \<Rightarrow> [(''offset'', i64_node cv v)]) @
     (case ChunkIndex readLimit of None \<Rightarrow> [] | Some v \<Rightarrow> [(''chunk_index'', i64_node cv v)]) @
     (case TabletIndex readLimit of None \<Rightarrow> [] | Some v \<Rightarrow> [(''tablet_index'', i32_node cv v)]))"

definition Deserialize_limit :: "('a, 'm) component_conv_scheme \<Rightarrow> 'a limit_node \<Rightarrow> TReadLimit res" where
  "Deserialize_limit cv node =
     (case node of
        OtherLimitNode \<Rightarrow> Inl (Thrown ''Error parsing read limit: expected map'')
      | LimitMap attributes \<Rightarrow>
          rbind (FindReadLimitComponent (node_bound cv) attributes ''key_bound'') (\<lambda>keyBound.
          rbind (FindReadLimitComponent (node_i64 cv) attributes ''row_index'') (\<lambda>rowIndex.
          rbind (FindReadLimitComponent (node_i64 cv) attributes ''offset'') (\<lambda>off.
          rbind (FindReadLimitComponent (node_i64 cv) attributes ''chunk_index'') (\<lambda>chunkIndex.
          rbind (FindReadLimitComponent (node_i32 cv) attributes ''tablet_index'') (\<lambda>tabletIndex.
            Inr \<lparr>KeyBound = or_default keyBound null_bound, RowIndex = rowIndex, Offset = off,
                 ChunkIndex = chunkIndex, TabletIndex = tabletIndex\<rparr>))))))"

section \<open>Read ranges\<close>

record TReadRange =
  LowerLimit :: TReadLimit
  UpperLimit :: TReadLimit

definition empty_read_range :: TReadRange where
  "empty_read_range = \<lparr>LowerLimit = empty_limit, UpperLimit = empty_limit\<rparr>"

definition mk_TReadRange :: "TReadLimit \<Rightarrow> TReadLimit \<Rightarrow> TReadRange res" where
  "mk_TReadRange lowerLimit upperLimit =
     rbind (verify (bound_exists (KeyBound lowerLimit) \<longrightarrow> \<not> IsUpper (KeyBound lowerLimit))
         ''!LowerLimit_.KeyBound().IsUpper'') (\<lambda>_.
     rbind (verify (bound_exists (KeyBound upperLimit) \<longrightarrow> IsUpper (KeyBound upperLimit))
         ''UpperLimit_.KeyBound().IsUpper'') (\<lambda>_.
       Inr \<lparr>LowerLimit = lowerLimit, UpperLimit = upperLimit\<rparr>))"

definition TReadRange_of_proto :: "TReadRange_proto \<Rightarrow> int \<Rightarrow> TReadRange res" where
  "TReadRange_of_proto r keyLength =
     rbind (case lower_limit r of None \<Rightarrow> Inr empty_limit | Some l \<Rightarrow> mk_TReadLimit l False keyLength) (\<lambda>lo.
     rbind (case upper_limit r of None \<Rightarrow> Inr empty_limit | Some l \<Rightarrow> mk_TReadLimit l True keyLength) (\<lambda>up.
       Inr \<lparr>LowerLimit = lo, UpperLimit = up\<rparr>))"

definition range_eq :: "text_lib \<Rightarrow> TReadRange \<Rightarrow> TReadRange \<Rightarrow> bool res" where
  "range_eq L a b =
     rbind (limit_eq L (LowerLimit a) (LowerLimit b)) (\<lambda>e.
       if \<not> e then Inr False else limit_eq L (UpperLimit a) (UpperLimit b))"

definition MakeEmpty_range :: TReadRange where
  "MakeEmpty_range = \<lparr>LowerLimit = empty_limit\<lparr>RowIndex := Some 0\<rparr>, UpperLimit = empty_limit\<lparr>RowIndex := Some 0\<rparr>\<rparr>"

definition ToProto_limit_checked :: "bool \<Rightarrow> TReadLimit_proto option \<Rightarrow> TReadLimit \<Rightarrow> TReadLimit_proto option res" where
  "ToProto_limit_checked upper proto limit =
     (if IsTrivial limit then Inr proto
      else
        rbind (verify (bound_exists (KeyBound limit) \<longrightarrow> IsUpper (KeyBound limit) = upper)
            ''KeyBound().IsUpper'') (\<lambda>_.
        rbind (ToProto_limit (or_default proto empty_limit_proto) limit) (\<lambda>p. Inr (Some p))))"

definition ToProto_range :: "TReadRange_proto \<Rightarrow> TReadRange \<Rightarrow> TReadRange_proto res" where
  "ToProto_range proto readRange =
     rbind (ToProto_limit_checked False (lower_limit proto) (LowerLimit readRange)) (\<lambda>lo.
     rbind (ToProto_limit_checked True (upper_limit proto) (UpperLimit readRange)) (\<lambda>up.
       Inr (proto\<lparr>lower_limit := lo, upper_limit := up\<rparr>)))"

definition FromProto_range :: "TReadRange \<Rightarrow> TReadRange_proto \<Rightarrow> int \<Rightarrow> TReadRange res" where
  "FromProto_range readRange proto keyLength =
     rbind (case lower_limit proto of None \<Rightarrow> Inr (LowerLimit readRange)
            | Some l \<Rightarrow> FromProto_limit (LowerLimit readRange) l False keyLength) (\<lambda>lo.
     rbind (case upper_limit proto of None \<Rightarrow> Inr (UpperLimit readRange)
            | Some l \<Rightarrow> FromProto_limit (UpperLimit readRange) l True keyLength) (\<lambda>up.
       Inr (readRange\<lparr>LowerLimit := lo, UpperLimit := up\<rparr>)))"

definition Serialize_range :: "('a, 'm) component_conv_scheme \<Rightarrow> TReadRange \<Rightarrow> 'a range_node" where
  "Serialize_range cv readRange =
     RangeMap [(''lower_limit'', Serialize_limit cv (LowerLimit readRange)),
               (''upper_limit'', Serialize_limit cv (UpperLimit readRange))]"

section \<open>Conversions between the two kinds of limits\<close>

definition ReadLimitFromLegacyReadLimit :: "TLegacyReadLimit \<Rightarrow> bool \<Rightarrow> nat \<Rightarrow> TReadLimit res" where
  "ReadLimitFromLegacyReadLimit legacy isUpper keyLength =
     rbind (if HasLegacyKey legacy then KeyBoundFromLegacyRow (GetLegacyKey legacy) isUpper keyLength
            else Inr null_bound) (\<lambda>keyBound.
       Inr \<lparr>KeyBound = keyBound,
            RowIndex = (if HasRowIndex legacy then Some (GetRowIndex legacy) else None),
            Offset = (if HasOffset legacy then Some (GetOffset legacy) else None),
            ChunkIndex = (if HasChunkIndex legacy then Some (GetChunkIndex legacy) else None),
            TabletIndex = (if HasTabletIndex legacy then Some (GetTabletIndex legacy) else None)\<rparr>)"

definition ReadLimitFromLegacyReadLimitKeyless :: "TLegacyReadLimit \<Rightarrow> TReadLimit res" where
  "ReadLimitFromLegacyReadLimitKeyless legacy =
     rbind (verify (\<not> HasLegacyKey legacy) ''!legacyReadLimit.HasLegacyKey()'') (\<lambda>_.
       Inr \<lparr>KeyBound = null_bound,
            RowIndex = (if HasRowIndex legacy then Some (GetRowIndex legacy) else None),
            Offset = (if HasOffset legacy then Some (GetOffset legacy) else None),
            ChunkIndex = (if HasChunkIndex legacy then Some (GetChunkIndex legacy) else None),
            TabletIndex = (if HasTabletIndex legacy then Some (GetTabletIndex legacy) else None)\<rparr>)"

definition ReadLimitToLegacyReadLimit :: "TReadLimit \<Rightarrow> TLegacyReadLimit res" where
  "ReadLimitToLegacyReadLimit readLimit =
     (let result = set_found SetTabletIndex (set_found SetOffset (set_found SetChunkIndex
            (set_found SetRowIndex mk_TLegacyReadLimit (RowIndex readLimit))
            (ChunkIndex readLimit)) (Offset readLimit)) (TabletIndex readLimit)
      in if bound_exists (KeyBound readLimit)
         then SetLegacyKey result (KeyBoundToLegacyRow (KeyBound readLimit))
         else Inr result)"

definition ReadRangeFromLegacyReadRange :: "TLegacyReadRange \<Rightarrow> nat \<Rightarrow> TReadRange res" where
  "ReadRangeFromLegacyReadRange legacy keyLength =
     rbind (ReadLimitFromLegacyReadLimit (LowerLimit_legacy legacy) False keyLength) (\<lambda>lo.
     rbind (ReadLimitFromLegacyReadLimit (UpperLimit_legacy legacy) True keyLength) (\<lambda>up.
       Inr \<lparr>LowerLimit = lo, UpperLimit = up\<rparr>))"

definition ReadRangeFromLegacyReadRangeKeyless :: "TLegacyReadRange \<Rightarrow> TReadRange res" where
  "ReadRangeFromLegacyReadRangeKeyless legacy =
     rbind (ReadLimitFromLegacyReadLimitKeyless (LowerLimit_legacy legacy)) (\<lambda>lo.
     rbind (ReadLimitFromLegacyReadLimitKeyless (UpperLimit_legacy legacy)) (\<lambda>up.
       Inr \<lparr>LowerLimit = lo, UpperLimit = up\<rparr>))"

definition ReadRangeToLegacyReadRange :: "TReadRange \<Rightarrow> TLegacyReadRange res" where
  "ReadRangeToLegacyReadRange readRange =
     rbind (ReadLimitToLegacyReadLimit (LowerLimit readRange)) (\<lambda>lo.
     rbind (ReadLimitToLegacyReadLimit (UpperLimit readRange)) (\<lambda>up.
       Inr \<lparr>LowerLimit_legacy = lo, UpperLimit_legacy = up\<rparr>))"

section \<open>Limits survive messages and the legacy form\<close>

definition wire_bound :: "TKeyBound \<Rightarrow> nat \<Rightarrow> bool" where
  "wire_bound b n \<longleftrightarrow>
     (case Prefix b of None \<Rightarrow> b = null_bound
      | Some vs \<Rightarrow> list_all wire_value vs \<and> data_values vs \<and> length vs \<le> n \<and> length vs < 2 ^ 31 - 1)"

definition fits_i32 :: "u64 \<Rightarrow> bool" where
  "fits_i32 w \<longleftrightarrow> - (2 ^ 31) \<le> sint w \<and> sint w < 2 ^ 31"

lemma scast_ucast_i32:
  assumes "fits_i32 w"
  shows "scast (ucast w :: u32) = w"
proof -
  have "sint (ucast w :: u32) = signed_take_bit 31 (sint w)"
    by (simp add: sint_uint uint_word_of_int unsigned_ucast_eq signed_take_bit_take_bit)
  also have "\<dots> = sint w"
    using assms by (intro signed_take_bit_int_eq_self) (simp_all add: fits_i32_def)
  finally have "scast (ucast w :: u32) = (word_of_int (sint w) :: u64)"
    by (metis of_int_sint)
  then show ?thesis by simp
qed

lemma row_proto:
  assumes "list_all wire_value vs" "length vs < 2 ^ 31"
  shows "ToProto_row (Some vs) = Inr (SerializeRowToBuffer vs)"
    and "FromProto_row (SerializeRowToBuffer vs) = Inr (Some vs)"
  using DeserializeFromString_Serialize [OF assms, of None]
  by (simp_all add: ToProto_row_def FromProto_row_def SerializeToString_def SerializeToString_range_def
      SerializeRowToBuffer_fits Let_def)

lemma legacy_row_wire:
  assumes "Prefix b = Some vs" "list_all wire_value vs"
  obtains ws where "KeyBoundToLegacyRow b = Some ws" "list_all wire_value ws" "length ws \<le> Suc (length vs)"
proof -
  have "wire_value (sentinel VT_Max)"
    by (simp add: wire_value_def MakeSentinelValue_def value_ok_def AsStringBuf_def)
  then show thesis
    using that assms by (auto simp: KeyBoundToLegacyRow_def bound_exists_def Elements_def Let_def)
qed

lemma legacy_bound_inverse:
  assumes "Prefix b = Some vs" "data_values vs" "length vs \<le> n"
  shows "KeyBoundFromLegacyRow (KeyBoundToLegacyRow b) (IsUpper b) n = Inr b"
  using KeyBoundFromLegacyRow_data [OF assms(2,3)] assms(1)
  by (cases b) (auto simp: KeyBoundToLegacyRow_def bound_exists_def Elements_def Let_def)

text \<open>What a limit becomes when it is read from a message, where a limit without a key gets the
  direction it is read with.\<close>

definition directed :: "bool \<Rightarrow> TReadLimit \<Rightarrow> TReadLimit" where
  "directed isUpper l = l\<lparr>KeyBound := (KeyBound l)\<lparr>IsUpper := isUpper\<rparr>\<rparr>"

definition wire_limit :: "TReadLimit \<Rightarrow> bool \<Rightarrow> nat \<Rightarrow> bool" where
  "wire_limit l isUpper n \<longleftrightarrow>
     wire_bound (KeyBound l) n \<and> (bound_exists (KeyBound l) \<longrightarrow> IsUpper (KeyBound l) = isUpper) \<and>
     (\<forall>i. ChunkIndex l = Some i \<longrightarrow> fits_i32 i)"

lemmas legacy_accessors =
  HasLegacyKey_def GetLegacyKey_def HasRowIndex_def GetRowIndex_def SetRowIndex_def HasOffset_def
  GetOffset_def SetOffset_def HasChunkIndex_def GetChunkIndex_def SetChunkIndex_def HasTabletIndex_def
  GetTabletIndex_def SetTabletIndex_def mk_TLegacyReadLimit_def empty_limit_proto_def or_default_def

lemma ToProto_limit_fields:
  "ToProto_limit empty_limit_proto l =
     rbind (if bound_exists (KeyBound l)
            then rbind (ToProto_row (Prefix (KeyBound l))) (\<lambda>prefix.
                 rbind (ToProto_row (KeyBoundToLegacyRow (KeyBound l))) (\<lambda>legacy.
                   Inr (Some legacy, Some prefix, Some (IsInclusive (KeyBound l)))))
            else Inr (None, None, None)) (\<lambda>(legacy, prefix, inclusive).
       Inr \<lparr>row_index = RowIndex l, chunk_index = map_option ucast (ChunkIndex l), offset = Offset l,
            legacy_key = legacy, key_bound_prefix = prefix, key_bound_is_inclusive = inclusive,
            tablet_index = TabletIndex l, key_index = None\<rparr>)"
  by (cases "RowIndex l"; cases "Offset l"; cases "ChunkIndex l"; cases "TabletIndex l")
    (auto simp: ToProto_limit_def set_found_def empty_limit_proto_def rbind_assoc intro!: rbind_cong)

lemma FromProto_limit_fields:
  "FromProto_limit empty_limit p isUpper n =
     rbind
       (case key_bound_prefix p of
          Some bs \<Rightarrow>
            rbind (validateKeyLengthIsPresent n) (\<lambda>_.
            rbind (FromProto_row bs) (\<lambda>prefix.
            rbind (throw_if (int (GetCount prefix) > n) ''Invalid key bound prefix length'') (\<lambda>_.
              Inr \<lparr>Prefix = prefix, IsInclusive = or_default (key_bound_is_inclusive p) False, IsUpper = isUpper\<rparr>)))
        | None \<Rightarrow>
            (case legacy_key p of
               Some bs \<Rightarrow>
                 rbind (validateKeyLengthIsPresent n) (\<lambda>_.
                 rbind (FromProto_row bs) (\<lambda>key. KeyBoundFromLegacyRow key isUpper (nat n)))
             | None \<Rightarrow> Inr (null_bound\<lparr>IsUpper := isUpper\<rparr>))) (\<lambda>b.
       Inr \<lparr>KeyBound = b, RowIndex = row_index p, Offset = offset p,
            ChunkIndex = map_option scast (chunk_index p), TabletIndex = tablet_index p\<rparr>)"
  by (cases "row_index p"; cases "offset p"; cases "chunk_index p"; cases "tablet_index p")
    (auto simp: FromProto_limit_def set_found_def empty_limit_def null_bound_def rbind_assoc Let_def
      split: option.splits intro!: rbind_cong)

lemma ReadLimitToLegacyReadLimit_fields:
  "ReadLimitToLegacyReadLimit l =
     rbind (if bound_exists (KeyBound l)
            then rbind (ToProto_row (KeyBoundToLegacyRow (KeyBound l))) (\<lambda>bs.
                   Inr (Some bs, KeyBoundToLegacyRow (KeyBound l)))
            else Inr (None, None)) (\<lambda>(bs, key).
       Inr \<lparr>ReadLimit = empty_limit_proto\<lparr>row_index := RowIndex l, chunk_index := map_option ucast (ChunkIndex l),
              offset := Offset l, legacy_key := bs, tablet_index := TabletIndex l\<rparr>, Key = key\<rparr>)"
  by (cases "RowIndex l"; cases "Offset l"; cases "ChunkIndex l"; cases "TabletIndex l")
    (auto simp: ReadLimitToLegacyReadLimit_def SetLegacyKey_def set_found_def legacy_accessors rbind_assoc
      intro!: rbind_cong)

lemma ReadLimitFromLegacyReadLimit_fields:
  "ReadLimitFromLegacyReadLimit legacy isUpper n =
     rbind (if HasLegacyKey legacy then KeyBoundFromLegacyRow (Key legacy) isUpper n else Inr null_bound) (\<lambda>b.
       Inr \<lparr>KeyBound = b, RowIndex = row_index (ReadLimit legacy), Offset = offset (ReadLimit legacy),
            ChunkIndex = map_option scast (chunk_index (ReadLimit legacy)),
            TabletIndex = tablet_index (ReadLimit legacy)\<rparr>)"
  by (cases "row_index (ReadLimit legacy)"; cases "offset (ReadLimit legacy)"; cases "chunk_index (ReadLimit legacy)";
      cases "tablet_index (ReadLimit legacy)")
    (auto simp: ReadLimitFromLegacyReadLimit_def legacy_accessors intro!: rbind_cong)

lemma directed_eq: "directed isUpper l = l \<longleftrightarrow> IsUpper (KeyBound l) = isUpper"
  by (cases l; cases "KeyBound l") (auto simp: directed_def)

lemma chunk_index_inverse:
  "wire_limit l isUpper n \<Longrightarrow> map_option (scast \<circ> (ucast :: u64 \<Rightarrow> u32)) (ChunkIndex l) = ChunkIndex l"
  by (cases "ChunkIndex l") (simp_all add: wire_limit_def scast_ucast_i32)



end
