(* ===== verification/ReadSelection.thy ===== *)
theory ReadSelection
  imports ReadLimits PrefixComparers
begin

text \<open>
  What read limits select. A position of a table has a key, a row index, an offset, a chunk
  index and a tablet index; a lower limit admits the positions at or after it and an upper
  limit those before it. Rows of ordered dynamic tables are ordered by the pair of tablet
  index and row index, as the comment in \<open>ToExactUpperCounterpart\<close> of \<open>read_limit.cpp\<close> says.
\<close>

record position =
  pos_key :: TKey
  pos_row :: int
  pos_offset :: int
  pos_chunk :: int
  pos_tablet :: int

definition passes_key :: "text_lib \<Rightarrow> TComparator \<Rightarrow> TReadLimit \<Rightarrow> position \<Rightarrow> bool" where
  "passes_key L c l p \<longleftrightarrow> (bound_exists (KeyBound l) \<longrightarrow> TestKey L c (pos_key p) (KeyBound l) = Inr True)"

definition in_lower :: "text_lib \<Rightarrow> TComparator \<Rightarrow> TReadLimit \<Rightarrow> position \<Rightarrow> bool" where
  "in_lower L c l p \<longleftrightarrow> passes_key L c l p \<and>
     (case TabletIndex l of
        None \<Rightarrow> pred_option (\<lambda>r. sint r \<le> pos_row p) (RowIndex l)
      | Some t \<Rightarrow> sint t < pos_tablet p \<or>
          sint t = pos_tablet p \<and> pred_option (\<lambda>r. sint r \<le> pos_row p) (RowIndex l)) \<and>
     pred_option (\<lambda>i. sint i \<le> pos_offset p) (Offset l) \<and>
     pred_option (\<lambda>i. sint i \<le> pos_chunk p) (ChunkIndex l)"

definition in_upper :: "text_lib \<Rightarrow> TComparator \<Rightarrow> TReadLimit \<Rightarrow> position \<Rightarrow> bool" where
  "in_upper L c l p \<longleftrightarrow> passes_key L c l p \<and>
     (case TabletIndex l of
        None \<Rightarrow> pred_option (\<lambda>r. pos_row p < sint r) (RowIndex l)
      | Some t \<Rightarrow> pos_tablet p < sint t \<or>
          pos_tablet p = sint t \<and> (\<exists>r. RowIndex l = Some r \<and> pos_row p < sint r)) \<and>
     pred_option (\<lambda>i. pos_offset p < sint i) (Offset l) \<and>
     pred_option (\<lambda>i. pos_chunk p < sint i) (ChunkIndex l)"

definition matches :: "text_lib \<Rightarrow> TReadLimit \<Rightarrow> position \<Rightarrow> bool" where
  "matches L l p \<longleftrightarrow>
     (\<forall>vs. Prefix (KeyBound l) = Some vs \<longrightarrow> IsInclusive (KeyBound l) \<and>
        row_rank L (take (length vs) (Elements (pos_key p))) = row_rank L vs) \<and>
     pred_option (\<lambda>r. pos_row p = sint r) (RowIndex l) \<and>
     pred_option (\<lambda>t. pos_tablet p = sint t) (TabletIndex l) \<and>
     pred_option (\<lambda>i. pos_offset p = sint i) (Offset l) \<and>
     pred_option (\<lambda>i. pos_chunk p = sint i) (ChunkIndex l)"

section \<open>Arithmetic and keys\<close>

definition incrementable :: "'a::len word \<Rightarrow> bool" where
  "incrementable w \<longleftrightarrow> sint w < 2 ^ (LENGTH('a) - 1) - 1"

lemma increment_Inr:
  fixes w :: "'a::len word"
  assumes "incrementable w"
  shows "increment w = Inr (w + 1)" "sint (w + 1) = sint w + 1"
proof -
  show "increment w = Inr (w + 1)" using assms by (simp add: increment_def incrementable_def)
  have "- (2 ^ (LENGTH('a) - 1)) \<le> sint w + 1" "sint w + 1 < 2 ^ (LENGTH('a) - 1)"
    using sint_greater_eq [of w] assms by (simp_all add: incrementable_def)
  moreover have "word_of_int (sint w + 1) = w + 1" by simp
  then have "sint (w + 1) = signed_take_bit (LENGTH('a) - 1) (sint w + 1)"
    using sint_sbintrunc' [of "sint w + 1", where 'a = 'a] by simp
  ultimately show "sint (w + 1) = sint w + 1"
    by (simp add: signed_take_bit_int_eq_self)
qed

lemma Invert_point:
  assumes "bound_ok L kinds c b"
  shows "\<exists>b'. KeyBounds.Invert b = Inr b' \<and> bound_ok L kinds c b' \<and> IsUpper b' = (\<not> IsUpper b) \<and>
    bound_point L c b' = bound_point L c b"
  using assms by (auto simp: KeyBounds.Invert_def FromRowUnchecked_def bound_ok_def bound_point_def ref_point_def
      ToKeyBoundRef_def inclusiveness_as_upper_def)

lemma coordinates_eq_iff:
  "length a = length b \<Longrightarrow> length b \<le> length orders \<Longrightarrow>
   coordinates L orders a = coordinates L orders b \<longleftrightarrow> row_rank L a = row_rank L b"
proof (induction a b arbitrary: orders rule: list_induct2)
  case (Cons x xs y ys)
  then show ?case by (cases orders) (auto simp: row_rank_def)
qed simp

lemma exact_key:
  assumes "bound_ok L kinds c b" "\<not> IsUpper b" "IsEmptyBound b \<or> IsInclusive b" "key_ok L kinds c k"
  shows "\<exists>b'. rbind (KeyBounds.Invert b) ToggleInclusiveness = Inr b' \<and> bound_exists b' \<and>
    (TestKey L c k b = Inr True \<and> TestKey L c k b' = Inr True \<longleftrightarrow>
     IsInclusive b \<and> row_rank L (take (length (Elements (Prefix b))) (Elements k)) = row_rank L (Elements (Prefix b)))"
proof -
  define b' where "b' = \<lparr>Prefix = Prefix b, IsInclusive = IsInclusive b, IsUpper = True\<rparr>"
  obtain ks where k: "k = Some ks" "length ks = GetLength c" using assms(4) by (auto simp: key_ok_def Elements_def)
  have inv: "rbind (KeyBounds.Invert b) ToggleInclusiveness = Inr b'" "bound_exists b'"
    using assms(1,2) by (simp_all add: bound_ok_def KeyBounds.Invert_def ToggleInclusiveness_def
        FromRowUnchecked_def b'_def bound_exists_def)
  have ok: "bound_ok L kinds c b'" "length (Elements (Prefix b)) \<le> GetLength c" "Prefix b' = Prefix b"
    using assms(1) by (simp_all add: bound_ok_def b'_def)
  have eq: "coordinates L (SortOrders c) (take (length (Elements (Prefix b))) ks) =
      coordinates L (SortOrders c) (Elements (Prefix b)) \<longleftrightarrow>
      row_rank L (take (length (Elements (Prefix b))) ks) = row_rank L (Elements (Prefix b))"
    using ok(2) k(2) by (intro coordinates_eq_iff) (simp_all add: GetLength_def)
  have "TestKey L c k b = Inr (admits L c b k)" "TestKey L c k b' = Inr (admits L c b' k)"
    using TestKey_point [OF assms(4)] assms(1) ok(1) by auto
  then show ?thesis
    using inv assms(2,3) admits_coordinates [OF k(2) ok(2), of L]
      admits_coordinates [OF k(2), of b' L, unfolded ok(3), OF ok(2)] eq k(1)
    by (auto simp: Let_def b'_def Elements_Some IsEmptyBound_def)
qed

section \<open>Exact limits\<close>

definition exact_ok :: "text_lib \<Rightarrow> (nat \<Rightarrow> column_kind) \<Rightarrow> TComparator \<Rightarrow> TReadLimit \<Rightarrow> bool" where
  "exact_ok L kinds c l \<longleftrightarrow>
     (bound_exists (KeyBound l) \<longrightarrow> bound_ok L kinds c (KeyBound l) \<and> \<not> IsUpper (KeyBound l) \<and>
        (IsEmptyBound (KeyBound l) \<or> IsInclusive (KeyBound l))) \<and>
     pred_option incrementable (RowIndex l) \<and> pred_option incrementable (TabletIndex l) \<and>
     pred_option incrementable (Offset l) \<and> pred_option incrementable (ChunkIndex l)"

lemma increment_option_Inr:
  assumes "pred_option incrementable x"
  shows "increment_option x = Inr (map_option (\<lambda>w. w + 1) x)"
  using assms by (cases x) (simp_all add: increment_option_def increment_Inr)

lemma exact_index:
  assumes "pred_option incrementable i"
  shows "pred_option (\<lambda>i. sint i \<le> x) i \<and> pred_option (\<lambda>i. x < sint i) (map_option (\<lambda>w. w + 1) i) \<longleftrightarrow>
    pred_option (\<lambda>i. x = sint i) i"
  using assms by (cases i) (auto simp: increment_Inr)

lemma exact_row:
  assumes "pred_option incrementable r" "pred_option incrementable t"
  shows "(case t of None \<Rightarrow> pred_option (\<lambda>r. sint r \<le> y) r
        | Some t \<Rightarrow> sint t < x \<or> sint t = x \<and> pred_option (\<lambda>r. sint r \<le> y) r) \<and>
      (case if r = None then map_option (\<lambda>w. w + 1) t else t of
        None \<Rightarrow> pred_option (\<lambda>r. y < sint r) (map_option (\<lambda>w. w + 1) r)
      | Some t \<Rightarrow> x < sint t \<or> x = sint t \<and> (\<exists>r'. map_option (\<lambda>w. w + 1) r = Some r' \<and> y < sint r')) \<longleftrightarrow>
    pred_option (\<lambda>r. y = sint r) r \<and> pred_option (\<lambda>t. x = sint t) t"
  using assms by (cases r; cases t) (auto simp: increment_Inr)

lemma exact_counterpart:
  assumes "\<not> HasIndependentSelectors l" "exact_ok L kinds c l" "key_ok L kinds c (pos_key p)"
  shows "\<exists>u. ToExactUpperCounterpart l = Inr u \<and>
    (in_lower L c l p \<and> in_upper L c u p \<longleftrightarrow> matches L l p)"
proof -
  let ?key = "if bound_exists (KeyBound l) then rbind (KeyBounds.Invert (KeyBound l)) ToggleInclusiveness
    else Inr (KeyBound l)"
  have "\<exists>b. ?key = Inr b \<and> bound_exists b = bound_exists (KeyBound l) \<and>
      (passes_key L c l p \<and> (bound_exists b \<longrightarrow> TestKey L c (pos_key p) b = Inr True) \<longleftrightarrow>
       (\<forall>vs. Prefix (KeyBound l) = Some vs \<longrightarrow> IsInclusive (KeyBound l) \<and>
          row_rank L (take (length vs) (Elements (pos_key p))) = row_rank L vs))"
    using exact_key [of L kinds c "KeyBound l" "pos_key p"] assms(2,3)
    by (auto simp: exact_ok_def passes_key_def bound_exists_def Elements_Some)
  then obtain b where b: "?key = Inr b" "bound_exists b = bound_exists (KeyBound l)"
    "passes_key L c l p \<and> (bound_exists b \<longrightarrow> TestKey L c (pos_key p) b = Inr True) \<longleftrightarrow>
       (\<forall>vs. Prefix (KeyBound l) = Some vs \<longrightarrow> IsInclusive (KeyBound l) \<and>
          row_rank L (take (length vs) (Elements (pos_key p))) = row_rank L vs)"
    by blast
  define u where "u = \<lparr>KeyBound = b, RowIndex = map_option (\<lambda>w. w + 1) (RowIndex l),
    Offset = map_option (\<lambda>w. w + 1) (Offset l), ChunkIndex = map_option (\<lambda>w. w + 1) (ChunkIndex l),
    TabletIndex = (if RowIndex l = None then map_option (\<lambda>w. w + 1) (TabletIndex l) else TabletIndex l)\<rparr>"
  have inc: "pred_option incrementable (RowIndex l)" "pred_option incrementable (TabletIndex l)"
    "pred_option incrementable (Offset l)" "pred_option incrementable (ChunkIndex l)"
    using assms(2) by (simp_all add: exact_ok_def)
  have "ToExactUpperCounterpart l = Inr u"
    using assms(1,2) b(1) inc
    by (auto simp: ToExactUpperCounterpart_def exact_ok_def increment_option_Inr u_def)
  moreover have "in_lower L c l p \<and> in_upper L c u p \<longleftrightarrow> matches L l p"
    unfolding in_lower_def in_upper_def matches_def b(3) [symmetric]
    using exact_index [OF inc(3), of "pos_offset p"] exact_index [OF inc(4), of "pos_chunk p"]
      exact_row [OF inc(1,2), of "pos_row p" "pos_tablet p"]
    unfolding u_def TReadLimit.simps passes_key_def by blast
  ultimately show ?thesis by blast
qed

text \<open>C35. An exact read limit becomes a range that selects exactly the rows it names: between the
  limit and its exact upper counterpart lie the positions whose key has the prefix and
  whose row, offset, chunk and tablet index are the ones of the limit; the exclusive empty bound
  selects none, and a limit without selectors all. This is so for limits with at most one
  selector, or a row index with a tablet index, which the comment in \<open>read_limit.h\<close> does not
  mention, whose key bound, if any, is a lower bound that is inclusive or empty and fits the
  comparator, and whose indexes are below the maximum of their type, since the
  increment overflows there. On independent selectors, on an upper bound and on a non-empty exclusive
  bound the conversion aborts.\<close>

theorem exact_limit_selects:
  assumes "key_ok L kinds c (pos_key p)"
  shows "(\<not> HasIndependentSelectors l \<and> exact_ok L kinds c l \<longrightarrow>
      (\<exists>u. ToExactUpperCounterpart l = Inr u \<and> (in_lower L c l p \<and> in_upper L c u p \<longleftrightarrow> matches L l p))) \<and>
    (HasIndependentSelectors l \<or> bound_exists (KeyBound l) \<and>
        (IsUpper (KeyBound l) \<or> \<not> IsEmptyBound (KeyBound l) \<and> \<not> IsInclusive (KeyBound l)) \<longrightarrow>
      (\<exists>e. ToExactUpperCounterpart l = Inl (Fatal e)))"
  using exact_counterpart [OF _ _ assms, of l] by (auto simp: ToExactUpperCounterpart_def verify_def)

theorem exact_limit_selects_witness:
  "\<exists>u. ToExactUpperCounterpart (empty_limit\<lparr>RowIndex := Some 7, TabletIndex := Some 2\<rparr>) = Inr u \<and>
     in_lower sample_lib (mk_TComparator [] None) (empty_limit\<lparr>RowIndex := Some 7, TabletIndex := Some 2\<rparr>)
       \<lparr>pos_key = Some [], pos_row = 7, pos_offset = 0, pos_chunk = 0, pos_tablet = 2\<rparr> \<and>
     in_upper sample_lib (mk_TComparator [] None) u
       \<lparr>pos_key = Some [], pos_row = 7, pos_offset = 0, pos_chunk = 0, pos_tablet = 2\<rparr>"
proof -
  let ?l = "empty_limit\<lparr>RowIndex := Some 7, TabletIndex := Some 2\<rparr>" and ?c = "mk_TComparator [] None"
  let ?p = "\<lparr>pos_key = Some [], pos_row = 7, pos_offset = 0, pos_chunk = 0, pos_tablet = 2\<rparr>"
  have ok: "\<not> HasIndependentSelectors ?l" "exact_ok sample_lib (\<lambda>_. ScalarColumn) ?c ?l"
    "key_ok sample_lib (\<lambda>_. ScalarColumn) ?c (pos_key ?p)"
    by (simp_all add: HasIndependentSelectors_def GetSelectorCount_def empty_limit_def null_bound_def bound_exists_def
        exact_ok_def incrementable_def key_ok_def Elements_def GetLength_def mk_TComparator_def)
  have "matches sample_lib ?l ?p" by (simp add: matches_def empty_limit_def null_bound_def)
  with exact_limit_selects [OF ok(3), of ?l] ok(1,2) show ?thesis by blast
qed

section \<open>Inverted limits\<close>

lemma selector_cases:
  assumes "\<not> HasIndependentSelectors l" "\<not> IsTrivial l"
  obtains (bound) "bound_exists (KeyBound l)" "RowIndex l = None" "Offset l = None" "ChunkIndex l = None" "TabletIndex l = None"
  | (rows) "\<not> bound_exists (KeyBound l)" "RowIndex l \<noteq> None \<or> TabletIndex l \<noteq> None" "Offset l = None" "ChunkIndex l = None"
  | (offset) "\<not> bound_exists (KeyBound l)" "RowIndex l = None" "Offset l \<noteq> None" "ChunkIndex l = None" "TabletIndex l = None"
  | (chunk) "\<not> bound_exists (KeyBound l)" "RowIndex l = None" "Offset l = None" "ChunkIndex l \<noteq> None" "TabletIndex l = None"
  using assms
  by (cases "bound_exists (KeyBound l)"; cases "RowIndex l"; cases "Offset l"; cases "ChunkIndex l"; cases "TabletIndex l")
    (auto simp: HasIndependentSelectors_def IsTrivial_def GetSelectorCount_def)

lemma inverted_test:
  assumes "bound_ok L kinds c b" "key_ok L kinds c k" "KeyBounds.Invert b = Inr b'"
  shows "TestKey L c k b' = Inr True \<longleftrightarrow> TestKey L c k b \<noteq> Inr True"
proof -
  have "bound_ok L kinds c b'" "IsUpper b' = (\<not> IsUpper b)" "bound_point L c b' = bound_point L c b"
    using Invert_point [OF assms(1)] assms(3) by auto
  moreover have "key_point L c k \<noteq> bound_point L c b"
    by (auto simp: key_point_def bound_point_def ref_point_def split: if_splits)
  ultimately show ?thesis
    using key_rays.inverted_bound [OF assms(2), of b' b] assms(1) by auto
qed

text \<open>C36. Inverting a read limit gives the complement: for a limit with one selector, or a row
  index with a tablet index, and with a key bound that fits the comparator, if any, a position lies
  below the inverted limit exactly when it does not lie at or above the limit itself. The comment
  in \<open>read_limit.h\<close> says that \<open>Invert\<close> verifies that there is exactly one selector; the code
  verifies only that the selectors are not independent, so it also inverts a row index with
  a tablet index, for which the result is the complement as well.\<close>

theorem inverted_limit_complements:
  assumes "\<not> HasIndependentSelectors l" "\<not> IsTrivial l" "key_ok L kinds c (pos_key p)"
    and "bound_exists (KeyBound l) \<longrightarrow> bound_ok L kinds c (KeyBound l)"
  shows "\<exists>u. Invert_limit l = Inr u \<and> (in_upper L c u p \<longleftrightarrow> \<not> in_lower L c l p)"
  using assms(1,2)
proof (cases rule: selector_cases)
  case bound
  then obtain b where b: "KeyBounds.Invert (KeyBound l) = Inr b" "bound_exists b"
    using Invert_point [of L kinds c "KeyBound l"] assms(4) by (auto simp: bound_ok_def bound_exists_def)
  then show ?thesis
    using bound assms(1,3,4) inverted_test [OF _ assms(3) b(1)]
    by (auto simp: Invert_limit_def in_upper_def in_lower_def passes_key_def)
next
  case rows
  then show ?thesis
    using assms(1) by (cases "RowIndex l"; cases "TabletIndex l")
      (auto simp: Invert_limit_def in_upper_def in_lower_def passes_key_def)
qed (use assms(1) in \<open>auto simp: Invert_limit_def in_upper_def in_lower_def passes_key_def\<close>)

theorem inverted_limit_complements_witness:
  "\<exists>u. Invert_limit (empty_limit\<lparr>RowIndex := Some 7\<rparr>) = Inr u \<and>
     in_upper sample_lib (mk_TComparator [] None) u
       \<lparr>pos_key = Some [], pos_row = 3, pos_offset = 0, pos_chunk = 0, pos_tablet = 0\<rparr>"
proof -
  let ?l = "empty_limit\<lparr>RowIndex := Some 7\<rparr>" and ?c = "mk_TComparator [] None"
  let ?p = "\<lparr>pos_key = Some [], pos_row = 3, pos_offset = 0, pos_chunk = 0, pos_tablet = 0\<rparr>"
  have ok: "\<not> HasIndependentSelectors ?l" "\<not> IsTrivial ?l" "key_ok sample_lib (\<lambda>_. ScalarColumn) ?c (pos_key ?p)"
    "bound_exists (KeyBound ?l) \<longrightarrow> bound_ok sample_lib (\<lambda>_. ScalarColumn) ?c (KeyBound ?l)"
    by (simp_all add: HasIndependentSelectors_def GetSelectorCount_def empty_limit_def null_bound_def bound_exists_def
        IsTrivial_def key_ok_def Elements_def GetLength_def mk_TComparator_def)
  have "\<not> in_lower sample_lib ?c ?l ?p" by (simp add: in_lower_def empty_limit_def)
  with inverted_limit_complements [OF ok] show ?thesis by blast
qed

text \<open>With independent selectors the two sides are not complementary.\<close>

lemma independent_selectors_not_complementary:
  defines "l \<equiv> empty_limit\<lparr>RowIndex := Some 1, ChunkIndex := Some 1\<rparr>"
    and "p \<equiv> \<lparr>pos_key = Some [], pos_row = 0, pos_offset = 0, pos_chunk = 2, pos_tablet = 0\<rparr>"
  shows "HasIndependentSelectors l" "\<not> in_lower L c l p" "\<not> in_upper L c l p"
  by (simp_all add: l_def p_def HasIndependentSelectors_def GetSelectorCount_def empty_limit_def null_bound_def
      bound_exists_def in_lower_def in_upper_def)

section \<open>Exact legacy limits\<close>

text \<open>Exact legacy limits lose selectors: the legacy range made from an exact tablet index
  contains no position at all, and the one made from an exact offset has no upper limit, while
  the exact upper counterpart of the same limits selects that tablet or offset only.\<close>

theorem legacy_exact_range_gaps:
  "(\<exists>r. rbind (TLegacyReadRange_exact (SetTabletIndex mk_TLegacyReadLimit t)) ReadRangeFromLegacyReadRangeKeyless = Inr r \<and>
      \<not> (in_lower L c (LowerLimit r) p \<and> in_upper L c (UpperLimit r) p)) \<and>
   (\<exists>r. rbind (TLegacyReadRange_exact (SetOffset mk_TLegacyReadLimit i)) ReadRangeFromLegacyReadRangeKeyless = Inr r \<and>
      (in_lower L c (LowerLimit r) p \<and> in_upper L c (UpperLimit r) p \<longleftrightarrow> sint i \<le> pos_offset p))"
  by (auto simp: TLegacyReadRange_exact_def GetSuccessor_def legacy_accessors ReadRangeFromLegacyReadRangeKeyless_def
      ReadLimitFromLegacyReadLimitKeyless_def in_lower_def in_upper_def passes_key_def bound_exists_def null_bound_def)

end
