(* ===== verification/ArrayHeap.thy ===== *)
theory ArrayHeap
  imports Prelude "HOL-Library.Multiset"
begin

text \<open>
  Binary heaps in arrays: \<open>heap-inl.h\<close> of \<open>yt/yt/core/misc\<close>. The routines work on a range
  of an array, given here by the array and the length of the range, and report every
  assignment to a callback, so that elements can keep track of their positions; the model
  collects the reports in a log, each with the element that was put there.

  A moved-from slot is left with its old content in the model; no routine reads such a slot
  before writing it.
\<close>

section \<open>The routines\<close>

type_synonym 'a comparer = "'a \<Rightarrow> 'a \<Rightarrow> bool"

text \<open>The state of a routine: the array and the log of assignments.\<close>

type_synonym 'a heap_state = "'a list \<times> (nat \<times> 'a) list"

definition std_less :: "'a::linorder comparer" where
  "std_less a b \<longleftrightarrow> a < b"

definition assign :: "'a heap_state \<Rightarrow> nat \<Rightarrow> 'a \<Rightarrow> 'a heap_state" where
  "assign s offset v = (case s of (xs, log) \<Rightarrow> (xs[offset := v], log @ [(offset, v)]))"

function sift_down_loop :: "'a comparer \<Rightarrow> 'a heap_state \<Rightarrow> nat \<Rightarrow> nat \<Rightarrow> 'a \<Rightarrow> 'a heap_state" where
  "sift_down_loop comparer s n offset v =
     (let left = 2 * offset + 1 in
      if left \<ge> n then assign s offset v
      else
        (let right = left + 1;
             m = (if right \<ge> n then left
                    else if comparer (fst s ! left) (fst s ! right) then left else right);
             minValue = fst s ! m
         in if comparer v minValue then assign s offset v
            else sift_down_loop comparer (assign s offset minValue) n m v))"
  by pat_completeness auto
termination
  by (relation "measure (\<lambda>(_, _, n, offset, _). n - offset)") auto

definition SiftDown :: "'a comparer \<Rightarrow> 'a heap_state \<Rightarrow> nat \<Rightarrow> nat \<Rightarrow> 'a heap_state" where
  "SiftDown comparer s n offset = sift_down_loop comparer s n offset (fst s ! offset)"

function sift_up_loop :: "'a comparer \<Rightarrow> 'a heap_state \<Rightarrow> nat \<Rightarrow> 'a \<Rightarrow> 'a heap_state \<times> nat" where
  "sift_up_loop comparer s dist v =
     (if dist = 0 then (s, dist)
      else
        (let parent = (dist - 1) div 2; parentValue = fst s ! parent
         in if comparer parentValue v then (s, dist)
            else sift_up_loop comparer (assign s dist parentValue) parent v))"
  by pat_completeness auto
termination
  by (relation "measure (\<lambda>(_, _, dist, _). dist)") auto

declare sift_down_loop.simps [simp del] sift_up_loop.simps [simp del]

definition SiftUp :: "'a comparer \<Rightarrow> 'a heap_state \<Rightarrow> nat \<Rightarrow> 'a heap_state" where
  "SiftUp comparer s current =
     (let v = fst s ! current in
      case sift_up_loop comparer s current v of (s, dist) \<Rightarrow> assign s dist v)"

fun make_heap_loop :: "'a comparer \<Rightarrow> 'a heap_state \<Rightarrow> nat \<Rightarrow> nat \<Rightarrow> 'a heap_state" where
  "make_heap_loop comparer s n 0 = s"
| "make_heap_loop comparer s n (Suc current) =
     make_heap_loop comparer (SiftDown comparer s n current) n current"

definition MakeHeap :: "'a comparer \<Rightarrow> 'a heap_state \<Rightarrow> nat \<Rightarrow> 'a heap_state" where
  "MakeHeap comparer s n = (if n > 1 then make_heap_loop comparer s n (n div 2) else s)"

definition AdjustHeapFront :: "'a comparer \<Rightarrow> 'a heap_state \<Rightarrow> nat \<Rightarrow> 'a heap_state" where
  "AdjustHeapFront comparer s n = (if n > 1 then SiftDown comparer s n 0 else s)"

definition AdjustHeapBack :: "'a comparer \<Rightarrow> 'a heap_state \<Rightarrow> nat \<Rightarrow> 'a heap_state" where
  "AdjustHeapBack comparer s n = (if n > 1 then SiftUp comparer s (n - 1) else s)"

text \<open>The first part of \<open>AdjustHeapItem\<close> stores the element without a report; it is reported
  after the second part, or at once when the element moved up.\<close>

definition AdjustHeapItem :: "'a comparer \<Rightarrow> 'a heap_state \<Rightarrow> nat \<Rightarrow> nat \<Rightarrow> 'a heap_state" where
  "AdjustHeapItem comparer s n current =
     (let v = fst s ! current in
      case sift_up_loop comparer s current v of (s', dist) \<Rightarrow>
        if dist \<noteq> current then assign s' dist v
        else sift_down_loop comparer ((fst s')[dist := v], snd s') n dist v)"

definition swap_slots :: "'a heap_state \<Rightarrow> nat \<Rightarrow> nat \<Rightarrow> 'a heap_state" where
  "swap_slots s i j =
     (case s of (xs, log) \<Rightarrow>
        (xs[i := xs ! j, j := xs ! i], log @ [(i, xs ! j), (j, xs ! i)]))"

definition ExtractHeap_at :: "'a comparer \<Rightarrow> 'a heap_state \<Rightarrow> nat \<Rightarrow> nat \<Rightarrow> 'a heap_state" where
  "ExtractHeap_at comparer s n current =
     (let newEnd = n - 1 in
      if current = newEnd then s
      else AdjustHeapItem comparer (swap_slots s current newEnd) newEnd current)"

definition ExtractHeap :: "'a comparer \<Rightarrow> 'a heap_state \<Rightarrow> nat \<Rightarrow> 'a heap_state" where
  "ExtractHeap comparer s n =
     (let newEnd = n - 1 in
      if newEnd = 0 then s
      else SiftDown comparer (swap_slots s 0 newEnd) newEnd 0)"

section \<open>Comparers and heaps\<close>

text \<open>What every comparer must be: a strict weak order.\<close>

definition strict_weak :: "'a comparer \<Rightarrow> bool" where
  "strict_weak lt \<longleftrightarrow>
     (\<forall>a b. lt a b \<longrightarrow> \<not> lt b a) \<and> (\<forall>a b c. \<not> lt a b \<longrightarrow> \<not> lt b c \<longrightarrow> \<not> lt a c)"

definition par :: "nat \<Rightarrow> nat" where
  "par i = (i - 1) div 2"

definition is_heap_from :: "'a comparer \<Rightarrow> 'a list \<Rightarrow> nat \<Rightarrow> nat \<Rightarrow> bool" where
  "is_heap_from lt xs n k \<longleftrightarrow> (\<forall>i. 0 < i \<and> i < n \<and> k \<le> par i \<longrightarrow> \<not> lt (xs ! i) (xs ! par i))"

abbreviation is_heap :: "'a comparer \<Rightarrow> 'a list \<Rightarrow> nat \<Rightarrow> bool" where
  "is_heap lt xs n \<equiv> is_heap_from lt xs n 0"

text \<open>A heap but for the element at \<open>j\<close>: it may be too large for its children, too small for
  its parent, or both; its children fit its parent.\<close>

definition grand :: "'a comparer \<Rightarrow> 'a list \<Rightarrow> nat \<Rightarrow> nat \<Rightarrow> nat \<Rightarrow> bool" where
  "grand lt xs n k j \<longleftrightarrow>
     (\<forall>i. 0 < i \<and> i < n \<and> par i = j \<and> 0 < j \<and> k \<le> par j \<longrightarrow> \<not> lt (xs ! i) (xs ! par j))"

definition down_ok :: "'a comparer \<Rightarrow> 'a list \<Rightarrow> nat \<Rightarrow> nat \<Rightarrow> nat \<Rightarrow> bool" where
  "down_ok lt xs n k j \<longleftrightarrow> grand lt xs n k j \<and>
     (\<forall>i. 0 < i \<and> i < n \<and> k \<le> par i \<and> par i \<noteq> j \<longrightarrow> \<not> lt (xs ! i) (xs ! par i))"

definition up_ok :: "'a comparer \<Rightarrow> 'a list \<Rightarrow> nat \<Rightarrow> nat \<Rightarrow> bool" where
  "up_ok lt xs n j \<longleftrightarrow> grand lt xs n 0 j \<and>
     (\<forall>i. 0 < i \<and> i < n \<and> i \<noteq> j \<longrightarrow> \<not> lt (xs ! i) (xs ! par i))"

definition item_ok :: "'a comparer \<Rightarrow> 'a list \<Rightarrow> nat \<Rightarrow> nat \<Rightarrow> bool" where
  "item_ok lt xs n j \<longleftrightarrow> grand lt xs n 0 j \<and>
     (\<forall>i. 0 < i \<and> i < n \<and> i \<noteq> j \<and> par i \<noteq> j \<longrightarrow> \<not> lt (xs ! i) (xs ! par i))"

lemma par_iff: "0 < i \<Longrightarrow> par i = j \<longleftrightarrow> i = 2 * j + 1 \<or> i = 2 * j + 2"
  unfolding par_def by presburger

lemma par_less: "0 < i \<Longrightarrow> par i < i"
  by (simp add: par_def)

lemma par_child [simp]: "par (2 * j + 1) = j" "par (2 * j + 2) = j" "par (Suc (2 * j)) = j" "par (Suc (Suc (2 * j))) = j"
  by (simp_all add: par_def)

lemma is_heap_beyond:
  assumes "n \<le> k"
  shows "is_heap_from lt (xs[k := v]) n j = is_heap_from lt xs n j"
proof -
  have "xs[k := v] ! i = xs ! i" "xs[k := v] ! par i = xs ! par i" if "0 < i" "i < n" for i
    using that par_less [of i] assms by simp_all
  then show ?thesis by (auto simp: is_heap_from_def)
qed

section \<open>Rearrangements and positions\<close>

text \<open>Elements that keep their position update it from the log.\<close>

definition reindex :: "('a \<Rightarrow> nat) \<Rightarrow> (nat \<times> 'a) list \<Rightarrow> 'a \<Rightarrow> nat" where
  "reindex idx log = foldl (\<lambda>m (i, v). m(v := i)) idx log"

definition tracks :: "('a \<Rightarrow> nat) \<Rightarrow> 'a list \<Rightarrow> bool" where
  "tracks idx xs \<longleftrightarrow> (\<forall>i<length xs. idx (xs ! i) = i)"

definition hole_tracks :: "('a \<Rightarrow> nat) \<Rightarrow> 'a list \<Rightarrow> nat \<Rightarrow> 'a \<Rightarrow> bool" where
  "hole_tracks idx xs j v \<longleftrightarrow> distinct (xs[j := v]) \<and> (\<forall>i<length xs. i \<noteq> j \<longrightarrow> idx (xs ! i) = i)"

text \<open>A routine only permutes the first \<open>n\<close> slots, and its log keeps positions up to date.\<close>

definition rearranges :: "nat \<Rightarrow> 'a heap_state \<Rightarrow> 'a heap_state \<Rightarrow> bool" where
  "rearranges n s s' \<longleftrightarrow>
     length (fst s') = length (fst s) \<and> mset (fst s') = mset (fst s) \<and> drop n (fst s') = drop n (fst s) \<and>
     (\<forall>idx. distinct (fst s) \<and> tracks (reindex idx (snd s)) (fst s) \<longrightarrow> tracks (reindex idx (snd s')) (fst s'))"

definition fills :: "nat \<Rightarrow> 'a heap_state \<Rightarrow> nat \<Rightarrow> 'a \<Rightarrow> 'a heap_state \<Rightarrow> bool" where
  "fills n s j v s' \<longleftrightarrow>
     length (fst s') = length (fst s) \<and> mset (fst s') = mset ((fst s)[j := v]) \<and> drop n (fst s') = drop n (fst s) \<and>
     (\<forall>idx. hole_tracks (reindex idx (snd s)) (fst s) j v \<longrightarrow> tracks (reindex idx (snd s')) (fst s'))"

lemma assign_simps [simp]:
  "fst (assign s i v) = (fst s)[i := v]" "reindex idx (snd (assign s i v)) = (reindex idx (snd s))(v := i)"
  by (simp_all add: assign_def reindex_def split_def)

lemma hole_distinct:
  assumes "distinct (xs[j := v])" "j < length xs" "i < length xs" "k < length xs" "i \<noteq> k"
  shows "i \<noteq> j \<Longrightarrow> xs ! i \<noteq> v" "i \<noteq> j \<Longrightarrow> k \<noteq> j \<Longrightarrow> xs ! i \<noteq> xs ! k"
  using assms nth_eq_iff_index_eq [of "xs[j := v]" i j] nth_eq_iff_index_eq [of "xs[j := v]" i k] by auto

lemma hole_fill:
  assumes "hole_tracks idx xs j v" "j < length xs"
  shows "tracks (idx(v := j)) (xs[j := v])"
  unfolding tracks_def
proof (intro allI impI)
  fix i assume i: "i < length (xs[j := v])"
  show "(idx(v := j)) (xs[j := v] ! i) = i"
  proof (cases "i = j")
    case False
    with assms i hole_distinct(1) [of xs j v i j] show ?thesis by (simp add: hole_tracks_def)
  qed (use assms(2) in simp)
qed

lemma mset_move:
  assumes "j < length xs" "m < length xs" "m \<noteq> j"
  shows "mset (xs[j := xs ! m, m := v]) = mset (xs[j := v])"
proof -
  have "mset ((xs[j := v])[m := xs[j := v] ! j, j := xs[j := v] ! m]) = mset (xs[j := v])"
    using assms(1,2) by (intro mset_swap) simp_all
  with assms show ?thesis by (simp add: list_update_swap [of m j])
qed

lemma hole_move:
  assumes "hole_tracks idx xs j v" "j < length xs" "m < length xs" "m \<noteq> j"
  shows "hole_tracks (idx(xs ! m := j)) (xs[j := xs ! m]) m v"
proof -
  have d: "distinct (xs[j := v])" using assms(1) by (simp add: hole_tracks_def)
  then have "distinct (xs[j := xs ! m, m := v])"
    using mset_move [OF assms(2-4)] mset_eq_imp_distinct_iff by blast
  moreover have "(idx(xs ! m := j)) (xs[j := xs ! m] ! i) = i" if "i < length xs" "i \<noteq> m" for i
  proof (cases "i = j")
    case False
    with hole_distinct(2) [OF d assms(2) that(1) assms(3)] that assms(1,4) show ?thesis
      by (simp add: hole_tracks_def)
  qed (use assms(2) in simp)
  ultimately show ?thesis by (simp add: hole_tracks_def)
qed

lemma fills_assign: "j < n \<Longrightarrow> n \<le> length (fst s) \<Longrightarrow> fills n s j v (assign s j v)"
  by (simp add: fills_def hole_fill)

lemma fills_move:
  assumes "fills n (assign s j (fst s ! m)) m v s'" "j < n" "m < n" "m \<noteq> j" "n \<le> length (fst s)"
  shows "fills n s j v s'"
  using assms mset_move [of j "fst s" m v] hole_move [of _ "fst s" j v m]
  by (auto simp: fills_def)

text \<open>The child that \<open>SiftDown\<close> compares with.\<close>

definition min_child :: "'a comparer \<Rightarrow> 'a list \<Rightarrow> nat \<Rightarrow> nat \<Rightarrow> nat" where
  "min_child lt xs n j =
     (if 2 * j + 2 \<ge> n then 2 * j + 1
      else if lt (xs ! (2 * j + 1)) (xs ! (2 * j + 2)) then 2 * j + 1 else 2 * j + 2)"

lemma sift_down_unfold:
  "sift_down_loop lt s n j v =
     (if 2 * j + 1 \<ge> n \<or> lt v (fst s ! min_child lt (fst s) n j) then assign s j v
      else sift_down_loop lt (assign s j (fst s ! min_child lt (fst s) n j)) n (min_child lt (fst s) n j) v)"
  by (subst sift_down_loop.simps) (simp add: Let_def min_child_def)

lemma sift_up_unfold:
  "sift_up_loop lt s j v =
     (if j = 0 \<or> lt (fst s ! par j) v then (s, j)
      else sift_up_loop lt (assign s j (fst s ! par j)) (par j) v)"
  by (subst sift_up_loop.simps) (simp add: Let_def par_def)

lemma min_child_facts:
  assumes "2 * j + 1 < n"
  shows "min_child lt xs n j < n" "j < min_child lt xs n j" "par (min_child lt xs n j) = j"
  using assms by (auto simp: min_child_def)

lemma sift_down_fills:
  assumes "j < n" "n \<le> length (fst s)"
  shows "fills n s j v (sift_down_loop lt s n j v)"
  using assms
proof (induction "n - j" arbitrary: s j rule: less_induct)
  case less
  let ?m = "min_child lt (fst s) n j"
  show ?case
  proof (cases "2 * j + 1 \<ge> n \<or> lt v (fst s ! ?m)")
    case True
    with fills_assign [OF less.prems] show ?thesis by (subst sift_down_unfold) simp
  next
    case False
    then have m: "?m < n" "j < ?m" using min_child_facts [of j n lt "fst s"] by auto
    have "fills n (assign s j (fst s ! ?m)) ?m v (sift_down_loop lt (assign s j (fst s ! ?m)) n ?m v)"
      using less.hyps m less.prems by simp
    with fills_move [OF _ less.prems(1) m(1) _ less.prems(2)] False m(2) show ?thesis
      by (subst sift_down_unfold) simp
  qed
qed

lemma sift_up_fills:
  assumes "j < n" "n \<le> length (fst s)"
  shows "case sift_up_loop lt s j v of (s', d) \<Rightarrow> fills n s j v (assign s' d v)"
  using assms
proof (induction j arbitrary: s rule: less_induct)
  case (less j)
  show ?case
  proof (cases "j = 0 \<or> lt (fst s ! par j) v")
    case True
    with fills_assign [OF less.prems] show ?thesis by (subst sift_up_unfold) simp
  next
    case False
    then have m: "par j < j" using par_less [of j] by simp
    obtain s' d where e: "sift_up_loop lt (assign s j (fst s ! par j)) (par j) v = (s', d)" by fastforce
    then have "fills n (assign s j (fst s ! par j)) (par j) v (assign s' d v)"
      using less.IH [OF m, of "assign s j (fst s ! par j)"] m less.prems by simp
    then have "fills n s j v (assign s' d v)"
      by (rule fills_move) (use m less.prems in auto)
    with False e show ?thesis by (subst sift_up_unfold) simp
  qed
qed

lemma rearranges_fills:
  assumes "fills n s j (fst s ! j) s'" "j < length (fst s)"
  shows "rearranges n s s'"
  using assms by (auto simp: rearranges_def fills_def hole_tracks_def tracks_def)

lemma rearranges_refl [simp]: "rearranges n s s"
  by (simp add: rearranges_def)

lemma rearranges_trans [trans]: "rearranges n s t \<Longrightarrow> rearranges n t u \<Longrightarrow> rearranges n s u"
  unfolding rearranges_def using mset_eq_imp_distinct_iff by metis

lemma rearranges_mono:
  assumes "rearranges m s t" "m \<le> n"
  shows "rearranges n s t"
proof -
  have d: "drop n xs = drop (n - m) (drop m xs)" for xs :: "'a list" using assms(2) by simp
  from assms(1) show ?thesis by (simp add: rearranges_def d)
qed

lemma rearranges_length: "rearranges n s t \<Longrightarrow> length (fst t) = length (fst s)"
  by (simp add: rearranges_def)

lemma rearranges_beyond: "rearranges n s t \<Longrightarrow> n \<le> i \<Longrightarrow> i < length (fst s) \<Longrightarrow> fst t ! i = fst s ! i"
  unfolding rearranges_def by (metis hd_drop_conv_nth drop_drop le_add_diff_inverse2)

lemma SiftDown_rearranges: "j < n \<Longrightarrow> n \<le> length (fst s) \<Longrightarrow> rearranges n s (SiftDown lt s n j)"
  unfolding SiftDown_def by (rule rearranges_fills [OF sift_down_fills]) simp_all

lemma SiftUp_rearranges:
  assumes "j < n" "n \<le> length (fst s)"
  shows "rearranges n s (SiftUp lt s j)"
proof -
  obtain s' d where e: "sift_up_loop lt s j (fst s ! j) = (s', d)" by fastforce
  have "fills n s j (fst s ! j) (assign s' d (fst s ! j))"
    using sift_up_fills [OF assms, of "fst s ! j" lt] e by simp
  then show ?thesis using rearranges_fills assms e by (fastforce simp: SiftUp_def Let_def)
qed

lemma make_heap_loop_rearranges:
  "k \<le> n \<Longrightarrow> n \<le> length (fst s) \<Longrightarrow> rearranges n s (make_heap_loop lt s n k)"
proof (induction k arbitrary: s)
  case (Suc k)
  have "rearranges n s (SiftDown lt s n k)" using Suc.prems by (simp add: SiftDown_rearranges)
  moreover have "rearranges n (SiftDown lt s n k) (make_heap_loop lt (SiftDown lt s n k) n k)"
    using Suc.IH [of "SiftDown lt s n k"] Suc.prems rearranges_length [OF calculation] by simp
  ultimately show ?case by (simp add: rearranges_trans)
qed simp

lemma sift_up_le: "case sift_up_loop lt s j v of (s', d) \<Rightarrow> d \<le> j"
proof (induction j arbitrary: s rule: less_induct)
  case (less j)
  show ?case
  proof (cases "j = 0 \<or> lt (fst s ! par j) v")
    case False
    then have "par j < j" by (simp add: par_less)
    with False less [of "par j" "assign s j (fst s ! par j)"] show ?thesis
      by (subst sift_up_unfold) (auto split: prod.splits)
  qed (subst sift_up_unfold, simp)
qed

lemma AdjustHeapItem_rearranges:
  assumes "j < n" "n \<le> length (fst s)"
  shows "rearranges n s (AdjustHeapItem lt s n j)"
proof (cases "j = 0 \<or> lt (fst s ! par j) (fst s ! j)")
  case True
  then show ?thesis
    using rearranges_fills [OF sift_down_fills [OF assms]] assms
    by (simp add: AdjustHeapItem_def sift_up_unfold [of lt s j] Let_def)
next
  case False
  obtain s' d where e: "sift_up_loop lt s j (fst s ! j) = (s', d)" by fastforce
  have "d \<noteq> j"
    using e False sift_up_le [of "par j" lt "assign s j (fst s ! par j)" "fst s ! j"] par_less [of j]
    by (auto simp: sift_up_unfold [of lt s j])
  moreover have "fills n s j (fst s ! j) (assign s' d (fst s ! j))"
    using sift_up_fills [OF assms, of "fst s ! j" lt] e by simp
  ultimately show ?thesis
    using rearranges_fills [of n s j] assms e by (simp add: AdjustHeapItem_def Let_def)
qed

lemma swap_slots_rearranges:
  assumes "i < n" "j < n" "i \<noteq> j" "n \<le> length (fst s)"
  shows "rearranges n s (swap_slots s i j)"
proof -
  obtain xs log where s: "s = (xs, log)" by fastforce
  have "tracks (reindex idx (log @ [(i, xs ! j), (j, xs ! i)])) (xs[i := xs ! j, j := xs ! i])"
    if "distinct xs" "tracks (reindex idx log) xs" for idx
    using that assms s by (auto simp: tracks_def reindex_def nth_list_update nth_eq_iff_index_eq)
  moreover have "mset (xs[i := xs ! j, j := xs ! i]) = mset xs" using mset_swap [of j xs i] assms s by simp
  ultimately show ?thesis using assms s by (simp add: rearranges_def swap_slots_def)
qed

lemma swap_slots_array [simp]: "fst (swap_slots s i j) = (fst s)[i := fst s ! j, j := fst s ! i]"
  by (simp add: swap_slots_def split_def)

lemma swap_adjust_rearranges:
  assumes "rearranges (n - 1) (swap_slots s i (n - 1)) t" "i < n - 1" "n \<le> length (fst s)"
  shows "rearranges n s t"
proof -
  have "rearranges n s (swap_slots s i (n - 1))" using assms by (intro swap_slots_rearranges) auto
  moreover have "rearranges n (swap_slots s i (n - 1)) t" by (rule rearranges_mono [OF assms(1)]) simp
  ultimately show ?thesis by (rule rearranges_trans)
qed

lemma ExtractHeap_at_rearranges:
  assumes "j < n" "n \<le> length (fst s)"
  shows "rearranges n s (ExtractHeap_at lt s n j)"
proof (cases "j = n - 1")
  case False
  with assms have "rearranges n s (AdjustHeapItem lt (swap_slots s j (n - 1)) (n - 1) j)"
    by (intro swap_adjust_rearranges [OF AdjustHeapItem_rearranges]) auto
  with False show ?thesis by (simp add: ExtractHeap_at_def Let_def)
qed (simp add: ExtractHeap_at_def Let_def)

lemma ExtractHeap_rearranges:
  assumes "0 < n" "n \<le> length (fst s)"
  shows "rearranges n s (ExtractHeap lt s n)"
proof (cases "n - 1 = 0")
  case False
  with assms have "rearranges n s (SiftDown lt (swap_slots s 0 (n - 1)) (n - 1) 0)"
    by (intro swap_adjust_rearranges [OF SiftDown_rearranges]) auto
  with False show ?thesis by (simp add: ExtractHeap_def Let_def)
qed (simp add: ExtractHeap_def Let_def)

section \<open>Heap routines keep heaps\<close>

locale heap_order =
  fixes lt :: "'a comparer"
  assumes weak: "strict_weak lt"
begin

lemma asym: "lt a b \<Longrightarrow> \<not> lt b a"
  using weak unfolding strict_weak_def by blast

lemma neg_trans: "\<not> lt a b \<Longrightarrow> \<not> lt b c \<Longrightarrow> \<not> lt a c"
  using weak unfolding strict_weak_def by blast

lemma down_step:
  assumes "down_ok lt (xs[j := v]) n k j" "n \<le> length xs" "k \<le> j"
    and "0 < m" "par m = j" "m < n" "\<not> lt v (xs ! m)"
    and "\<And>i. 0 < i \<Longrightarrow> par i = j \<Longrightarrow> i < n \<Longrightarrow> \<not> lt (xs ! i) (xs ! m)"
  shows "down_ok lt ((xs[j := xs ! m])[m := v]) n k m"
proof -
  define ys zs where "ys = xs[j := v]" and "zs = (xs[j := xs ! m])[m := v]"
  have jm: "j < m" using par_less [OF assms(4)] assms(5) by simp
  have nth: "zs ! i = (if i = m then v else if i = j then xs ! m else xs ! i)" if "i < n" for i
    using that jm assms(2,6) by (auto simp: zs_def nth_list_update)
  have y: "ys ! i = (if i = j then v else xs ! i)" if "i < n" for i
    using that assms(2,6) jm by (auto simp: ys_def nth_list_update)
  have old: "\<not> lt (ys ! i) (ys ! par i)" if "0 < i" "i < n" "k \<le> par i" "par i \<noteq> j" for i
    using assms(1) that by (simp add: down_ok_def ys_def)
  have gr: "\<not> lt (ys ! i) (ys ! par j)" if "0 < i" "i < n" "par i = j" "0 < j" "k \<le> par j" for i
    using assms(1) that by (simp add: down_ok_def grand_def ys_def)
  have "\<not> lt (zs ! i) (zs ! par i)" if "0 < i" "i < n" "k \<le> par i" "par i \<noteq> m" for i
  proof (cases "i = j")
    case True
    with that gr [OF assms(4,6,5)] jm par_less [of j] assms(6) show ?thesis by (simp add: nth y)
  next
    case i: False
    have p: "par i < n" using par_less [OF that(1)] that(2) by simp
    show ?thesis
    proof (cases "par i = j")
      case True
      with that i assms(7) assms(8) [of i] jm p show ?thesis by (auto simp: nth)
    next
      case False
      with old [OF that(1,2,3)] that i p assms(5) show ?thesis by (auto simp: nth y)
    qed
  qed
  moreover have "\<not> lt (zs ! i) (zs ! par m)" if "0 < i" "i < n" "par i = m" for i
    using old [OF that(1,2)] that par_less [of i] jm assms(3,5,6) by (auto simp: nth y)
  ultimately show ?thesis by (simp add: down_ok_def grand_def zs_def)
qed

lemma down_stop:
  assumes "down_ok lt ys n k j" "\<And>i. 0 < i \<Longrightarrow> par i = j \<Longrightarrow> i < n \<Longrightarrow> \<not> lt (ys ! i) (ys ! j)"
  shows "is_heap_from lt ys n k"
  using assms unfolding down_ok_def is_heap_from_def by blast

lemma least_child:
  assumes "2 * j + 1 < n" "0 < i" "par i = j" "i < n"
  shows "\<not> lt (xs ! i) (xs ! min_child lt xs n j)"
  using assms by (auto simp: min_child_def par_iff dest: asym)

lemma sift_down_heap:
  assumes "down_ok lt ((fst s)[j := v]) n k j" "n \<le> length (fst s)" "k \<le> j" "j < n"
  shows "is_heap_from lt (fst (sift_down_loop lt s n j v)) n k"
  using assms
proof (induction "n - j" arbitrary: s j rule: less_induct)
  case less
  let ?m = "min_child lt (fst s) n j"
  consider "2 * j + 1 \<ge> n" | "2 * j + 1 < n" "lt v (fst s ! ?m)" | "2 * j + 1 < n" "\<not> lt v (fst s ! ?m)"
    by linarith
  then show ?case
  proof cases
    case 1
    then have "is_heap_from lt ((fst s)[j := v]) n k"
      by (intro down_stop [OF less.prems(1)]) (auto simp: par_iff)
    with 1 show ?thesis by (subst sift_down_unfold) simp
  next
    case 2
    have "is_heap_from lt ((fst s)[j := v]) n k"
    proof (rule down_stop [OF less.prems(1)])
      fix i assume i: "0 < i" "par i = j" "i < n"
      show "\<not> lt ((fst s)[j := v] ! i) ((fst s)[j := v] ! j)"
        using neg_trans [OF least_child [OF 2(1) i] asym [OF 2(2)]] i par_less [OF i(1)] less.prems(2,4) by simp
    qed
    with 2 show ?thesis by (subst sift_down_unfold) simp
  next
    case 3
    have m: "0 < ?m" "par ?m = j" "?m < n" "j < ?m" using min_child_facts [OF 3(1), of lt "fst s"] by auto
    have "down_ok lt ((fst s)[j := fst s ! ?m, ?m := v]) n k ?m"
      by (rule down_step [OF less.prems(1-3) m(1-3) 3(2) least_child [OF 3(1)]])
    then show ?thesis
      using less.hyps [of ?m "assign s j (fst s ! ?m)"] less.prems(2,3) m 3
      by (subst sift_down_unfold) simp
  qed
qed

lemma up_step:
  assumes "item_ok lt (xs[j := v]) n j" "n \<le> length xs" "0 < j" "j < n" "\<not> lt (xs ! par j) v"
  shows "up_ok lt ((xs[j := xs ! par j])[par j := v]) n (par j)"
proof -
  define ys zs p where "ys = xs[j := v]" and "zs = (xs[j := xs ! par j])[par j := v]" and "p = par j"
  have pj: "p < j" using par_less [OF assms(3)] by (simp add: p_def)
  have nth: "zs ! i = (if i = p then v else if i = j then xs ! p else xs ! i)" if "i < n" for i
    using that pj assms(2,4) by (auto simp: zs_def p_def nth_list_update)
  have y: "ys ! i = (if i = j then v else xs ! i)" if "i < n" for i
    using that assms(2,4) by (auto simp: ys_def nth_list_update)
  have old: "\<not> lt (ys ! i) (ys ! par i)" if "0 < i" "i < n" "i \<noteq> j" "par i \<noteq> j" for i
    using assms(1) that by (simp add: item_ok_def ys_def)
  have gr: "\<not> lt (ys ! i) (ys ! p)" if "0 < i" "i < n" "par i = j" for i
    using assms(1,3) that by (simp add: item_ok_def grand_def ys_def p_def)
  have pv: "\<not> lt (xs ! p) v" using assms(5) by (simp add: p_def)
  have sib: "\<not> lt (xs ! i) (xs ! p)" if "0 < i" "i < n" "par i = p" "i \<noteq> j" for i
    using old [OF that(1,2,4)] that pj assms(4) by (auto simp: y)
  have "\<not> lt (zs ! i) (zs ! par i)" if "0 < i" "i < n" "i \<noteq> p" for i
  proof -
    have pi: "par i < n" using par_less [OF that(1)] that(2) by simp
    consider "i = j" | "i \<noteq> j" "par i = j" | "i \<noteq> j" "par i = p" | "i \<noteq> j" "par i \<noteq> j" "par i \<noteq> p" by blast
    then show ?thesis
    proof cases
      case 1
      with pv that pi pj show ?thesis by (simp add: nth p_def [symmetric])
    next
      case 2
      with gr [OF that(1,2)] that pi pj assms(4) par_less [OF that(1)] show ?thesis by (auto simp: nth y)
    next
      case 3
      with neg_trans [OF sib pv] that pi show ?thesis by (simp add: nth)
    next
      case 4
      with old [OF that(1,2)] that pi show ?thesis by (simp add: nth y)
    qed
  qed
  moreover have "\<not> lt (zs ! i) (zs ! par p)" if "0 < i" "i < n" "par i = p" "0 < p" for i
  proof -
    have pp: "par p < p" by (rule par_less [OF that(4)])
    have top: "\<not> lt (xs ! p) (xs ! par p)"
      using old [of p] that(4) pj assms(4) pp by (auto simp: y)
    have ip: "p < i" using par_less [OF that(1)] that(3) by simp
    show ?thesis
    proof (cases "i = j")
      case True
      with top that pj pp assms(4) show ?thesis by (simp add: nth)
    next
      case False
      with neg_trans [OF sib top] that pj pp ip assms(4) show ?thesis by (simp add: nth)
    qed
  qed
  ultimately show ?thesis by (simp add: up_ok_def grand_def zs_def p_def)
qed

lemma up_ok_item: "up_ok lt ys n j \<Longrightarrow> item_ok lt ys n j"
  by (simp add: up_ok_def item_ok_def)

lemma sift_up_heap:
  assumes "up_ok lt ((fst s)[j := v]) n j" "n \<le> length (fst s)" "j < n"
  shows "case sift_up_loop lt s j v of (s', d) \<Rightarrow>
    is_heap lt ((fst s')[d := v]) n \<and> length (fst s') = length (fst s) \<and> d \<le> j"
  using assms
proof (induction j arbitrary: s rule: less_induct)
  case (less j)
  show ?case
  proof (cases "j = 0 \<or> lt (fst s ! par j) v")
    case True
    have "\<not> lt ((fst s)[j := v] ! i) ((fst s)[j := v] ! par i)" if "0 < i" "i < n" for i
      using less.prems True that asym par_less [of j] by (cases "i = j") (auto simp: up_ok_def)
    with True show ?thesis by (subst sift_up_unfold) (simp add: is_heap_from_def)
  next
    case False
    have "up_ok lt ((fst s)[j := fst s ! par j, par j := v]) n (par j)"
      by (rule up_step [OF up_ok_item [OF less.prems(1)] less.prems(2)]) (use False less.prems in auto)
    with less.IH [of "par j" "assign s j (fst s ! par j)"] less.prems(2,3) par_less [of j] False
    show ?thesis by (subst sift_up_unfold) (auto split: prod.splits)
  qed
qed

lemma heap_item_ok:
  assumes "is_heap lt xs n" "j < n" "n \<le> length xs"
  shows "item_ok lt (xs[j := v]) n j"
proof -
  have old: "\<not> lt (xs ! i) (xs ! par i)" if "0 < i" "i < n" for i
    using assms(1) that by (simp add: is_heap_from_def)
  have gr: "\<not> lt (xs ! i) (xs ! par j)" if "0 < i" "i < n" "par i = j" "0 < j" for i
    using neg_trans [OF old [OF that(1,2)], of "xs ! par j"] old [OF that(4) assms(2)] that(3) by simp
  have "\<not> lt (xs[j := v] ! i) (xs[j := v] ! par j)" if "0 < i" "i < n" "par i = j" "0 < j" for i
    using gr [OF that] par_less [OF that(1)] par_less [OF that(4)] that(3) by simp
  with old show ?thesis by (simp add: item_ok_def grand_def)
qed

lemma SiftDown_heap:
  assumes "is_heap_from lt (fst s) n (Suc k)" "k < n" "n \<le> length (fst s)"
  shows "is_heap_from lt (fst (SiftDown lt s n k)) n k"
  unfolding SiftDown_def
proof (rule sift_down_heap)
  show "down_ok lt ((fst s)[k := fst s ! k]) n k k"
    using assms(1) par_less [of k] by (auto simp: down_ok_def grand_def is_heap_from_def)
qed (use assms in simp_all)

lemma make_heap_loop_heap:
  assumes "is_heap_from lt (fst s) n k" "k \<le> n" "n \<le> length (fst s)"
  shows "is_heap lt (fst (make_heap_loop lt s n k)) n"
  using assms
proof (induction k arbitrary: s)
  case (Suc k)
  have "length (fst (SiftDown lt s n k)) = length (fst s)"
    using sift_down_fills [of k n s "fst s ! k" lt] Suc.prems by (simp add: fills_def SiftDown_def)
  with Suc SiftDown_heap [of s n k] show ?case by simp
qed simp

lemma MakeHeap_heap: "n \<le> length (fst s) \<Longrightarrow> is_heap lt (fst (MakeHeap lt s n)) n"
proof (cases "n > 1")
  case True
  have "is_heap_from lt (fst s) n (n div 2)" by (auto simp: is_heap_from_def par_def)
  with True show "n \<le> length (fst s) \<Longrightarrow> is_heap lt (fst (MakeHeap lt s n)) n"
    by (simp add: MakeHeap_def make_heap_loop_heap)
qed (auto simp: MakeHeap_def is_heap_from_def)

lemma AdjustHeapFront_heap:
  assumes "is_heap_from lt (fst s) n 1" "n \<le> length (fst s)"
  shows "is_heap lt (fst (AdjustHeapFront lt s n)) n"
  using assms SiftDown_heap [of s n 0] by (auto simp: AdjustHeapFront_def is_heap_from_def)

lemma AdjustHeapBack_heap:
  assumes "is_heap lt (fst s) (n - 1)" "n \<le> length (fst s)"
  shows "is_heap lt (fst (AdjustHeapBack lt s n)) n"
proof (cases "n > 1")
  case True
  have "up_ok lt ((fst s)[n - 1 := fst s ! (n - 1)]) n (n - 1)"
    using assms(1) by (auto simp: up_ok_def grand_def is_heap_from_def par_def)
  from sift_up_heap [OF this assms(2)] True show ?thesis
    by (auto simp: AdjustHeapBack_def SiftUp_def Let_def split: prod.splits)
qed (auto simp: AdjustHeapBack_def is_heap_from_def)

lemma AdjustHeapItem_heap:
  assumes "item_ok lt (fst s) n j" "j < n" "n \<le> length (fst s)"
  shows "is_heap lt (fst (AdjustHeapItem lt s n j)) n"
proof (cases "j = 0 \<or> lt (fst s ! par j) (fst s ! j)")
  case True
  have "down_ok lt (fst s) n 0 j"
    using assms(1) True asym unfolding item_ok_def down_ok_def by (metis not_less0)
  with sift_down_heap [of s j "fst s ! j" n 0] True assms(2,3) show ?thesis
    by (simp add: AdjustHeapItem_def sift_up_unfold [of lt s j] Let_def)
next
  case False
  let ?s = "assign s j (fst s ! par j)"
  have "up_ok lt ((fst s)[j := fst s ! par j, par j := fst s ! j]) n (par j)"
    by (rule up_step) (use assms False in auto)
  with sift_up_heap [of ?s "par j" "fst s ! j" n] par_less [of j] False assms(2,3) show ?thesis
    by (auto simp: AdjustHeapItem_def sift_up_unfold [of lt s j] Let_def split: prod.splits)
qed

lemma heap_front_least:
  assumes "is_heap lt xs n" "i < n"
  shows "\<not> lt (xs ! i) (xs ! 0)"
  using assms(2)
proof (induction i rule: less_induct)
  case (less i)
  show ?case
  proof (cases "i = 0")
    case True
    then show ?thesis using asym by blast
  next
    case False
    then show ?thesis
      using neg_trans [of "xs ! i" "xs ! par i" "xs ! 0"] assms(1) less par_less [of i]
      by (auto simp: is_heap_from_def)
  qed
qed

lemma ExtractHeap_heap:
  assumes "is_heap lt (fst s) n" "0 < n" "n \<le> length (fst s)"
  shows "is_heap lt (fst (ExtractHeap lt s n)) (n - 1)"
proof (cases "n - 1 = 0")
  case False
  have "is_heap_from lt (fst (swap_slots s 0 (n - 1))) (n - 1) 1"
    unfolding is_heap_from_def
  proof (intro allI impI)
    fix i assume i: "0 < i \<and> i < n - 1 \<and> 1 \<le> par i"
    then have "par i \<noteq> n - 1" "par i \<noteq> 0" "i \<noteq> n - 1" "0 < i" "i < n" using par_less [of i] by auto
    with i assms(1) show "\<not> lt (fst (swap_slots s 0 (n - 1)) ! i) (fst (swap_slots s 0 (n - 1)) ! par i)"
      by (simp add: is_heap_from_def)
  qed
  with False assms(2,3) SiftDown_heap [of "swap_slots s 0 (n - 1)" "n - 1" 0] show ?thesis
    by (simp add: ExtractHeap_def Let_def)
qed (simp add: ExtractHeap_def Let_def is_heap_from_def)

lemma ExtractHeap_at_heap:
  assumes "is_heap lt (fst s) n" "j < n" "n \<le> length (fst s)"
  shows "is_heap lt (fst (ExtractHeap_at lt s n j)) (n - 1)"
proof -
  have shorter: "is_heap lt (fst s) (n - 1)" using assms(1) by (auto simp: is_heap_from_def)
  show ?thesis
  proof (cases "j = n - 1")
    case False
    with assms(2) have j: "j < n - 1" by simp
    have "item_ok lt ((fst s)[n - 1 := fst s ! j, j := fst s ! (n - 1)]) (n - 1) j"
      using shorter assms(3) j by (intro heap_item_ok) (simp_all add: is_heap_beyond)
    moreover have "(fst s)[n - 1 := fst s ! j, j := fst s ! (n - 1)] = fst (swap_slots s j (n - 1))"
      using j by (simp add: list_update_swap)
    ultimately have "item_ok lt (fst (swap_slots s j (n - 1))) (n - 1) j" by metis
    from AdjustHeapItem_heap [OF this j] False assms(3) show ?thesis
      by (simp add: ExtractHeap_at_def Let_def)
  qed (use shorter in \<open>simp add: ExtractHeap_at_def\<close>)
qed

lemma AdjustHeapItem_repairs:
  assumes "is_heap lt ((fst s)[j := v]) n" "j < n" "n \<le> length (fst s)"
  shows "is_heap lt (fst (AdjustHeapItem lt s n j)) n"
proof (rule AdjustHeapItem_heap)
  show "item_ok lt (fst s) n j" using heap_item_ok [OF assms(1,2), of "fst s ! j"] assms(3) by simp
qed (use assms in simp_all)

end

interpretation std_heap: heap_order "std_less :: 'a::linorder comparer"
  by unfold_locales (auto simp: strict_weak_def std_less_def)

lemma ExtractHeap_last:
  assumes "0 < n" "n \<le> length (fst s)"
  shows "fst (ExtractHeap lt s n) ! (n - 1) = fst s ! 0"
proof (cases "n - 1 = 0")
  case False
  with assms have "fst (SiftDown lt (swap_slots s 0 (n - 1)) (n - 1) 0) ! (n - 1) = fst (swap_slots s 0 (n - 1)) ! (n - 1)"
    by (intro rearranges_beyond [OF SiftDown_rearranges]) auto
  with False assms show ?thesis by (simp add: ExtractHeap_def Let_def)
qed (simp add: ExtractHeap_def Let_def)

lemma ExtractHeap_at_last:
  assumes "j < n" "n \<le> length (fst s)"
  shows "fst (ExtractHeap_at lt s n j) ! (n - 1) = fst s ! j"
proof (cases "j = n - 1")
  case False
  with assms have "fst (AdjustHeapItem lt (swap_slots s j (n - 1)) (n - 1) j) ! (n - 1) = fst (swap_slots s j (n - 1)) ! (n - 1)"
    by (intro rearranges_beyond [OF AdjustHeapItem_rearranges]) auto
  with False assms show ?thesis by (simp add: ExtractHeap_at_def Let_def)
qed (simp add: ExtractHeap_at_def Let_def)

text \<open>The contents of the range are kept, and everything behind it.\<close>

definition same_items :: "nat \<Rightarrow> 'a heap_state \<Rightarrow> 'a heap_state \<Rightarrow> bool" where
  "same_items n s s' \<longleftrightarrow>
     mset (take n (fst s')) = mset (take n (fst s)) \<and> drop n (fst s') = drop n (fst s)"

lemma rearranges_same_items:
  assumes "rearranges n s s'" shows "same_items n s s'"
proof -
  have "mset (take n (fst s')) + mset (drop n (fst s')) = mset (take n (fst s)) + mset (drop n (fst s))"
    using assms unfolding rearranges_def by (metis append_take_drop_id mset_append)
  then show ?thesis using assms by (simp add: rearranges_def same_items_def)
qed

lemma heap_routines_same_items:
  assumes "n \<le> length (fst s)"
  shows "same_items n s (MakeHeap lt s n)" "same_items n s (AdjustHeapBack lt s n)" "same_items n s (AdjustHeapFront lt s n)"
    "j < n \<Longrightarrow> same_items n s (AdjustHeapItem lt s n j)" "j < n \<Longrightarrow> same_items n s (ExtractHeap_at lt s n j)"
    "0 < n \<Longrightarrow> same_items n s (ExtractHeap lt s n)"
  using assms
  by (auto intro!: rearranges_same_items simp: MakeHeap_def make_heap_loop_rearranges AdjustHeapBack_def SiftUp_rearranges
      AdjustHeapFront_def SiftDown_rearranges AdjustHeapItem_rearranges ExtractHeap_at_rearranges
      ExtractHeap_rearranges rearranges_refl)

section \<open>Properties\<close>

text \<open>C9. The heap routines permute the elements of their range into a heap of any strict weak
  order and leave the rest of the array alone: \<open>MakeHeap\<close> builds a heap, \<open>AdjustHeapBack\<close>
  takes in the last element, \<open>AdjustHeapFront\<close> and \<open>AdjustHeapItem\<close> repair a heap whose front
  or any one element was replaced, and both \<open>ExtractHeap\<close> overloads leave a heap of one element
  less with the requested element, for the front overload a least one, in the freed last
  slot. In all of them the range holds the same multiset of elements as before, so no element
  is lost or duplicated.\<close>

theorem heap_operations_correct:
  assumes "strict_weak lt" "n \<le> length (fst s)"
  shows "same_items n s (MakeHeap lt s n) \<and> is_heap lt (fst (MakeHeap lt s n)) n \<and>
    same_items n s (AdjustHeapBack lt s n) \<and>
    (is_heap lt (fst s) (n - 1) \<longrightarrow> is_heap lt (fst (AdjustHeapBack lt s n)) n) \<and>
    same_items n s (AdjustHeapFront lt s n) \<and>
    (is_heap_from lt (fst s) n 1 \<longrightarrow> is_heap lt (fst (AdjustHeapFront lt s n)) n) \<and>
    (j < n \<longrightarrow> same_items n s (AdjustHeapItem lt s n j) \<and> same_items n s (ExtractHeap_at lt s n j)) \<and>
    (j < n \<and> is_heap lt ((fst s)[j := v]) n \<longrightarrow> is_heap lt (fst (AdjustHeapItem lt s n j)) n) \<and>
    (j < n \<and> is_heap lt (fst s) n \<longrightarrow>
      is_heap lt (fst (ExtractHeap_at lt s n j)) (n - 1) \<and> fst (ExtractHeap_at lt s n j) ! (n - 1) = fst s ! j) \<and>
    (0 < n \<longrightarrow> same_items n s (ExtractHeap lt s n)) \<and>
    (0 < n \<and> is_heap lt (fst s) n \<longrightarrow>
      is_heap lt (fst (ExtractHeap lt s n)) (n - 1) \<and>
      (\<forall>i<n. \<not> lt (fst s ! i) (fst (ExtractHeap lt s n) ! (n - 1))))"
proof -
  have h: "heap_order lt" using assms(1) by unfold_locales
  have at: "is_heap lt (fst (ExtractHeap_at lt s n j)) (n - 1)" if "j < n" "is_heap lt (fst s) n"
    using heap_order.ExtractHeap_at_heap [OF h that(2,1) assms(2)] .
  have front: "is_heap lt (fst (ExtractHeap lt s n)) (n - 1)" if "0 < n" "is_heap lt (fst s) n"
    using heap_order.ExtractHeap_heap [OF h that(2,1) assms(2)] .
  have item: "is_heap lt (fst (AdjustHeapItem lt s n j)) n" if "j < n" "is_heap lt ((fst s)[j := v]) n"
    using heap_order.AdjustHeapItem_repairs [OF h that(2,1) assms(2)] .
  have adjust: "is_heap lt (fst s) (n - 1) \<longrightarrow> is_heap lt (fst (AdjustHeapBack lt s n)) n"
    "is_heap_from lt (fst s) n 1 \<longrightarrow> is_heap lt (fst (AdjustHeapFront lt s n)) n"
    using heap_order.AdjustHeapBack_heap [OF h _ assms(2)] heap_order.AdjustHeapFront_heap [OF h _ assms(2)]
    by blast+
  show ?thesis
    using heap_order.MakeHeap_heap [OF h assms(2)] adjust at front item assms(2)
      heap_order.heap_front_least [OF h, of "fst s" n]
      ExtractHeap_last [of n s lt] ExtractHeap_at_last [of j n s lt] heap_routines_same_items [where lt = lt, OF assms(2)]
    by simp
qed

theorem heap_operations_correct_witness:
  "strict_weak (std_less :: nat comparer) \<and> is_heap std_less (fst (MakeHeap std_less ([3, 2, 1 :: nat], []) 3)) 3 \<and>
   fst (MakeHeap std_less ([3, 2, 1 :: nat], []) 3) = [1, 2, 3] \<and>
   same_items 3 ([3, 2, 1 :: nat], []) (MakeHeap std_less ([3, 2, 1], []) 3)"
proof -
  have w: "strict_weak (std_less :: nat comparer)" by (rule std_heap.weak)
  have "fst (MakeHeap std_less ([3, 2, 1 :: nat], []) 3) = [1, 2, 3]" by code_simp
  with heap_operations_correct [OF w, of 3 "([3, 2, 1 :: nat], [])"] w show ?thesis by simp
qed

text \<open>Every heap routine only permutes the elements of its range, leaves the rest of the
  array alone, and reports its assignments so that positions kept by the elements stay exact:
  when every element of an array of distinct elements knows its position before, it knows it
  after.\<close>

theorem heap_positions_tracked:
  assumes "j < n" "n \<le> length (fst s)"
  shows "rearranges n s (MakeHeap lt s n) \<and>
    rearranges n s (AdjustHeapBack lt s n) \<and>
    rearranges n s (AdjustHeapFront lt s n) \<and>
    rearranges n s (AdjustHeapItem lt s n j) \<and>
    rearranges n s (ExtractHeap_at lt s n j) \<and>
    rearranges n s (ExtractHeap lt s n)"
  using assms
  by (simp add: MakeHeap_def make_heap_loop_rearranges AdjustHeapBack_def SiftUp_rearranges
      AdjustHeapFront_def SiftDown_rearranges AdjustHeapItem_rearranges ExtractHeap_at_rearranges
      ExtractHeap_rearranges)

theorem heap_positions_tracked_witness:
  "(0::nat) < 3 \<and> rearranges 3 ([1, 2, 3 :: nat], []) (ExtractHeap std_less ([1, 2, 3], []) 3) \<and>
   fst (ExtractHeap std_less ([1, 2, 3 :: nat], []) 3) = [2, 3, 1]"
proof -
  have "fst (ExtractHeap std_less ([1, 2, 3 :: nat], []) 3) = [2, 3, 1]" by code_simp
  with heap_positions_tracked [of 0 3 "([1, 2, 3 :: nat], [])" std_less] show ?thesis by simp
qed

end
