(* ===== verification/FenwickTree.thy ===== *)
theory FenwickTree
  imports Prelude
begin

text \<open>
  Dynamic cumulative sums: \<open>TFenwickTree\<close> of \<open>yt/yt/core/misc/fenwick_tree-inl.h\<close>. The state is
  the vector of partial sums; the items it stands for are recovered by \<open>items\<close>, and every
  operation is shown to act on them as the plain list operation does.

  Indexes are 32-bit; those the loops compute stay in range because of the limit on the length,
  except the step of \<open>LowerBound\<close>, whose doubling is checked for overflow in the model.
\<close>

unbundle bit_operations_syntax

section \<open>Index arithmetic\<close>

lemma and_suc_even [simp]: "2 * m AND Suc (2 * m) = 2 * m" for m :: nat
  by (subst and_rec) simp

lemma and_suc_odd [simp]: "Suc (2 * m) AND Suc (Suc (2 * m)) = 2 * (m AND Suc m)" for m :: nat
  by (subst and_rec) simp

lemma or_suc_even [simp]: "2 * m OR Suc (2 * m) = Suc (2 * m)" for m :: nat
  by (subst or_rec) simp

lemma or_suc_odd [simp]: "Suc (2 * m) OR Suc (Suc (2 * m)) = Suc (2 * (m OR Suc m))" for m :: nat
  by (subst or_rec) simp

lemma nat_parity_cases:
  fixes i :: nat
  obtains (even) m where "i = 2 * m" | (odd) m where "i = Suc (2 * m)"
  by (metis evenE oddE Suc_eq_plus1)

lemma and_suc_le [simp]: "i AND Suc i \<le> i"
proof (induction i rule: less_induct)
  case (less i)
  show ?case
  proof (cases i rule: nat_parity_cases)
    case (odd m)
    with less.IH [of m] show ?thesis by simp
  qed simp
qed

lemma even_and_suc: "even (i AND Suc i)"
  by (cases i rule: nat_parity_cases) auto

lemma or_suc_gt [simp]: "i < i OR Suc i"
proof (induction i rule: less_induct)
  case (less i)
  show ?case by (cases i rule: nat_parity_cases) (use less in auto)
qed

text \<open>The slots whose partial sum contains item \<open>i\<close>: the first is \<open>i\<close> itself, the next ones are
  those of \<open>i OR (i + 1)\<close>.\<close>

lemma containing_slots:
  "i < j \<Longrightarrow> j AND Suc j \<le> i \<longleftrightarrow> i OR Suc i \<le> j \<and> j AND Suc j \<le> i OR Suc i"
proof (induction i arbitrary: j rule: less_induct)
  case (less i)
  show ?case
  proof (cases i rule: nat_parity_cases)
    case (even m)
    have "j AND Suc j \<noteq> Suc (2 * m)" using even_and_suc [of j] by auto
    with even less.prems show ?thesis by auto
  next
    case i: (odd m)
    show ?thesis
    proof (cases j rule: nat_parity_cases)
      case (even q)
      then have "j \<noteq> Suc (2 * (m OR Suc m))" by presburger
      with even i less.prems show ?thesis by auto
    next
      case (odd q)
      with i less.IH [of m q] less.prems show ?thesis by auto
    qed
  qed
qed

lemma and_suc_block: "odd m \<Longrightarrow> (m * 2 ^ k - 1) AND Suc (m * 2 ^ k - 1) = (m - 1) * 2 ^ k"
proof (induction k)
  case 0
  then show ?case by (auto elim!: oddE)
next
  case (Suc k)
  have "0 < m * 2 ^ k" using Suc.prems by (auto elim: oddE)
  then have "m * 2 ^ Suc k - 1 = Suc (2 * (m * 2 ^ k - 1))" by (cases "m * 2 ^ k") auto
  with Suc show ?case by simp
qed

lemma xor_power_decreases: "n AND 2 ^ k \<noteq> 0 \<Longrightarrow> n XOR 2 ^ k < n" for n :: nat
proof (induction k arbitrary: n)
  case 0
  then show ?case by (subst xor_rec) (auto simp: and_one_eq elim!: oddE)
next
  case (Suc k)
  have "n AND 2 ^ Suc k = 2 * (n div 2 AND 2 ^ k)" by (subst and_rec) simp
  with Suc.prems Suc.IH [of "n div 2"] have "n div 2 XOR 2 ^ k < n div 2" by simp
  moreover have "n XOR 2 ^ Suc k = n mod 2 + 2 * (n div 2 XOR 2 ^ k)"
    by (subst xor_rec) (simp add: mod_2_eq_odd)
  ultimately show ?case by presburger
qed

lemma block_bit: "m * 2 ^ k AND 2 ^ k \<noteq> 0 \<longleftrightarrow> odd m" for m :: nat
  by (simp add: and_exp_eq_0_iff_not_bit bit_iff_odd)

lemma block_xor: "odd m \<Longrightarrow> m * 2 ^ k XOR 2 ^ k = (m - 1) * 2 ^ k" for m :: nat
proof -
  assume "odd m"
  then have "m XOR 1 = m - 1" using xor_one_eq [of m] by simp
  then have "push_bit k m XOR push_bit k 1 = push_bit k (m - 1)" by (metis push_bit_xor)
  then show ?thesis by (simp add: push_bit_eq_mult)
qed

section \<open>The operations\<close>

type_synonym 'a fenwick = "'a list"

definition MaxLength :: nat where
  "MaxLength = 2 ^ 30"

definition max_int :: nat where
  "max_int = 2 ^ 31 - 1"

text \<open>In the loops below the bit and the step are \<open>2 ^ k\<close>.\<close>

function incomplete_loop :: "'a::ab_group_add fenwick \<Rightarrow> nat \<Rightarrow> nat \<Rightarrow> 'a \<Rightarrow> 'a" where
  "incomplete_loop FenwickSums index k acc =
     (if index AND 2 ^ k \<noteq> 0
      then incomplete_loop FenwickSums (index XOR 2 ^ k) (k + 1) (acc + FenwickSums ! (index - 1))
      else acc)"
  by pat_completeness auto
termination
  by (relation "measure (\<lambda>(_, index, _, _). index)") (auto intro: xor_power_decreases)

declare incomplete_loop.simps [simp del]

definition CalculateIncompleteFenwickSum :: "'a::ab_group_add fenwick \<Rightarrow> int \<Rightarrow> 'a res" where
  "CalculateIncompleteFenwickSum FenwickSums index =
     rbind (verify (index \<ge> 0) ''index >= 0'') (\<lambda>_.
     rbind (verify (index \<le> int (length FenwickSums)) ''index <= Size()'') (\<lambda>_.
     Inr (incomplete_loop FenwickSums (nat index) 0 0)))"

definition PushBack :: "'a::ab_group_add fenwick \<Rightarrow> 'a \<Rightarrow> 'a fenwick res" where
  "PushBack FenwickSums item =
     (let newItemIndex = int (length FenwickSums) in
      rbind (verify (length FenwickSums \<le> MaxLength) ''Size() <= MaxLength'') (\<lambda>_.
      rbind (CalculateIncompleteFenwickSum FenwickSums newItemIndex) (\<lambda>s.
      Inr (FenwickSums @ [s + item]))))"

definition GetValue :: "'a::ab_group_add fenwick \<Rightarrow> int \<Rightarrow> 'a res" where
  "GetValue FenwickSums index =
     rbind (verify (index \<ge> 0) ''index >= 0'') (\<lambda>_.
     rbind (verify (index < int (length FenwickSums)) ''index < Size()'') (\<lambda>_.
     rbind (CalculateIncompleteFenwickSum FenwickSums index) (\<lambda>s.
     Inr (FenwickSums ! nat index - s))))"

function increment_loop :: "'a::ab_group_add fenwick \<Rightarrow> nat \<Rightarrow> 'a \<Rightarrow> 'a fenwick" where
  "increment_loop FenwickSums index delta =
     (if index < length FenwickSums
      then increment_loop (FenwickSums[index := FenwickSums ! index + delta]) (index OR (index + 1)) delta
      else FenwickSums)"
  by pat_completeness auto
termination
  by (relation "measure (\<lambda>(FenwickSums, index, _). length FenwickSums - index)")
    (auto intro: diff_less_mono2)

declare increment_loop.simps [simp del]

text \<open>\<open>Increment\<close> checks nothing: an index behind the last item ends the loop at once, and a
  negative one reads in front of the array.\<close>

definition Increment :: "'a::ab_group_add fenwick \<Rightarrow> int \<Rightarrow> 'a \<Rightarrow> 'a fenwick res" where
  "Increment FenwickSums index delta =
     (if index < 0 then Inl (Undefined ''negative index'')
      else Inr (increment_loop FenwickSums (nat index) delta))"

definition SetValue :: "'a::ab_group_add fenwick \<Rightarrow> int \<Rightarrow> 'a \<Rightarrow> 'a fenwick res" where
  "SetValue FenwickSums index item =
     rbind (verify (index \<ge> 0) ''index >= 0'') (\<lambda>_.
     rbind (verify (index < int (length FenwickSums)) ''index < Size()'') (\<lambda>_.
     rbind (GetValue FenwickSums index) (\<lambda>v.
     Increment FenwickSums index (item - v))))"

definition PopBack :: "'a fenwick \<Rightarrow> 'a fenwick res" where
  "PopBack FenwickSums =
     rbind (verify (length FenwickSums > 0) ''Size() > 0'') (\<lambda>_. Inr (butlast FenwickSums))"

text \<open>The argument of the loop is one more than the code's index, which ends at \<open>-1\<close>.\<close>

function cumulative_loop :: "'a::ab_group_add fenwick \<Rightarrow> nat \<Rightarrow> 'a \<Rightarrow> 'a" where
  "cumulative_loop FenwickSums 0 result = result"
| "cumulative_loop FenwickSums (Suc index) result =
     cumulative_loop FenwickSums (index AND (index + 1)) (result + FenwickSums ! index)"
  by pat_completeness auto
termination
  by (relation "measure (\<lambda>(_, index, _). index)") (auto simp: le_imp_less_Suc)

lemma cumulative_loop_numeral [simp]:
  "cumulative_loop fs (numeral v) r = cumulative_loop fs (pred_numeral v AND numeral v) (r + fs ! pred_numeral v)"
  by (simp add: numeral_eq_Suc)

definition GetCumulativeSum :: "'a::ab_group_add fenwick \<Rightarrow> int \<Rightarrow> 'a res" where
  "GetCumulativeSum FenwickSums index =
     rbind (verify (index \<ge> 0) ''index >= 0'') (\<lambda>_.
     rbind (verify (index \<le> int (length FenwickSums)) ''index <= Size()'') (\<lambda>_.
     Inr (cumulative_loop FenwickSums (nat index) 0)))"

function step_loop :: "nat \<Rightarrow> nat \<Rightarrow> nat res" where
  "step_loop n k =
     (if 2 ^ k \<le> n
      then if 2 * 2 ^ k > max_int then Inl (Undefined ''signed overflow'') else step_loop n (k + 1)
      else Inr k)"
  by pat_completeness auto
termination
  by (relation "measure (\<lambda>(n, k). n - k)") (auto intro: diff_less_mono2 less_le_trans [OF less_exp])

declare step_loop.simps [simp del]

fun bound_loop :: "('a \<Rightarrow> 'v \<Rightarrow> bool) \<Rightarrow> 'a::ab_group_add fenwick \<Rightarrow> 'v \<Rightarrow> nat \<Rightarrow> nat \<Rightarrow> 'a \<Rightarrow> nat" where
  "bound_loop comparer FenwickSums s k resultIndex foundSum =
     (let newIndex = resultIndex + 2 ^ k - 1;
          taken = (newIndex < length FenwickSums \<and> comparer (foundSum + FenwickSums ! newIndex) s);
          foundSum = (if taken then foundSum + FenwickSums ! newIndex else foundSum);
          resultIndex = (if taken then resultIndex + 2 ^ k else resultIndex)
      in case k of 0 \<Rightarrow> resultIndex
         | Suc k \<Rightarrow> bound_loop comparer FenwickSums s k resultIndex foundSum)"

declare bound_loop.simps [simp del]

definition LowerBound :: "('a \<Rightarrow> 'v \<Rightarrow> bool) \<Rightarrow> 'a::ab_group_add fenwick \<Rightarrow> 'v \<Rightarrow> nat res" where
  "LowerBound comparer FenwickSums s =
     (if \<not> comparer 0 s then Inr 0
      else rbind (step_loop (length FenwickSums) 0) (\<lambda>k.
        Inr (bound_loop comparer FenwickSums s k 0 0 + 1)))"

definition UpperBound :: "('v \<Rightarrow> 'a \<Rightarrow> bool) \<Rightarrow> 'a::ab_group_add fenwick \<Rightarrow> 'v \<Rightarrow> nat res" where
  "UpperBound comparer FenwickSums s = LowerBound (\<lambda>lhs rhs. \<not> comparer rhs lhs) FenwickSums s"

definition Clear :: "'a fenwick \<Rightarrow> 'a fenwick" where
  "Clear FenwickSums = []"

section \<open>The items a tree stands for\<close>

abbreviation prefix_sum :: "'a::ab_group_add list \<Rightarrow> nat \<Rightarrow> 'a" where
  "prefix_sum xs i \<equiv> sum_list (take i xs)"

text \<open>Slot \<open>i\<close> holds the sum of the items from \<open>i AND (i + 1)\<close> to \<open>i\<close>.\<close>

definition stores :: "'a::ab_group_add fenwick \<Rightarrow> 'a list \<Rightarrow> bool" where
  "stores fs xs \<longleftrightarrow> length fs = length xs \<and>
     (\<forall>i<length xs. fs ! i = prefix_sum xs (Suc i) - prefix_sum xs (i AND Suc i))"

definition items :: "'a::ab_group_add fenwick \<Rightarrow> 'a list" where
  "items fs = map (\<lambda>i. cumulative_loop fs (Suc i) 0 - cumulative_loop fs i 0) [0..<length fs]"

lemma cumulative_acc: "cumulative_loop fs i r = r + cumulative_loop fs i 0"
proof (induction i arbitrary: r rule: less_induct)
  case (less i)
  show ?case
  proof (cases i)
    case (Suc j)
    then show ?thesis
      using less.IH [of "j AND Suc j" "r + fs ! j"] less.IH [of "j AND Suc j" "fs ! j"]
      by (simp add: le_imp_less_Suc add.assoc)
  qed simp
qed

lemma cumulative_Suc: "cumulative_loop fs (Suc i) 0 = fs ! i + cumulative_loop fs (i AND Suc i) 0"
  using cumulative_acc [of fs "i AND Suc i" "fs ! i"] by simp

lemma length_items [simp]: "length (items fs) = length fs"
  by (simp add: items_def)

lemma items_nth: "i < length fs \<Longrightarrow> items fs ! i = cumulative_loop fs (Suc i) 0 - cumulative_loop fs i 0"
  by (simp add: items_def)

lemma prefix_sum_items: "i \<le> length fs \<Longrightarrow> prefix_sum (items fs) i = cumulative_loop fs i 0"
proof (induction i)
  case (Suc i)
  then show ?case
    by (simp add: take_Suc_conv_app_nth [of i "items fs"] items_nth del: cumulative_loop.simps(2))
qed simp

lemma stores_items: "stores fs (items fs)"
proof -
  have "i AND Suc i \<le> length fs" if "i < length fs" for i using that and_suc_le [of i] by linarith
  then show ?thesis
    by (auto simp: stores_def prefix_sum_items Suc_leI cumulative_Suc simp del: cumulative_loop.simps(2))
qed

lemma stores_cumulative: "stores fs xs \<Longrightarrow> i \<le> length xs \<Longrightarrow> cumulative_loop fs i 0 = prefix_sum xs i"
proof (induction i rule: less_induct)
  case (less i)
  show ?case
  proof (cases i)
    case (Suc j)
    then have "j AND Suc j < i" by (simp add: le_imp_less_Suc)
    with less Suc show ?thesis
      by (simp add: cumulative_Suc stores_def del: cumulative_loop.simps(2))
  qed simp
qed

lemma stores_unique:
  assumes "stores fs xs"
  shows "items fs = xs"
proof (rule nth_equalityI)
  show len: "length (items fs) = length xs" using assms by (simp add: stores_def)
  fix i assume "i < length (items fs)"
  with len show "items fs ! i = xs ! i"
    using stores_cumulative [OF assms, of i] stores_cumulative [OF assms, of "Suc i"]
    by (simp add: items_def take_Suc_conv_app_nth del: cumulative_loop.simps(2))
qed

lemma slot_value:
  assumes "i < length fs"
  shows "fs ! i = prefix_sum (items fs) (Suc i) - prefix_sum (items fs) (i AND Suc i)"
  using stores_items [of fs] assms by (simp add: stores_def)

lemma block_value:
  assumes "odd m" "m * 2 ^ k \<le> length fs"
  shows "fs ! (m * 2 ^ k - 1) = prefix_sum (items fs) (m * 2 ^ k) - prefix_sum (items fs) ((m - 1) * 2 ^ k)"
proof -
  have pos: "0 < m * 2 ^ k" using assms(1) by (auto elim: oddE)
  then have "m * 2 ^ k - 1 < length fs" using assms(2) by linarith
  with pos slot_value [of "m * 2 ^ k - 1" fs] and_suc_block [OF assms(1), of k] assms(2) show ?thesis by simp
qed

section \<open>Every operation acts on the items\<close>

lemma incomplete_loop_block:
  "m * 2 ^ k \<le> length fs \<Longrightarrow>
   incomplete_loop fs (m * 2 ^ k) k acc =
     acc + prefix_sum (items fs) (m * 2 ^ k) - prefix_sum (items fs) ((m AND Suc m) * 2 ^ k)"
proof (induction m arbitrary: k acc rule: less_induct)
  case (less m)
  show ?case
  proof (cases m rule: nat_parity_cases)
    case (even q)
    then have "even m" by simp
    then show ?thesis using even block_bit [of m k] by (subst incomplete_loop.simps) simp
  next
    case (odd q)
    then have o: "odd m" and q: "(m - 1) * 2 ^ k = q * 2 ^ Suc k" by simp_all
    have le: "q * 2 ^ Suc k \<le> length fs" using less.prems q odd by simp
    have "incomplete_loop fs (m * 2 ^ k) k acc = incomplete_loop fs (q * 2 ^ Suc k) (Suc k) (acc + fs ! (m * 2 ^ k - 1))"
      using o block_bit [of m k] block_xor [OF o, of k] q by (subst incomplete_loop.simps) (simp add: mult.assoc)
    also have "\<dots> = acc + fs ! (m * 2 ^ k - 1) + prefix_sum (items fs) (q * 2 ^ Suc k)
        - prefix_sum (items fs) ((q AND Suc q) * 2 ^ Suc k)"
      using less.IH [of q "Suc k"] le odd by simp
    also have "(q AND Suc q) * 2 ^ Suc k = (m AND Suc m) * 2 ^ k" using odd by simp
    finally show ?thesis using block_value [OF o less.prems] q by (simp add: algebra_simps)
  qed
qed

lemma incomplete_loop_sum:
  assumes "i \<le> length fs"
  shows "incomplete_loop fs i 0 0 = prefix_sum (items fs) i - prefix_sum (items fs) (i AND Suc i)"
  using incomplete_loop_block [of i 0 fs 0] assms by simp

lemma PushBack_items:
  assumes "PushBack fs x = Inr fs'"
  shows "items fs' = items fs @ [x]"
proof (rule stores_unique)
  from assms have fs': "fs' = fs @ [incomplete_loop fs (length fs) 0 0 + x]"
    by (auto simp: PushBack_def CalculateIncompleteFenwickSum_def Let_def)
  have "i AND Suc i \<le> length fs" if "i < Suc (length fs)" for i using that and_suc_le [of i] by linarith
  then show "stores fs' (items fs @ [x])"
    using slot_value [of _ fs]
    unfolding fs' stores_def by (auto simp: nth_append incomplete_loop_sum less_Suc_eq)
qed

lemma GetValue_items:
  assumes "0 \<le> i" "i < int (length fs)"
  shows "GetValue fs i = Inr (items fs ! nat i)"
proof -
  have "nat i < length fs" using assms by linarith
  then show ?thesis
    using assms slot_value [of "nat i" fs]
    by (simp add: GetValue_def CalculateIncompleteFenwickSum_def incomplete_loop_sum take_Suc_conv_app_nth)
qed

lemma length_increment_loop [simp]: "length (increment_loop fs i d) = length fs"
  by (induction fs i d rule: increment_loop.induct) (subst increment_loop.simps, simp)

lemma increment_loop_nth:
  "j < length fs \<Longrightarrow> increment_loop fs i d ! j = fs ! j + (if i \<le> j \<and> j AND Suc j \<le> i then d else 0)"
proof (induction fs i d rule: increment_loop.induct)
  case (1 fs i d)
  show ?case
  proof (cases "i < length fs")
    case True
    with 1 have IH: "increment_loop (fs[i := fs ! i + d]) (i OR Suc i) d ! j =
        fs[i := fs ! i + d] ! j + (if i OR Suc i \<le> j \<and> j AND Suc j \<le> i OR Suc i then d else 0)" by simp
    consider "j < i" | "j = i" | "i < j" by linarith
    then show ?thesis
    proof cases
      case 1
      then have "\<not> i OR Suc i \<le> j" using or_suc_gt [of i] by linarith
      with 1 True IH show ?thesis by (subst increment_loop.simps) simp
    next
      case 2
      then have "\<not> i OR Suc i \<le> j" using or_suc_gt [of i] by linarith
      with 2 True IH show ?thesis by (subst increment_loop.simps) simp
    next
      case 3
      with True IH containing_slots [OF 3] show ?thesis by (subst increment_loop.simps) simp
    qed
  qed (use "1.prems" in \<open>subst increment_loop.simps, simp\<close>)
qed

lemma prefix_sum_update:
  "i < length xs \<Longrightarrow> prefix_sum (xs[i := xs ! i + d]) j = prefix_sum xs j + (if i < j then d else 0)"
proof (induction xs arbitrary: i j)
  case (Cons x xs)
  show ?case
    by (cases i; cases j) (use Cons in \<open>auto simp: add.assoc add.commute add.left_commute\<close>)
qed simp

lemma increment_loop_items:
  assumes "i < length fs"
  shows "items (increment_loop fs i d) = (items fs)[i := items fs ! i + d]"
proof (rule stores_unique)
  have "increment_loop fs i d ! j = prefix_sum ((items fs)[i := items fs ! i + d]) (Suc j)
      - prefix_sum ((items fs)[i := items fs ! i + d]) (j AND Suc j)" if "j < length fs" for j
  proof -
    have "i < j" if "i < j AND Suc j" using that and_suc_le [of j] by linarith
    then show ?thesis
      using assms that slot_value [OF that]
      by (auto simp: increment_loop_nth prefix_sum_update not_le less_Suc_eq_le)
  qed
  then show "stores (increment_loop fs i d) ((items fs)[i := items fs ! i + d])" by (simp add: stores_def)
qed

lemma SetValue_items:
  assumes "SetValue fs i x = Inr fs'"
  shows "items fs' = (items fs)[nat i := x]"
proof -
  from assms have i: "0 \<le> i" "i < int (length fs)" by (auto simp: SetValue_def)
  then have "nat i < length fs" by linarith
  with assms i show ?thesis by (auto simp: SetValue_def Increment_def GetValue_items increment_loop_items)
qed

lemma PopBack_items:
  assumes "PopBack fs = Inr fs'"
  shows "items fs' = butlast (items fs)"
proof (rule stores_unique)
  from assms have fs': "fs' = butlast fs" by (auto simp: PopBack_def)
  have "take (i AND Suc i) (butlast (items fs)) = take (i AND Suc i) (items fs)" if "i < length fs - 1" for i
  proof (rule take_butlast)
    show "i AND Suc i < length (items fs)" using that and_suc_le [of i] unfolding length_items by linarith
  qed
  then show "stores fs' (butlast (items fs))"
    using slot_value [of _ fs] unfolding fs' stores_def by (auto simp: nth_butlast take_butlast)
qed

section \<open>Searching\<close>

lemma step_loop_small: "n < 2 ^ 30 \<Longrightarrow> \<exists>k'. step_loop n k = Inr k' \<and> n < 2 ^ k'"
proof (induction n k rule: step_loop.induct)
  case (1 n k)
  show ?case
  proof (cases "2 ^ k \<le> n")
    case True
    with "1.prems" have "(2::nat) ^ k < 2 ^ 30" by linarith
    then have "\<not> 2 * 2 ^ k > max_int" by (simp add: max_int_def)
    with 1 True show ?thesis by (subst step_loop.simps) simp
  qed (subst step_loop.simps, simp)
qed

lemma step_loop_large: "2 ^ 30 \<le> n \<Longrightarrow> k \<le> 30 \<Longrightarrow> step_loop n k = Inl (Undefined ''signed overflow'')"
proof (induction n k rule: step_loop.induct)
  case (1 n k)
  have "(2::nat) ^ k \<le> 2 ^ 30" using "1.prems" by (intro power_increasing) auto
  then have le: "2 ^ k \<le> n" using "1.prems"(1) by linarith
  show ?case
  proof (cases "k = 30")
    case True
    with le show ?thesis by (subst step_loop.simps) (simp add: max_int_def)
  next
    case False
    then have "(2::nat) ^ k \<le> 2 ^ 29" using "1.prems" by (intro power_increasing) auto
    then have "\<not> 2 * 2 ^ k > max_int" by (simp add: max_int_def)
    with 1 le False show ?thesis by (subst step_loop.simps) simp
  qed
qed

text \<open>The place where the comparer turns false.\<close>

definition last_true :: "(nat \<Rightarrow> bool) \<Rightarrow> nat \<Rightarrow> nat \<Rightarrow> bool" where
  "last_true p n r \<longleftrightarrow> r \<le> n \<and> p r \<and> (r = n \<or> \<not> p (r + 1))"

lemma bound_loop_correct:
  assumes "r = m * 2 ^ Suc k" "r \<le> length fs" "comparer (prefix_sum (items fs) r) s"
    and "length fs < r + 2 ^ Suc k \<or> \<not> comparer (prefix_sum (items fs) (r + 2 ^ Suc k)) s"
  shows "last_true (\<lambda>i. comparer (prefix_sum (items fs) i) s) (length fs)
    (bound_loop comparer fs s k r (prefix_sum (items fs) r))"
  using assms
proof (induction k arbitrary: r m)
  case (0 r m)
  have e: "prefix_sum (items fs) r + fs ! r = prefix_sum (items fs) (Suc r)" if "r < length fs"
    using block_value [of "2 * m + 1" 0 fs] that 0(1) by (simp add: mult.commute)
  show ?case
    using 0 e by (subst bound_loop.simps) (auto simp: last_true_def Let_def)
next
  case (Suc k r m)
  have split: "r + 2 ^ Suc k = (2 * m + 1) * 2 ^ Suc k" using Suc.prems(1) by simp
  have e: "prefix_sum (items fs) r + fs ! (r + 2 ^ Suc k - 1) = prefix_sum (items fs) (r + 2 ^ Suc k)"
    if "r + 2 ^ Suc k \<le> length fs"
    using block_value [of "2 * m + 1" "Suc k" fs] that Suc.prems(1) unfolding split by (simp add: mult.commute mult.left_commute)
  have lt: "r + 2 ^ Suc k - 1 < length fs \<longleftrightarrow> r + 2 ^ Suc k \<le> length fs" by (cases "(2::nat) ^ Suc k") auto
  show ?case
  proof (cases "r + 2 ^ Suc k \<le> length fs \<and> comparer (prefix_sum (items fs) (r + 2 ^ Suc k)) s")
    case True
    have "last_true (\<lambda>i. comparer (prefix_sum (items fs) i) s) (length fs)
        (bound_loop comparer fs s k (r + 2 ^ Suc k) (prefix_sum (items fs) (r + 2 ^ Suc k)))"
      using Suc.prems True by (intro Suc.IH [OF split]) (auto simp: algebra_simps)
    with True e lt show ?thesis by (subst bound_loop.simps) (simp add: Let_def del: power_Suc)
  next
    case False
    have "last_true (\<lambda>i. comparer (prefix_sum (items fs) i) s) (length fs)
        (bound_loop comparer fs s k r (prefix_sum (items fs) r))"
      using Suc.prems False by (intro Suc.IH [of r "2 * m"]) auto
    with False e lt show ?thesis by (subst bound_loop.simps) (auto simp: Let_def simp del: power_Suc)
  qed
qed

lemma LowerBound_last_true:
  assumes "length fs < 2 ^ 30" "comparer 0 s"
  obtains r where "LowerBound comparer fs s = Inr (r + 1)"
    and "last_true (\<lambda>i. comparer (prefix_sum (items fs) i) s) (length fs) r"
proof -
  obtain k where k: "step_loop (length fs) 0 = Inr k" "length fs < 2 ^ k"
    using step_loop_small [OF assms(1)] by blast
  have "last_true (\<lambda>i. comparer (prefix_sum (items fs) i) s) (length fs) (bound_loop comparer fs s k 0 0)"
    using bound_loop_correct [of 0 0 k fs comparer s] k(2) assms(2) by simp
  with k assms that show ?thesis by (simp add: LowerBound_def)
qed

text \<open>With a comparer that turns false once along the prefix sums, the result splits them.\<close>

lemma LowerBound_splits:
  assumes "length fs < 2 ^ 30"
    and mono: "\<And>i j. i \<le> j \<Longrightarrow> j \<le> length fs \<Longrightarrow> comparer (prefix_sum (items fs) j) s \<Longrightarrow> comparer (prefix_sum (items fs) i) s"
  shows "\<exists>r. LowerBound comparer fs s = Inr r \<and> r \<le> length fs + 1 \<and>
    (\<forall>i\<le>length fs. comparer (prefix_sum (items fs) i) s \<longleftrightarrow> i < r)"
proof (cases "comparer 0 s")
  case True
  obtain r where r: "LowerBound comparer fs s = Inr (r + 1)"
    "last_true (\<lambda>i. comparer (prefix_sum (items fs) i) s) (length fs) r"
    by (rule LowerBound_last_true [of fs comparer s, OF assms(1) True])
  have "comparer (prefix_sum (items fs) i) s \<longleftrightarrow> i < r + 1" if "i \<le> length fs" for i
    using r(2) mono [of i r] mono [of "r + 1" i] that unfolding last_true_def by fastforce
  with r show ?thesis by (auto simp: last_true_def)
next
  case False
  then show ?thesis using mono [of 0] by (fastforce simp: LowerBound_def)
qed

lemma prefix_sum_mono:
  fixes xs :: "'a::linordered_ab_group_add list"
  assumes "\<forall>x\<in>set xs. 0 \<le> x" "i \<le> j"
  shows "prefix_sum xs i \<le> prefix_sum xs j"
proof -
  have "take j xs = take i xs @ take (j - i) (drop i xs)" using assms(2) by (simp add: take_drop [symmetric] flip: take_add)
  moreover have "0 \<le> sum_list (take (j - i) (drop i xs))"
    using assms(1) by (intro sum_list_nonneg) (meson in_set_dropD in_set_takeD)
  ultimately show ?thesis by simp
qed

text \<open>Evaluation on concrete trees.\<close>

lemma increment_loop_eval:
  "i < length fs \<Longrightarrow> increment_loop fs i d = increment_loop (fs[i := fs ! i + d]) (i OR Suc i) d"
  "length fs \<le> i \<Longrightarrow> increment_loop fs i d = fs"
  by (subst increment_loop.simps, simp)+

lemma incomplete_loop_eval:
  "0 < i AND 2 ^ k \<Longrightarrow> incomplete_loop fs i k acc = incomplete_loop fs (i XOR 2 ^ k) (Suc k) (acc + fs ! (i - 1))"
  "i AND 2 ^ k = 0 \<Longrightarrow> incomplete_loop fs i k acc = acc"
  by (subst incomplete_loop.simps, simp)+

lemma step_loop_eval:
  "2 ^ k \<le> n \<Longrightarrow> 2 * 2 ^ k \<le> max_int \<Longrightarrow> step_loop n k = step_loop n (Suc k)"
  "n < 2 ^ k \<Longrightarrow> step_loop n k = Inr k"
  by (subst step_loop.simps, simp)+

lemmas fenwick_eval = increment_loop_eval incomplete_loop_eval step_loop_eval bound_loop.simps max_int_def MaxLength_def Let_def
  or_Suc_0_eq Suc_0_or_eq and_Suc_0_eq Suc_0_and_eq xor_Suc_0_eq Suc_0_xor_eq

section \<open>Properties\<close>

text \<open>C11. A Fenwick tree is a list with fast sums: pushing, popping, setting and incrementing act
  on the items it stands for exactly as the list operations do, whatever the array holds, and
  the cumulative sum of an index is the sum of the items before it. Indexes out of range are fatal
  when setting and summing, and so are pushing to a full tree and popping from an empty one;
  \<open>Increment\<close> does not check its index: behind the last item it changes nothing, and a negative
  index is undefined behaviour.\<close>

theorem fenwick_refines_list:
  "items [] = [] \<and>
   (if length fs \<le> MaxLength then \<exists>fs'. PushBack fs x = Inr fs' \<and> items fs' = items fs @ [x]
    else \<exists>e. PushBack fs x = Inl (Fatal e)) \<and>
   (if 0 \<le> i \<and> i < int (length fs) then \<exists>fs'. SetValue fs i x = Inr fs' \<and> items fs' = (items fs)[nat i := x]
    else \<exists>e. SetValue fs i x = Inl (Fatal e)) \<and>
   (if fs \<noteq> [] then \<exists>fs'. PopBack fs = Inr fs' \<and> items fs' = butlast (items fs)
    else \<exists>e. PopBack fs = Inl (Fatal e)) \<and>
   (if 0 \<le> i then \<exists>fs'. Increment fs i x = Inr fs' \<and>
      items fs' = (if i < int (length fs) then (items fs)[nat i := items fs ! nat i + x] else items fs)
    else Increment fs i x = Inl (Undefined ''negative index'')) \<and>
   (if 0 \<le> i \<and> i \<le> int (length fs) then GetCumulativeSum fs i = Inr (sum_list (take (nat i) (items fs)))
    else \<exists>e. GetCumulativeSum fs i = Inl (Fatal e))"
proof -
  have "\<exists>fs'. PushBack fs x = Inr fs'" if "length fs \<le> MaxLength"
    using that by (simp add: PushBack_def CalculateIncompleteFenwickSum_def)
  moreover have "\<exists>fs'. SetValue fs i x = Inr fs'" if "0 \<le> i \<and> i < int (length fs)"
    using that by (simp add: SetValue_def Increment_def GetValue_items)
  moreover have "if 0 \<le> i then \<exists>fs'. Increment fs i x = Inr fs' \<and>
      items fs' = (if i < int (length fs) then (items fs)[nat i := items fs ! nat i + x] else items fs)
    else Increment fs i x = Inl (Undefined ''negative index'')"
    by (simp add: Increment_def increment_loop_items increment_loop_eval(2))
  moreover have "\<exists>fs'. PopBack fs = Inr fs'" if "fs \<noteq> []"
    using that by (simp add: PopBack_def)
  moreover have "GetCumulativeSum fs i = Inr (prefix_sum (items fs) (nat i))" if "0 \<le> i \<and> i \<le> int (length fs)"
    using that by (simp add: GetCumulativeSum_def prefix_sum_items nat_le_iff)
  moreover have "\<exists>e. PushBack fs x = Inl (Fatal e)" if "\<not> length fs \<le> MaxLength"
    using that by (simp add: PushBack_def)
  moreover have "\<exists>e. SetValue fs i x = Inl (Fatal e)" if "\<not> (0 \<le> i \<and> i < int (length fs))"
    using that by (auto simp: SetValue_def verify_def)
  moreover have "\<exists>e. GetCumulativeSum fs i = Inl (Fatal e)" if "\<not> (0 \<le> i \<and> i \<le> int (length fs))"
    using that by (auto simp: GetCumulativeSum_def verify_def)
  moreover have "\<exists>e. PopBack fs = Inl (Fatal e)" if "fs = []" using that by (simp add: PopBack_def)
  ultimately show ?thesis
    using PushBack_items [of fs x] SetValue_items [of fs i x] PopBack_items [of fs]
    by (auto simp: items_def [of "[]"])
qed

theorem fenwick_refines_list_witness:
  "PushBack [1, 3, 3 :: int] 4 = Inr [1, 3, 3, 10] \<and> items [1, 3, 3 :: int] = [1, 2, 3] \<and>
   items [1, 8, 3 :: int] = [1, 7, 3] \<and> Increment [1, 3, 3 :: int] 1 5 = Inr [1, 8, 3] \<and>
   GetCumulativeSum [1, 3, 3 :: int] 3 = Inr 6"
proof -
  have "items [1, 3, 3 :: int] = [1, 2, 3]" by (simp add: items_def upt_rec flip: numeral_2_eq_2 numeral_3_eq_3)
  moreover have "Increment [1, 3, 3 :: int] 1 5 = Inr [1, 8, 3]" by (simp add: Increment_def fenwick_eval)
  moreover have "PushBack [1, 3, 3 :: int] 4 = Inr [1, 3, 3, 10]"
    by (simp add: PushBack_def CalculateIncompleteFenwickSum_def fenwick_eval)
  moreover have "GetCumulativeSum [1, 3, 3 :: int] 3 = Inr 6" by (simp add: GetCumulativeSum_def)
  ultimately show ?thesis using fenwick_refines_list [of "[1, 3, 3 :: int]" 5 1] by (auto simp: MaxLength_def)
qed

text \<open>C37. For trees of nonnegative items, \<open>LowerBound\<close> and \<open>UpperBound\<close> find the first cumulative
  sum that is not less than, or is greater than, the given one, or the length plus one if there
  is none; this needs a length below \<open>2 ^ 30\<close>. At \<open>2 ^ 30\<close> items, which \<open>PushBack\<close> still
  permits, the step of the search overflows.\<close>

theorem fenwick_search:
  fixes fs :: "'a::linordered_ab_group_add fenwick"
  assumes "\<forall>x\<in>set (items fs). 0 \<le> x"
  shows "if length fs < 2 ^ 30
    then (\<exists>r. LowerBound (<) fs s = Inr r \<and> r \<le> length fs + 1 \<and>
           (\<forall>i\<le>length fs. sum_list (take i (items fs)) < s \<longleftrightarrow> i < r)) \<and>
         (\<exists>r. UpperBound (<) fs s = Inr r \<and> r \<le> length fs + 1 \<and>
           (\<forall>i\<le>length fs. sum_list (take i (items fs)) \<le> s \<longleftrightarrow> i < r))
    else (0 < s \<longrightarrow> LowerBound (<) fs s = Inl (Undefined ''signed overflow'')) \<and>
         (0 \<le> s \<longrightarrow> UpperBound (<) fs s = Inl (Undefined ''signed overflow''))"
proof (cases "length fs < 2 ^ 30")
  case True
  have mono: "prefix_sum (items fs) i \<le> prefix_sum (items fs) j" if "i \<le> j" for i j
    by (rule prefix_sum_mono [OF assms that])
  have "\<exists>r. LowerBound (<) fs s = Inr r \<and> r \<le> length fs + 1 \<and> (\<forall>i\<le>length fs. prefix_sum (items fs) i < s \<longleftrightarrow> i < r)"
    by (rule LowerBound_splits [OF True]) (use mono in \<open>blast intro: le_less_trans\<close>)
  moreover have "\<exists>r. UpperBound (<) fs s = Inr r \<and> r \<le> length fs + 1 \<and>
      (\<forall>i\<le>length fs. \<not> s < prefix_sum (items fs) i \<longleftrightarrow> i < r)"
    unfolding UpperBound_def by (rule LowerBound_splits [OF True]) (use mono in \<open>blast intro: less_le_trans\<close>)
  ultimately show ?thesis using True by (simp add: not_less)
next
  case False
  then show ?thesis by (simp add: LowerBound_def UpperBound_def step_loop_large not_less)
qed

theorem fenwick_search_witness:
  "items [1, 3, 3 :: int] = [1, 2, 3] \<and> LowerBound (<) [1, 3, 3 :: int] 3 = Inr 2 \<and>
   sum_list (take 1 (items [1, 3, 3 :: int])) < 3 \<and> \<not> sum_list (take 2 (items [1, 3, 3 :: int])) < 3"
proof -
  have items: "items [1, 3, 3 :: int] = [1, 2, 3]" by (simp add: items_def upt_rec flip: numeral_2_eq_2 numeral_3_eq_3)
  have bound: "LowerBound (<) [1, 3, 3 :: int] 3 = Inr 2"
    by (simp add: LowerBound_def fenwick_eval)
  have below: "sum_list (take i (items [1, 3, 3 :: int])) < 3 \<longleftrightarrow> i < 2" if "i \<le> 2" for i
    using fenwick_search [of "[1, 3, 3 :: int]" 3] that unfolding bound by (auto simp: items)
  show ?thesis using items bound below [of 1] below [of 2] by simp
qed

end
