(* ===== verification/SlidingWindow.thy ===== *)
theory SlidingWindow
  imports Prelude "HOL-Library.AList"
begin

text \<open>
  Reordering of packets: \<open>TSlidingWindow\<close> and \<open>TMultiSlidingWindow\<close> of
  \<open>yt/yt/core/misc/sliding_window-inl.h\<close>. A window is a hash map of deferred packets, here an
  association list with distinct keys, and the next sequence number to deliver. Sequence numbers
  are unbounded integers. The packets passed to the callback are the output of an operation.
\<close>

section \<open>One window\<close>

record 'p sliding_window =
  MaxSize :: int
  NextPacketSequenceNumber :: int
  Window :: "(int \<times> 'p) list"

definition TSlidingWindow :: "int \<Rightarrow> 'p sliding_window" where
  "TSlidingWindow maxSize = \<lparr>MaxSize = maxSize, NextPacketSequenceNumber = 0, Window = []\<rparr>"

definition GetNextSequenceNumber :: "'p sliding_window \<Rightarrow> int" where
  "GetNextSequenceNumber w = NextPacketSequenceNumber w"

definition IsEmpty_window :: "'p sliding_window \<Rightarrow> bool" where
  "IsEmpty_window w \<longleftrightarrow> Window w = []"

lemma length_delete_less: "map_of xs k = Some v \<Longrightarrow> length (AList.delete k xs) < length xs"
  by (induction xs) (auto simp: less_Suc_eq_le AList.length_delete_le)

text \<open>The packets ready for delivery leave the window one by one.\<close>

function pop_loop :: "int \<Rightarrow> (int \<times> 'p) list \<Rightarrow> 'p list \<Rightarrow> int \<times> (int \<times> 'p) list \<times> 'p list" where
  "pop_loop next window popped =
     (case map_of window next of
        None \<Rightarrow> (next, window, popped)
      | Some packet \<Rightarrow> pop_loop (next + 1) (AList.delete next window) (popped @ [packet]))"
  by pat_completeness auto
termination
  by (relation "measure (\<lambda>(_, window, _). length window)") (auto intro: length_delete_less)

declare pop_loop.simps [simp del]

definition AddPacket :: "'p sliding_window \<Rightarrow> int \<Rightarrow> 'p \<Rightarrow> ('p sliding_window \<times> 'p list) res" where
  "AddPacket w sequenceNumber packet =
     rbind (throw_if (sequenceNumber < GetNextSequenceNumber w) ''Packet sequence number is too small'') (\<lambda>_.
     rbind (throw_if (map_of (Window w) sequenceNumber \<noteq> None) ''Packet with this sequence number is already queued'') (\<lambda>_.
     rbind (throw_if (int (length (Window w)) \<ge> MaxSize w) ''Packet window overflow'') (\<lambda>_.
     case pop_loop (NextPacketSequenceNumber w) (AList.update sequenceNumber packet (Window w)) [] of
       (next, window, popped) \<Rightarrow>
         Inr (w\<lparr>NextPacketSequenceNumber := next, Window := window\<rparr>, popped))))"

section \<open>Windows of several sources\<close>

record sequence_number =
  SourceId :: int
  SeqValue :: int

record 'p multi_window =
  MultiMaxSize :: int
  WindowPerSource :: "(int \<times> 'p sliding_window) list"

definition TMultiSlidingWindow :: "int \<Rightarrow> 'p multi_window" where
  "TMultiSlidingWindow maxSize = \<lparr>MultiMaxSize = maxSize, WindowPerSource = []\<rparr>"

text \<open>The window of a new source is created even when the packet is then refused, so the state
  is returned in both cases.\<close>

definition AddPacket_multi ::
  "'p multi_window \<Rightarrow> sequence_number \<Rightarrow> 'p \<Rightarrow> 'p multi_window \<times> 'p list res" where
  "AddPacket_multi m sequenceNumber packet =
     (let source = SourceId sequenceNumber;
          (windows, w) = (case map_of (WindowPerSource m) source of
             None \<Rightarrow> (AList.update source (TSlidingWindow (MultiMaxSize m)) (WindowPerSource m), TSlidingWindow (MultiMaxSize m))
           | Some w \<Rightarrow> (WindowPerSource m, w))
      in case AddPacket w (SeqValue sequenceNumber) packet of
           Inl e \<Rightarrow> (m\<lparr>WindowPerSource := windows\<rparr>, Inl e)
         | Inr (w', popped) \<Rightarrow> (m\<lparr>WindowPerSource := AList.update source w' windows\<rparr>, Inr popped))"

fun missing_loop :: "(int \<times> 'p sliding_window) list \<Rightarrow> sequence_number option" where
  "missing_loop [] = None"
| "missing_loop ((sourceId, window) # rest) =
     (if \<not> IsEmpty_window window
      then Some \<lparr>SourceId = sourceId, SeqValue = GetNextSequenceNumber window\<rparr>
      else missing_loop rest)"

definition TryGetMissingSequenceNumber :: "'p multi_window \<Rightarrow> sequence_number option" where
  "TryGetMissingSequenceNumber m = missing_loop (WindowPerSource m)"

section \<open>Traces\<close>

text \<open>A trace is a sequence of received packets; refused packets leave the window as it was. The
  result is the window, the packets accepted and the packets delivered, in order.\<close>

fun window_run :: "'p sliding_window \<Rightarrow> (int \<times> 'p) list \<Rightarrow> 'p sliding_window \<times> (int \<times> 'p) list \<times> 'p list" where
  "window_run w [] = (w, [], [])"
| "window_run w ((n, p) # trace) =
     (case AddPacket w n p of
        Inl e \<Rightarrow> window_run w trace
      | Inr (w', popped) \<Rightarrow>
          (case window_run w' trace of (w'', accepted, delivered) \<Rightarrow> (w'', (n, p) # accepted, popped @ delivered)))"

fun multi_run :: "'p multi_window \<Rightarrow> (sequence_number \<times> 'p) list \<Rightarrow> 'p multi_window \<times> (int \<times> 'p) list" where
  "multi_run m [] = (m, [])"
| "multi_run m ((n, p) # trace) =
     (case AddPacket_multi m n p of
        (m', Inl e) \<Rightarrow> multi_run m' trace
      | (m', Inr popped) \<Rightarrow>
          (case multi_run m' trace of (m'', delivered) \<Rightarrow> (m'', map (Pair (SourceId n)) popped @ delivered)))"

section \<open>The invariant of a window\<close>

text \<open>Deferred packets lie strictly above the next sequence number.\<close>

definition window_ok :: "'p sliding_window \<Rightarrow> bool" where
  "window_ok w \<longleftrightarrow> distinct (map fst (Window w)) \<and> (\<forall>n\<in>set (map fst (Window w)). NextPacketSequenceNumber w < n)"

text \<open>What popping does, over the packets known so far: \<open>known\<close> has the numbers in the window.\<close>

lemma pop_loop_spec:
  assumes "pop_loop next window popped = (next', window', popped')"
    and "distinct (map fst window)" "\<forall>n\<in>set (map fst window). next \<le> n"
  shows "next \<le> next' \<and> popped' = popped @ map (the \<circ> map_of window) [next..next' - 1] \<and>
    distinct (map fst window') \<and> (\<forall>n\<in>set (map fst window'). next' < n) \<and>
    (\<forall>n. map_of window' n = (if n < next' then None else map_of window n)) \<and>
    (\<forall>n. next \<le> n \<and> n < next' \<longrightarrow> map_of window n \<noteq> None)"
  using assms
proof (induction "next" window popped rule: pop_loop.induct)
  case (1 "next" window popped)
  show ?case
  proof (cases "map_of window next")
    case None
    then have "next \<notin> set (map fst window)" by (simp add: map_of_eq_None_iff)
    with 1(3,4) have "\<forall>n\<in>set (map fst window). next < n" by (metis order_le_less)
    moreover have "map_of window n = None" if "n < next" for n
      using 1(4) that by (fastforce simp: map_of_eq_None_iff)
    ultimately show ?thesis using 1(2,3) None by (subst (asm) pop_loop.simps) auto
  next
    case (Some packet)
    let ?w = "AList.delete next window"
    have e: "pop_loop (next + 1) ?w (popped @ [packet]) = (next', window', popped')"
      using 1(2) Some by (subst (asm) pop_loop.simps) simp
    have d: "distinct (map fst ?w)" using 1(3) by (simp add: distinct_delete)
    have b: "\<forall>n\<in>set (map fst ?w). next + 1 \<le> n" using 1(4) by (fastforce simp: delete_keys)
    have del: "map_of ?w n = (if n = next then None else map_of window n)" for n
      by (simp add: AList.delete_conv)
    note IH = 1(1) [OF Some e d b]
    have up: "[next..next' - 1] = next # [next + 1..next' - 1]" using IH by (simp add: upto_rec1)
    have "map (the \<circ> map_of ?w) [next + 1..next' - 1] = map (the \<circ> map_of window) [next + 1..next' - 1]"
      by (simp add: del)
    then have "popped' = popped @ map (the \<circ> map_of window) [next..next' - 1]"
      using IH Some up by simp
    moreover have "map_of window n \<noteq> None" if "next \<le> n" "n < next'" for n
      using that IH Some by (cases "n = next") (auto simp: del)
    ultimately show ?thesis using IH by (simp add: del)
  qed
qed

lemma AddPacket_spec:
  assumes "AddPacket w n p = Inr (w', popped)" "window_ok w"
  defines "known \<equiv> (map_of (Window w))(n \<mapsto> p)"
  shows "NextPacketSequenceNumber w \<le> n" "map_of (Window w) n = None"
    "NextPacketSequenceNumber w \<le> NextPacketSequenceNumber w'" "MaxSize w' = MaxSize w" "window_ok w'"
    "popped = map (the \<circ> known) [NextPacketSequenceNumber w..NextPacketSequenceNumber w' - 1]"
    "\<forall>m. map_of (Window w') m = (if m < NextPacketSequenceNumber w' then None else known m)"
    "\<forall>m. NextPacketSequenceNumber w \<le> m \<and> m < NextPacketSequenceNumber w' \<longrightarrow> known m \<noteq> None"
proof -
  obtain k window q where pop:
    "pop_loop (NextPacketSequenceNumber w) (AList.update n p (Window w)) [] = (k, window, q)"
    by (metis prod_cases3)
  from assms(1) pop show n: "NextPacketSequenceNumber w \<le> n" "map_of (Window w) n = None"
    and "MaxSize w' = MaxSize w"
    by (auto simp: AddPacket_def GetNextSequenceNumber_def)
  from assms(1) pop have w': "NextPacketSequenceNumber w' = k" "Window w' = window" "popped = q"
    by (auto simp: AddPacket_def)
  have upd: "map_of (AList.update n p (Window w)) = known" by (simp add: known_def AList.update_conv')
  have "distinct (map fst (AList.update n p (Window w)))"
    using assms(2) by (simp add: window_ok_def AList.distinct_update)
  moreover have "\<forall>m\<in>set (map fst (AList.update n p (Window w))). NextPacketSequenceNumber w \<le> m"
    using assms(2) n(1) by (fastforce simp: window_ok_def AList.update_keys split: if_splits)
  ultimately have "NextPacketSequenceNumber w \<le> k \<and> q = [] @ map (the \<circ> known) [NextPacketSequenceNumber w..k - 1] \<and>
    distinct (map fst window) \<and> (\<forall>m\<in>set (map fst window). k < m) \<and>
    (\<forall>m. map_of window m = (if m < k then None else known m)) \<and>
    (\<forall>m. NextPacketSequenceNumber w \<le> m \<and> m < k \<longrightarrow> known m \<noteq> None)"
    unfolding upd [symmetric] by (rule pop_loop_spec [OF pop])
  then show "NextPacketSequenceNumber w \<le> NextPacketSequenceNumber w'" "window_ok w'"
    "popped = map (the \<circ> known) [NextPacketSequenceNumber w..NextPacketSequenceNumber w' - 1]"
    "\<forall>m. map_of (Window w') m = (if m < NextPacketSequenceNumber w' then None else known m)"
    "\<forall>m. NextPacketSequenceNumber w \<le> m \<and> m < NextPacketSequenceNumber w' \<longrightarrow> known m \<noteq> None"
    by (simp_all add: w' window_ok_def)
qed

text \<open>A window that has seen the packets \<open>known\<close> and delivered \<open>delivered\<close>.\<close>

definition seen :: "(int \<rightharpoonup> 'p) \<Rightarrow> 'p sliding_window \<Rightarrow> 'p list \<Rightarrow> bool" where
  "seen known w delivered \<longleftrightarrow> window_ok w \<and> 0 \<le> NextPacketSequenceNumber w \<and>
     delivered = map (the \<circ> known) [0..NextPacketSequenceNumber w - 1] \<and>
     (\<forall>m. map_of (Window w) m = (if m < NextPacketSequenceNumber w then None else known m)) \<and>
     (\<forall>m. 0 \<le> m \<and> m < NextPacketSequenceNumber w \<longrightarrow> known m \<noteq> None) \<and> (\<forall>m<0. known m = None)"

lemma seen_init: "seen Map.empty (TSlidingWindow maxSize) []"
  by (simp add: seen_def TSlidingWindow_def window_ok_def)

lemma seen_next: "seen known w delivered \<Longrightarrow> known (NextPacketSequenceNumber w) = None"
  unfolding seen_def window_ok_def
  by (metis less_irrefl map_of_eq_None_iff set_map)

lemma seen_AddPacket:
  assumes "seen known w delivered" "AddPacket w n p = Inr (w', popped)"
  shows "known n = None" "seen (known(n \<mapsto> p)) w' (delivered @ popped)"
proof -
  have ok: "window_ok w" using assms(1) by (simp add: seen_def)
  let ?next = "NextPacketSequenceNumber w" and ?next' = "NextPacketSequenceNumber w'"
  note a = AddPacket_spec [OF assms(2) ok]
  have k: "(known(n \<mapsto> p)) m = ((map_of (Window w))(n \<mapsto> p)) m" if "?next \<le> m" for m
    using assms(1) that by (simp add: seen_def)
  from a(1,2) assms(1) show fresh: "known n = None" unfolding seen_def by (metis not_le)
  have split: "[0..?next' - 1] = [0..?next - 1] @ [?next..?next' - 1]"
    using a(3) assms(1) upto_split1 [of 0 "?next" "?next' - 1"] by (cases "?next = ?next'") (auto simp: seen_def)
  have "map (the \<circ> known(n \<mapsto> p)) [0..?next - 1] = delivered" using assms(1) a(1) by (simp add: seen_def)
  moreover have "map (the \<circ> known(n \<mapsto> p)) [?next..?next' - 1] = popped" unfolding a(6) using k by simp
  ultimately have "delivered @ popped = map (the \<circ> known(n \<mapsto> p)) [0..?next' - 1]" by (simp only: split map_append)
  moreover have "(known(n \<mapsto> p)) m \<noteq> None" if "0 \<le> m" "m < ?next'" for m
    using a(8) k [of m] assms(1) that by (cases "m < ?next") (auto simp: seen_def)
  moreover have "map_of (Window w') m = (if m < ?next' then None else (known(n \<mapsto> p)) m)" for m
    using a(3,7) k [of m] by auto
  ultimately show "seen (known(n \<mapsto> p)) w' (delivered @ popped)"
    using a(1,3,5) assms(1) by (auto simp: seen_def)
qed

lemma window_run_seen:
  assumes "window_run w trace = (w', accepted, out)" "seen known w delivered"
  shows "seen (known ++ map_of accepted) w' (delivered @ out) \<and> distinct (map fst accepted) \<and>
    (\<forall>n\<in>set (map fst accepted). known n = None)"
  using assms
proof (induction w trace arbitrary: known delivered accepted out rule: window_run.induct)
  case (2 w n p trace)
  show ?case
  proof (cases "AddPacket w n p")
    case (Inl e)
    with 2 show ?thesis by simp
  next
    case (Inr r)
    obtain w1 popped where r: "r = (w1, popped)" by fastforce
    obtain rest more where rec: "window_run w1 trace = (w', rest, more)" "accepted = (n, p) # rest" "out = popped @ more"
      using 2(3) Inr r by (auto split: prod.splits)
    note step = seen_AddPacket [OF 2(4) Inr [unfolded r]]
    have IH: "seen (known(n \<mapsto> p) ++ map_of rest) w' ((delivered @ popped) @ more)" "distinct (map fst rest)"
      "\<forall>k\<in>set (map fst rest). (known(n \<mapsto> p)) k = None"
      using 2(2) [OF Inr r [symmetric] rec(1) step(2)] by blast+
    then have n: "n \<notin> dom (map_of rest)" by (auto simp: dom_map_of_conv_image_fst)
    then have "known(n \<mapsto> p) ++ map_of rest = known ++ map_of accepted" by (simp add: rec map_add_upd_left)
    then have "seen (known ++ map_of accepted) w' (delivered @ out)" using IH(1) rec(3) by (metis append_assoc)
    moreover have "\<forall>k\<in>set (map fst accepted). known k = None" using IH(3) step(1) rec by (auto split: if_splits)
    moreover have "distinct (map fst accepted)" using IH(2) n rec by (simp add: dom_map_of_conv_image_fst)
    ultimately show ?thesis by blast
  qed
qed simp

lemma window_run_append:
  "window_run w (xs @ ys) =
     (case window_run w xs of (w1, a1, d1) \<Rightarrow> case window_run w1 ys of (w2, a2, d2) \<Rightarrow> (w2, a1 @ a2, d1 @ d2))"
  by (induction w xs rule: window_run.induct) (auto split: sum.splits prod.splits)

lemma AddPacket_accepts:
  assumes "NextPacketSequenceNumber w \<le> n" "map_of (Window w) n = None" "int (length (Window w)) < MaxSize w"
  shows "\<exists>w' q. AddPacket w n p = Inr (w', q)"
  using assms
  by (cases "pop_loop (NextPacketSequenceNumber w) (AList.update n p (Window w)) []")
    (simp add: AddPacket_def GetNextSequenceNumber_def)

lemma AddPacket_MaxSize: "AddPacket w n p = Inr (w', q) \<Longrightarrow> MaxSize w' = MaxSize w"
  by (auto simp: AddPacket_def split: prod.splits)

lemma window_run_MaxSize:
  assumes "window_run w trace = (w', accepted, out)"
  shows "MaxSize w' = MaxSize w"
  using assms
proof (induction w trace arbitrary: accepted out rule: window_run.induct)
  case (2 w n p trace)
  show ?case
  proof (cases "AddPacket w n p")
    case (Inr r)
    obtain w1 q where r: "r = (w1, q)" by fastforce
    obtain rest more where "window_run w1 trace = (w', rest, more)"
      using 2(3) Inr r by (auto split: prod.splits)
    with 2(2) [OF Inr r [symmetric]] AddPacket_MaxSize Inr r show ?thesis by metis
  qed (use 2 in simp)
qed simp

section \<open>Windows that keep up\<close>

text \<open>A sender keeps pace with a window of \<open>size\<close> when it sends a packet only after all packets that are
  \<open>size\<close> or more behind it have arrived.\<close>

definition paced :: "int \<Rightarrow> (int \<times> 'p) list \<Rightarrow> bool" where
  "paced maxSize trace \<longleftrightarrow> 0 < maxSize \<and> distinct (map fst trace) \<and>
     (\<forall>i<length trace. 0 \<le> fst (trace ! i) \<and>
       (\<forall>m\<in>{0..fst (trace ! i) - maxSize}. m \<in> set (map fst (take i trace))))"

lemma paced_prefix:
  assumes "paced maxSize (xs @ ys)"
  shows "paced maxSize xs"
  unfolding paced_def
proof (intro conjI allI impI)
  fix i assume i: "i < length xs"
  with assms have "0 \<le> fst ((xs @ ys) ! i) \<and>
      (\<forall>m\<in>{0..fst ((xs @ ys) ! i) - maxSize}. m \<in> set (map fst (take i (xs @ ys))))"
    unfolding paced_def by (metis length_append trans_less_add1)
  with i show "0 \<le> fst (xs ! i)" "\<forall>m\<in>{0..fst (xs ! i) - maxSize}. m \<in> set (map fst (take i xs))"
    by (simp_all add: nth_append)
qed (use assms in \<open>auto simp: paced_def\<close>)

lemma deferred_close:
  assumes "paced maxSize xs" "m \<in> set (map fst xs)" "k \<notin> set (map fst xs)" "0 \<le> k"
  shows "m < k + maxSize"
proof (rule ccontr)
  assume "\<not> m < k + maxSize"
  then have k: "k \<in> {0..m - maxSize}" using assms(4) by simp
  obtain i where i: "i < length xs" "fst (xs ! i) = m" using assms(2) by (auto simp: in_set_conv_nth)
  with assms(1) k have "k \<in> set (map fst (take i xs))" unfolding paced_def by blast
  then show False using assms(3) by (auto dest: in_set_takeD)
qed

lemma paced_accepted:
  assumes "paced maxSize trace"
  shows "\<exists>w out. window_run (TSlidingWindow maxSize) trace = (w, trace, out)"
  using assms
proof (induction trace rule: rev_induct)
  case (snoc x xs)
  obtain k p where x: "x = (k, p)" by fastforce
  obtain w out where run: "window_run (TSlidingWindow maxSize) xs = (w, xs, out)"
    using snoc.IH paced_prefix [OF snoc.prems] by blast
  have s: "seen (map_of xs) w out" using window_run_seen [OF run seen_init] by simp
  let ?next = "NextPacketSequenceNumber w"
  have k: "0 \<le> k" "map_of xs k = None"
    using snoc.prems x by (auto simp: paced_def nth_append map_of_eq_None_iff split: if_splits)
  have nxt: "?next \<notin> set (map fst xs)" "0 \<le> ?next"
    using seen_next [OF s] s by (auto simp: map_of_eq_None_iff seen_def)
  have "set (map fst (Window w)) \<subseteq> {?next + 1..?next + maxSize - 1}"
  proof
    fix m assume m: "m \<in> set (map fst (Window w))"
    then have "map_of (Window w) m \<noteq> None" by (simp add: map_of_eq_None_iff)
    with s have "map_of xs m \<noteq> None" "?next \<le> m" by (auto simp: seen_def split: if_splits)
    then have "m \<in> set (map fst xs)" by (auto simp: map_of_eq_None_iff)
    with deferred_close [OF paced_prefix [OF snoc.prems] _ nxt] m s
    show "m \<in> {?next + 1..?next + maxSize - 1}" by (auto simp: seen_def window_ok_def)
  qed
  then have "card (set (map fst (Window w))) \<le> card {?next + 1..?next + maxSize - 1}" by (intro card_mono) auto
  moreover have "card (set (map fst (Window w))) = length (Window w)"
    using s distinct_card by (fastforce simp: seen_def window_ok_def)
  moreover have "0 < maxSize" using snoc.prems by (simp add: paced_def)
  ultimately have "int (length (Window w)) < maxSize" by simp
  moreover have "?next \<le> k" using s k unfolding seen_def by (metis not_le)
  moreover have "map_of (Window w) k = None" using s k by (simp add: seen_def)
  moreover have "MaxSize w = maxSize" using window_run_MaxSize [OF run] by (simp add: TSlidingWindow_def)
  ultimately have "\<exists>w' q. AddPacket w k p = Inr (w', q)" by (simp add: AddPacket_accepts)
  then show ?case using run x by (auto simp: window_run_append)
qed simp

section \<open>Sources are independent\<close>

definition of_source :: "int \<Rightarrow> (sequence_number \<times> 'p) list \<Rightarrow> (int \<times> 'p) list" where
  "of_source source trace = map (\<lambda>(n, p). (SeqValue n, p)) (filter (\<lambda>(n, p). SourceId n = source) trace)"

definition source_window :: "'p multi_window \<Rightarrow> int \<Rightarrow> 'p sliding_window" where
  "source_window m source =
     (case map_of (WindowPerSource m) source of None \<Rightarrow> TSlidingWindow (MultiMaxSize m) | Some w \<Rightarrow> w)"

lemma AddPacket_multi_windows:
  "AddPacket_multi m n p = (m', Inl e) \<Longrightarrow> AddPacket (source_window m (SourceId n)) (SeqValue n) p = Inl e"
  "AddPacket_multi m n p = (m', Inl e) \<Longrightarrow> source_window m' source = source_window m source"
  "AddPacket_multi m n p = (m', Inr q) \<Longrightarrow>
     \<exists>w. AddPacket (source_window m (SourceId n)) (SeqValue n) p = Inr (w, q) \<and>
       source_window m' source = (if source = SourceId n then w else source_window m source)"
  by (auto simp: AddPacket_multi_def source_window_def Let_def AList.update_conv' split: option.splits sum.splits if_splits)

lemma multi_run_windows:
  assumes "multi_run m trace = (m', out)"
  shows "source_window m' source = fst (window_run (source_window m source) (of_source source trace)) \<and>
    map snd (filter (\<lambda>(s, p). s = source) out) =
      snd (snd (window_run (source_window m source) (of_source source trace)))"
  using assms
proof (induction m trace arbitrary: out rule: multi_run.induct)
  case (1 m)
  then show ?case by (simp add: of_source_def)
next
  case (2 m n p trace)
  obtain m1 r where step: "AddPacket_multi m n p = (m1, r)" by fastforce
  show ?case
  proof (cases r)
    case (Inl e)
    note a = AddPacket_multi_windows(1,2) [OF step [unfolded Inl]]
    have "multi_run m1 trace = (m', out)" using 2(3) step Inl by simp
    with 2(1) [OF step [symmetric] Inl] a show ?thesis
      by (auto simp: of_source_def)
  next
    case (Inr q)
    obtain more where rec: "multi_run m1 trace = (m', more)" "out = map (Pair (SourceId n)) q @ more"
      using 2(3) step Inr by (auto split: prod.splits)
    note a = AddPacket_multi_windows(3) [OF step [unfolded Inr], of source]
    have q: "map snd (filter (\<lambda>(s, p). s = source) (map (Pair (SourceId n)) q)) = (if SourceId n = source then q else [])"
      by (induction q) auto
    from 2(2) [OF step [symmetric] Inr rec(1)] a show ?thesis
      by (auto simp: of_source_def rec q split: prod.splits)
  qed
qed

lemma missing_loop_None: "missing_loop ws = None \<longleftrightarrow> (\<forall>w\<in>set (map snd ws). Window w = [])"
  by (induction ws rule: missing_loop.induct) (auto simp: IsEmpty_window_def)

lemma missing_loop_Some:
  "missing_loop ws = Some n \<Longrightarrow> distinct (map fst ws) \<Longrightarrow>
   \<exists>w. map_of ws (SourceId n) = Some w \<and> Window w \<noteq> [] \<and> SeqValue n = NextPacketSequenceNumber w"
  by (induction ws rule: missing_loop.induct)
    (auto simp: IsEmpty_window_def GetNextSequenceNumber_def split: if_splits dest: map_of_SomeD intro: rev_image_eqI)

lemma upto_from_0: "[0..int n - 1] = map int [0..<n]"
  by (induction n) (simp_all add: upto_rec2)

lemma multi_run_distinct:
  assumes "multi_run m trace = (m', out)" "distinct (map fst (WindowPerSource m))"
  shows "distinct (map fst (WindowPerSource m'))"
  using assms
proof (induction m trace arbitrary: out rule: multi_run.induct)
  case (2 m n p trace)
  obtain m1 r where step: "AddPacket_multi m n p = (m1, r)" by fastforce
  have d: "distinct (map fst (WindowPerSource m1))"
    using step 2(4) by (auto simp: AddPacket_multi_def Let_def AList.distinct_update split: option.splits sum.splits)
  show ?case
    by (cases r) (use 2(1,2) [OF step [symmetric]] 2(3) step d in \<open>auto split: prod.splits\<close>)
qed simp

section \<open>Properties\<close>

text \<open>C14. Whatever packets arrive, a window accepts each sequence number at most once, and has
  delivered exactly the accepted packets below its next sequence number, in order, each once; the
  next number is the first one that has not been accepted, and what was accepted beyond it is
  deferred.\<close>

theorem window_delivers_in_order:
  assumes "window_run (TSlidingWindow maxSize) trace = (w, accepted, delivered)"
  shows "distinct (map fst accepted) \<and>
    delivered = map (the \<circ> map_of accepted) [0..NextPacketSequenceNumber w - 1] \<and>
    {0..<NextPacketSequenceNumber w} \<subseteq> set (map fst accepted) \<and>
    NextPacketSequenceNumber w \<notin> set (map fst accepted) \<and>
    (\<forall>n. map_of (Window w) n = (if n < NextPacketSequenceNumber w then None else map_of accepted n))"
proof -
  have s: "seen (map_of accepted) w delivered" and d: "distinct (map fst accepted)"
    using window_run_seen [OF assms seen_init] by simp_all
  have "n \<in> set (map fst accepted)" if "0 \<le> n" "n < NextPacketSequenceNumber w" for n
    using s that unfolding seen_def by (metis map_of_eq_None_iff set_map)
  then have "{0..<NextPacketSequenceNumber w} \<subseteq> set (map fst accepted)" by auto
  moreover have "NextPacketSequenceNumber w \<notin> set (map fst accepted)"
    using seen_next [OF s] by (simp add: map_of_eq_None_iff)
  ultimately show ?thesis using s d by (simp add: seen_def)
qed

theorem window_delivers_in_order_witness:
  "\<exists>w accepted delivered. window_run (TSlidingWindow 3) [(1, ''b''), (0, ''a''), (0, ''c''), (3, ''d'')] = (w, accepted, delivered) \<and>
     delivered = [''a'', ''b''] \<and> distinct (map fst accepted) \<and> NextPacketSequenceNumber w \<notin> set (map fst accepted)"
proof -
  obtain w accepted delivered where r: "window_run (TSlidingWindow 3) [(1, ''b''), (0, ''a''), (0, ''c''), (3, ''d'')] = (w, accepted, delivered)"
    by (metis prod_cases3)
  moreover have "snd (snd (window_run (TSlidingWindow 3) [(1, ''b''), (0, ''a''), (0, ''c''), (3, ''d'')])) = [''a'', ''b'']"
    by code_simp
  ultimately show ?thesis using window_delivers_in_order [OF r] by auto
qed

text \<open>C20. A sender that keeps pace with the window is never refused, and every packet of a
  complete stream is delivered: when the packets \<open>0, \<dots>, n - 1\<close> arrive in any order such that each
  comes only after all packets that are a window behind it, all of them are delivered in order and
  the window ends up empty.\<close>

theorem window_delivers_all:
  assumes "paced maxSize trace" "set (map fst trace) = {0..<int n}"
  shows "\<exists>w. window_run (TSlidingWindow maxSize) trace = (w, trace, map (\<lambda>i. the (map_of trace (int i))) [0..<n]) \<and>
    IsEmpty_window w \<and> GetNextSequenceNumber w = int n"
proof -
  obtain w out where run: "window_run (TSlidingWindow maxSize) trace = (w, trace, out)"
    using paced_accepted [OF assms(1)] by blast
  let ?next = "NextPacketSequenceNumber w"
  have s: "seen (map_of trace) w out" using window_run_seen [OF run seen_init] by simp
  have "?next \<notin> {0..<int n}" using seen_next [OF s] assms(2) by (auto simp: map_of_eq_None_iff)
  moreover have "{0..<?next} \<subseteq> {0..<int n}"
    using s assms(2) unfolding seen_def by (metis atLeastLessThan_iff map_of_eq_None_iff set_map subsetI)
  moreover have "0 \<le> ?next" using s by (simp add: seen_def)
  ultimately have n: "?next = int n" by (cases "?next = 0") (auto dest: subsetD [of _ _ "?next - 1"])
  have "map_of (Window w) k = None" for k
    using s n assms(2) by (cases "k < int n") (auto simp: seen_def map_of_eq_None_iff)
  then have "map_of (Window w) = Map.empty" by blast
  then have "IsEmpty_window w" by (simp add: IsEmpty_window_def)
  moreover have "out = map (\<lambda>i. the (map_of trace (int i))) [0..<n]"
    using s n by (simp add: seen_def upto_from_0)
  ultimately show ?thesis using run n by (simp add: GetNextSequenceNumber_def)
qed

theorem window_delivers_all_witness:
  "paced 2 [(1, ''b''), (0, ''a''), (2, ''c'')] \<and>
   (\<exists>w. window_run (TSlidingWindow 2) [(1, ''b''), (0, ''a''), (2, ''c'')] =
      (w, [(1, ''b''), (0, ''a''), (2, ''c'')], [''a'', ''b'', ''c'']) \<and> IsEmpty_window w)"
proof -
  have "{0..0::int} = {0}" by auto
  then have p: "paced 2 [(1, ''b''), (0, ''a''), (2, ''c'')]"
    by (auto simp: paced_def nth_Cons less_Suc_eq split: nat.splits)
  have "set (map fst [(1::int, ''b''), (0, ''a''), (2, ''c'')]) = {0..<int 3}" by auto
  from window_delivers_all [OF p this] p show ?thesis by (auto simp: upt_rec numeral_3_eq_3)
qed

text \<open>A window that is full accepts nothing any more, not even the packet it waits for: once it
  defers as many packets as its size, it stays as it is forever.\<close>

theorem full_window_stuck:
  assumes "int (length (Window w)) \<ge> MaxSize w"
  shows "window_run w trace = (w, [], [])"
proof -
  have refused: "\<exists>e. AddPacket w n p = Inl e" for n p using assms by (auto simp: AddPacket_def throw_if_def)
  show ?thesis
  proof (induction trace)
    case (Cons x trace)
    obtain n p where x: "x = (n, p)" by fastforce
    obtain e where "AddPacket w n p = Inl e" using refused by blast
    with Cons x show ?case by simp
  qed simp
qed

theorem full_window_stuck_witness:
  "\<exists>w. window_run (TSlidingWindow 1) [(1, ''b'')] = (w, [(1, ''b'')], []) \<and> GetNextSequenceNumber w = 0 \<and>
     window_run w [(0, ''a'')] = (w, [], [])"
proof -
  let ?w = "\<lparr>MaxSize = 1, NextPacketSequenceNumber = 0, Window = [(1, ''b'')]\<rparr>"
  have "window_run (TSlidingWindow 1) [(1, ''b'')] = (?w, [(1, ''b'')], [])"
    by (simp add: AddPacket_def TSlidingWindow_def GetNextSequenceNumber_def pop_loop.simps)
  moreover have "window_run ?w [(0, ''a'')] = (?w, [], [])" by (rule full_window_stuck) simp
  ultimately show ?thesis by (auto simp: GetNextSequenceNumber_def)
qed

text \<open>The windows of different sources do not affect each other: after any trace the window of a
  source and the packets it delivered are those of a single window that received only the packets of
  that source. The missing sequence number reported is the one some non-empty window waits for, and
  there is none exactly when all windows are empty.\<close>

theorem multi_window_independent:
  assumes "multi_run (TMultiSlidingWindow maxSize) trace = (m, delivered)"
  shows "\<exists>w accepted out. window_run (TSlidingWindow maxSize) (of_source source trace) = (w, accepted, out) \<and>
    source_window m source = w \<and> map snd (filter (\<lambda>(s, p). s = source) delivered) = out \<and>
    (case TryGetMissingSequenceNumber m of
       None \<Rightarrow> \<forall>(s, w)\<in>set (WindowPerSource m). IsEmpty_window w
     | Some n \<Rightarrow> \<not> IsEmpty_window (source_window m (SourceId n)) \<and>
         SeqValue n = GetNextSequenceNumber (source_window m (SourceId n)))"
proof -
  have init: "source_window (TMultiSlidingWindow maxSize) source = TSlidingWindow maxSize"
    "distinct (map fst (WindowPerSource (TMultiSlidingWindow maxSize)))"
    by (simp_all add: source_window_def TMultiSlidingWindow_def)
  have "case TryGetMissingSequenceNumber m of
       None \<Rightarrow> \<forall>(s, w)\<in>set (WindowPerSource m). IsEmpty_window w
     | Some n \<Rightarrow> \<not> IsEmpty_window (source_window m (SourceId n)) \<and>
         SeqValue n = GetNextSequenceNumber (source_window m (SourceId n))"
    using missing_loop_Some [OF _ multi_run_distinct [OF assms init(2)]]
    by (fastforce simp: TryGetMissingSequenceNumber_def missing_loop_None IsEmpty_window_def
        GetNextSequenceNumber_def source_window_def split: option.splits)
  with multi_run_windows [OF assms, of source] show ?thesis unfolding init(1) by (metis prod.collapse)
qed

theorem multi_window_independent_witness:
  "\<exists>m delivered. multi_run (TMultiSlidingWindow 2)
      [(\<lparr>SourceId = 7, SeqValue = 1\<rparr>, ''b''), (\<lparr>SourceId = 8, SeqValue = 0\<rparr>, ''x'')] = (m, delivered) \<and>
     map snd (filter (\<lambda>(s, p). s = 8) delivered) = [''x'']"
proof -
  let ?t = "[(\<lparr>SourceId = 7, SeqValue = 1\<rparr>, ''b''), (\<lparr>SourceId = 8, SeqValue = 0\<rparr>, ''x'')]"
  obtain m delivered where r: "multi_run (TMultiSlidingWindow 2) ?t = (m, delivered)" by fastforce
  have "of_source 8 ?t = [(0, ''x'')]" by (simp add: of_source_def)
  moreover have "snd (snd (window_run (TSlidingWindow 2) [(0, ''x'')])) = [''x'']" by code_simp
  ultimately show ?thesis using multi_window_independent [OF r, of 8] r by auto
qed

end
