(* ===== verification/AsyncRWLock.thy ===== *)
theory AsyncRWLock
  imports Prelude "HOL-Library.Multiset"
begin

text \<open>
  The asynchronous readers-writer lock: \<open>TAsyncReaderWriterLock::TImpl\<close> of
  \<open>yt/yt/core/concurrency/async_rw_lock.cpp\<close>. Requests that must wait are promises in queues, which
  clients may cancel. \<open>WakeNext\<close> drops the spin lock while it sets promises, so other threads can
  run in between; a thread that is inside \<open>WakeNext\<close> with the spin lock dropped is a \<open>waker\<close>, and
  the step relation lets the sections that run under the spin lock interleave in any order.

  A promise that was canceled before it is set stays canceled; one that is set cannot be canceled.
\<close>

section \<open>The lock\<close>

type_synonym promise = nat

record rw_lock =
  ActiveReaderCount :: nat
  HasActiveWriter :: bool
  ReaderPromiseQueue :: "promise list"
  WriterPromiseQueue :: "promise list"

definition rw_init :: rw_lock where
  "rw_init = \<lparr>ActiveReaderCount = 0, HasActiveWriter = False, ReaderPromiseQueue = [], WriterPromiseQueue = []\<rparr>"

text \<open>Where a thread is inside \<open>WakeNext\<close> when the spin lock is not held: about to set the promise of
  a writer, after finding it canceled, or setting the promises of readers, with the number of
  canceled ones so far.\<close>

datatype waker = SetWriter promise | CanceledWriter | SetReaders "promise list" nat

text \<open>The acquire operations take the promise they may have to create; the flag says whether the
  lock was taken at once.\<close>

definition AcquireReader :: "rw_lock \<Rightarrow> promise \<Rightarrow> rw_lock \<times> bool" where
  "AcquireReader l promise =
     (if \<not> HasActiveWriter l \<and> WriterPromiseQueue l = []
      then (l\<lparr>ActiveReaderCount := ActiveReaderCount l + 1\<rparr>, True)
      else (l\<lparr>ReaderPromiseQueue := ReaderPromiseQueue l @ [promise]\<rparr>, False))"

definition AcquireWriter :: "rw_lock \<Rightarrow> promise \<Rightarrow> rw_lock \<times> bool" where
  "AcquireWriter l promise =
     (if ActiveReaderCount l = 0 \<and> \<not> HasActiveWriter l
      then (l\<lparr>HasActiveWriter := True\<rparr>, True)
      else (l\<lparr>WriterPromiseQueue := WriterPromiseQueue l @ [promise]\<rparr>, False))"

text \<open>\<open>WakeNext\<close> up to the point where it drops the spin lock or returns.\<close>

definition WakeNext :: "rw_lock \<Rightarrow> (rw_lock \<times> waker list) res" where
  "WakeNext l =
     (case WriterPromiseQueue l of
        promise # rest \<Rightarrow>
          rbind (verify (\<not> HasActiveWriter l) ''!HasActiveWriter_'') (\<lambda>_.
          Inr (l\<lparr>WriterPromiseQueue := rest, HasActiveWriter := True\<rparr>, [SetWriter promise]))
      | [] \<Rightarrow>
          if ReaderPromiseQueue l \<noteq> []
          then Inr (l\<lparr>ReaderPromiseQueue := [],
                     ActiveReaderCount := ActiveReaderCount l + length (ReaderPromiseQueue l)\<rparr>,
                    [SetReaders (ReaderPromiseQueue l) 0])
          else Inr (l, []))"

definition ReleaseReaders :: "rw_lock \<Rightarrow> nat \<Rightarrow> (rw_lock \<times> waker list) res" where
  "ReleaseReaders l amount =
     rbind (verify (\<not> HasActiveWriter l) ''!HasActiveWriter_'') (\<lambda>_.
     rbind (verify (ActiveReaderCount l \<ge> amount) ''ActiveReaderCount_ >= count'') (\<lambda>_.
     let l' = l\<lparr>ActiveReaderCount := ActiveReaderCount l - amount\<rparr>
     in if ActiveReaderCount l' = 0 then WakeNext l' else Inr (l', [])))"

definition ReleaseReader :: "rw_lock \<Rightarrow> (rw_lock \<times> waker list) res" where
  "ReleaseReader l = ReleaseReaders l 1"

definition ReleaseWriter :: "rw_lock \<Rightarrow> (rw_lock \<times> waker list) res" where
  "ReleaseWriter l =
     rbind (verify (HasActiveWriter l) ''HasActiveWriter_'') (\<lambda>_. WakeNext (l\<lparr>HasActiveWriter := False\<rparr>))"

text \<open>One step of a waker: it sets a promise, with the answer whether the promise was canceled, or
  takes the spin lock again. The flag tells whether the promise was granted.\<close>

definition resume :: "(promise \<Rightarrow> bool) \<Rightarrow> rw_lock \<Rightarrow> waker \<Rightarrow> (rw_lock \<times> waker list) res" where
  "resume canceled l w =
     (case w of
        SetWriter promise \<Rightarrow> Inr (l, if canceled promise then [CanceledWriter] else [])
      | CanceledWriter \<Rightarrow>
          rbind (verify (HasActiveWriter l) ''HasActiveWriter_'') (\<lambda>_. WakeNext (l\<lparr>HasActiveWriter := False\<rparr>))
      | SetReaders [] canceledReaders \<Rightarrow>
          if canceledReaders > 0 then ReleaseReaders l canceledReaders else Inr (l, [])
      | SetReaders (promise # rest) canceledReaders \<Rightarrow>
          Inr (l, [SetReaders rest (if canceled promise then canceledReaders + 1 else canceledReaders)]))"

section \<open>The lock with its clients\<close>

text \<open>Besides the lock: which promises were handed to waiting clients, canceled or set, the wakers,
  and how many reader and writer locks the clients hold.\<close>

record rw_system =
  rw :: rw_lock
  Waiting :: "promise set"
  Canceled :: "promise set"
  Granted :: "promise set"
  NextPromise :: promise
  Wakers :: "waker multiset"
  Readers :: nat
  Writers :: nat

definition rw_start :: rw_system where
  "rw_start = \<lparr>rw = rw_init, Waiting = {}, Canceled = {}, Granted = {}, NextPromise = 0, Wakers = {#}, Readers = 0, Writers = 0\<rparr>"

fun granted_by :: "promise set \<Rightarrow> waker \<Rightarrow> promise set" where
  "granted_by canceled (SetWriter p) = {p} - canceled"
| "granted_by canceled (SetReaders (p # ps) n) = {p} - canceled"
| "granted_by canceled w = {}"

fun sets_writer :: "waker \<Rightarrow> bool" where
  "sets_writer (SetWriter p) = True"
| "sets_writer w = False"

text \<open>A thread inside \<open>WakeNext\<close> makes a step.\<close>

inductive wake_step :: "rw_system \<Rightarrow> rw_system \<Rightarrow> bool" where
  wake: "Wakers s = add_mset w ws \<Longrightarrow> resume (\<lambda>p. p \<in> Canceled s) (rw s) w = Inr (l, new) \<Longrightarrow>
    granted = granted_by (Canceled s) w \<Longrightarrow>
    wake_step s (s\<lparr>rw := l, Wakers := ws + mset new, Granted := Granted s \<union> granted,
      Readers := Readers s + (if sets_writer w then 0 else card granted),
      Writers := Writers s + (if sets_writer w then card granted else 0)\<rparr>)"

text \<open>A client asks for the lock, cancels a request, or releases a lock that it holds.\<close>

inductive client_step :: "rw_system \<Rightarrow> rw_system \<Rightarrow> bool" where
  acquire_reader: "AcquireReader (rw s) (NextPromise s) = (l, taken) \<Longrightarrow>
    client_step s (s\<lparr>rw := l, NextPromise := NextPromise s + 1, Readers := Readers s + (if taken then 1 else 0),
      Waiting := Waiting s \<union> (if taken then {} else {NextPromise s})\<rparr>)"
| acquire_writer: "AcquireWriter (rw s) (NextPromise s) = (l, taken) \<Longrightarrow>
    client_step s (s\<lparr>rw := l, NextPromise := NextPromise s + 1, Writers := Writers s + (if taken then 1 else 0),
      Waiting := Waiting s \<union> (if taken then {} else {NextPromise s})\<rparr>)"
| cancel: "p < NextPromise s \<Longrightarrow> p \<notin> Granted s \<Longrightarrow>
    client_step s (s\<lparr>Canceled := insert p (Canceled s)\<rparr>)"
| release_reader: "Readers s > 0 \<Longrightarrow> ReleaseReader (rw s) = Inr (l, new) \<Longrightarrow>
    client_step s (s\<lparr>rw := l, Readers := Readers s - 1, Wakers := Wakers s + mset new\<rparr>)"
| release_writer: "Writers s > 0 \<Longrightarrow> ReleaseWriter (rw s) = Inr (l, new) \<Longrightarrow>
    client_step s (s\<lparr>rw := l, Writers := Writers s - 1, Wakers := Wakers s + mset new\<rparr>)"

definition rw_step :: "rw_system \<Rightarrow> rw_system \<Rightarrow> bool" where
  "rw_step s t \<longleftrightarrow> client_step s t \<or> wake_step s t"

definition rw_reachable :: "rw_system \<Rightarrow> bool" where
  "rw_reachable s \<longleftrightarrow> rw_step\<^sup>*\<^sup>* rw_start s"

lemma rw_reachable_intros:
  "rw_reachable rw_start"
  "rw_reachable s \<Longrightarrow> client_step s t \<Longrightarrow> rw_reachable t"
  "rw_reachable s \<Longrightarrow> wake_step s t \<Longrightarrow> rw_reachable t"
  by (auto simp: rw_reachable_def rw_step_def intro: rtranclp.rtrancl_into_rtrancl)

lemmas by_client = rw_reachable_intros(2)
lemmas by_waker = rw_reachable_intros(3)

section \<open>The invariant\<close>

text \<open>Locks that a waker accounts for but has not handed out yet.\<close>

fun reader_share :: "waker \<Rightarrow> nat" where
  "reader_share (SetReaders ps n) = length ps + n"
| "reader_share w = 0"

fun writer_share :: "waker \<Rightarrow> nat" where
  "writer_share (SetReaders ps n) = 0"
| "writer_share w = 1"

definition lock_ok :: "rw_lock \<Rightarrow> bool" where
  "lock_ok l \<longleftrightarrow> (HasActiveWriter l \<longrightarrow> ActiveReaderCount l = 0) \<and>
     (\<not> HasActiveWriter l \<and> WriterPromiseQueue l = [] \<longrightarrow> ReaderPromiseQueue l = []) \<and>
     (\<not> HasActiveWriter l \<and> ActiveReaderCount l = 0 \<longrightarrow> WriterPromiseQueue l = [])"

definition shares :: "rw_lock \<Rightarrow> nat \<Rightarrow> nat \<Rightarrow> bool" where
  "shares l r w \<longleftrightarrow> ActiveReaderCount l = r \<and> (if HasActiveWriter l then 1 else 0) = w"

definition reader_shares :: "waker multiset \<Rightarrow> nat" where
  "reader_shares ws = (\<Sum>w\<in>#ws. reader_share w)"

definition writer_shares :: "waker multiset \<Rightarrow> nat" where
  "writer_shares ws = (\<Sum>w\<in>#ws. writer_share w)"

lemma shares_simps [simp]:
  "reader_shares {#} = 0" "reader_shares (add_mset w ws) = reader_share w + reader_shares ws"
  "reader_shares (ws + vs) = reader_shares ws + reader_shares vs"
  "writer_shares {#} = 0" "writer_shares (add_mset w ws) = writer_share w + writer_shares ws"
  "writer_shares (ws + vs) = writer_shares ws + writer_shares vs"
  by (simp_all add: reader_shares_def writer_shares_def)

definition rw_ok :: "rw_system \<Rightarrow> bool" where
  "rw_ok s \<longleftrightarrow> lock_ok (rw s) \<and>
     shares (rw s) (Readers s + reader_shares (Wakers s)) (Writers s + writer_shares (Wakers s))"

text \<open>What the sections under the spin lock promise: they do not fail, keep the lock in order, and
  account for what they hand to new wakers.\<close>

definition hands_over :: "(rw_lock \<times> waker list) res \<Rightarrow> nat \<Rightarrow> nat \<Rightarrow> bool" where
  "hands_over res r w \<longleftrightarrow> (\<exists>l new. res = Inr (l, new) \<and> lock_ok l \<and>
     shares l (r + reader_shares (mset new)) (w + writer_shares (mset new)))"

lemma WakeNext_ok:
  assumes "\<not> HasActiveWriter l" "ActiveReaderCount l = 0"
  shows "hands_over (WakeNext l) 0 0"
  using assms by (cases "WriterPromiseQueue l") (auto simp: WakeNext_def hands_over_def lock_ok_def shares_def)

lemma ReleaseReaders_ok:
  assumes "lock_ok l" "shares l (n + r) 0"
  shows "hands_over (ReleaseReaders l n) r 0"
proof (cases "r = 0")
  case True
  have "hands_over (WakeNext (l\<lparr>ActiveReaderCount := 0\<rparr>)) 0 0"
    by (rule WakeNext_ok) (use assms in \<open>auto simp: shares_def split: if_splits\<close>)
  with True assms show ?thesis by (simp add: ReleaseReaders_def shares_def split: if_splits)
next
  case False
  with assms show ?thesis
    by (auto simp: ReleaseReaders_def hands_over_def shares_def lock_ok_def split: if_splits)
qed

lemma WakeNext_after_writer:
  assumes "lock_ok l" "HasActiveWriter l"
  shows "hands_over (WakeNext (l\<lparr>HasActiveWriter := False\<rparr>)) 0 0"
  by (rule WakeNext_ok) (use assms in \<open>auto simp: lock_ok_def\<close>)

lemma shares_reader: "shares l r w \<Longrightarrow> lock_ok l \<Longrightarrow> 0 < r \<Longrightarrow> w = 0"
  by (auto simp: shares_def lock_ok_def split: if_splits)

lemma shares_writer: "shares l r w \<Longrightarrow> lock_ok l \<Longrightarrow> 0 < w \<Longrightarrow> r = 0 \<and> w = 1 \<and> HasActiveWriter l"
  by (auto simp: shares_def lock_ok_def split: if_splits)

lemma ReleaseReader_ok:
  assumes "rw_ok s" "0 < Readers s"
  shows "hands_over (ReleaseReader (rw s)) (Readers s - 1 + reader_shares (Wakers s)) (Writers s + writer_shares (Wakers s))"
proof -
  have ok: "lock_ok (rw s)" and sh: "shares (rw s) (Readers s + reader_shares (Wakers s)) (Writers s + writer_shares (Wakers s))"
    using assms(1) by (simp_all add: rw_ok_def)
  have w: "Writers s + writer_shares (Wakers s) = 0" by (rule shares_reader [OF sh ok]) (use assms(2) in simp)
  have r: "Readers s + reader_shares (Wakers s) = 1 + (Readers s - 1 + reader_shares (Wakers s))" using assms(2) by simp
  have "shares (rw s) (1 + (Readers s - 1 + reader_shares (Wakers s))) 0" using sh by (simp only: r w)
  from ReleaseReaders_ok [OF ok this] w show ?thesis by (simp add: ReleaseReader_def)
qed

lemma ReleaseWriter_ok:
  assumes "rw_ok s" "0 < Writers s"
  shows "hands_over (ReleaseWriter (rw s)) (Readers s + reader_shares (Wakers s)) (Writers s - 1 + writer_shares (Wakers s))"
proof -
  have ok: "lock_ok (rw s)" and sh: "shares (rw s) (Readers s + reader_shares (Wakers s)) (Writers s + writer_shares (Wakers s))"
    using assms(1) by (simp_all add: rw_ok_def)
  have z: "Readers s + reader_shares (Wakers s) = 0" "Writers s + writer_shares (Wakers s) = 1" "HasActiveWriter (rw s)"
    using shares_writer [OF sh ok] assms(2) by simp_all
  then have "Writers s = 1" "writer_shares (Wakers s) = 0" using assms(2) by linarith+
  with WakeNext_after_writer [OF ok z(3)] z show ?thesis by (simp add: ReleaseWriter_def)
qed

text \<open>What a step of a waker leaves of its share.\<close>

lemma resume_ok:
  assumes "rw_ok s" "Wakers s = add_mset w ws"
  defines "g \<equiv> card (granted_by (Canceled s) w)"
  shows "hands_over (resume (\<lambda>p. p \<in> Canceled s) (rw s) w)
    (Readers s + (if sets_writer w then 0 else g) + reader_shares ws)
    (Writers s + (if sets_writer w then g else 0) + writer_shares ws)"
proof -
  have ok: "lock_ok (rw s)" and sh: "shares (rw s) (Readers s + reader_share w + reader_shares ws) (Writers s + writer_share w + writer_shares ws)"
    using assms(1,2) by (simp_all add: rw_ok_def add.assoc)
  show ?thesis
  proof (cases w)
    case (SetWriter p)
    then show ?thesis using ok sh by (auto simp: resume_def hands_over_def g_def insert_Diff_if add_ac)
  next
    case CanceledWriter
    with shares_writer [OF sh ok] have z: "Readers s + reader_shares ws = 0" "Writers s + writer_shares ws = 0" "HasActiveWriter (rw s)"
      by auto
    with WakeNext_after_writer [OF ok z(3)] CanceledWriter show ?thesis by (simp add: resume_def g_def)
  next
    case (SetReaders ps n)
    show ?thesis
    proof (cases ps)
      case (Cons p qs)
      then show ?thesis using SetReaders ok sh by (auto simp: resume_def hands_over_def g_def insert_Diff_if add_ac)
    next
      case Nil
      show ?thesis
      proof (cases "0 < n")
        case True
        have "Writers s + writer_shares ws = 0"
          using shares_reader [OF sh ok] True SetReaders Nil by simp
        with ReleaseReaders_ok [OF ok, of n "Readers s + reader_shares ws"] sh True SetReaders Nil show ?thesis
          by (simp add: resume_def g_def add_ac)
      next
        case False
        then show ?thesis using SetReaders Nil ok sh by (auto simp: resume_def hands_over_def g_def insert_Diff_if add_ac)
      qed
    qed
  qed
qed

lemma rw_ok_start: "rw_ok rw_start"
  by (simp add: rw_ok_def rw_start_def rw_init_def lock_ok_def shares_def)

lemma rw_ok_client:
  assumes "client_step s t" "rw_ok s"
  shows "rw_ok t"
  using assms(1)
proof cases
  case (release_reader l new)
  with ReleaseReader_ok [OF assms(2)] show ?thesis by (auto simp: rw_ok_def hands_over_def add.assoc)
next
  case (release_writer l new)
  with ReleaseWriter_ok [OF assms(2)] show ?thesis by (auto simp: rw_ok_def hands_over_def add.assoc)
qed (use assms(2) in \<open>auto simp: rw_ok_def AcquireReader_def AcquireWriter_def lock_ok_def shares_def split: if_splits\<close>)

lemma rw_ok_wake:
  assumes "wake_step s t" "rw_ok s"
  shows "rw_ok t"
  using assms(1)
proof cases
  case (wake w ws l new granted)
  with resume_ok [OF assms(2) wake(2)] show ?thesis by (auto simp: rw_ok_def hands_over_def add.assoc)
qed

interpretation rw_order: invariant_system rw_start rw_step rw_ok
  by unfold_locales (auto simp: rw_step_def intro: rw_ok_start rw_ok_client rw_ok_wake)

lemma rw_reachable_ok: "rw_reachable s \<Longrightarrow> rw_ok s"
  by (simp add: rw_reachable_def rw_order.reachable_inv)

section \<open>No request is lost\<close>

definition queued :: "rw_lock \<Rightarrow> promise set" where
  "queued l = set (ReaderPromiseQueue l) \<union> set (WriterPromiseQueue l)"

fun carried :: "waker \<Rightarrow> promise set" where
  "carried (SetWriter p) = {p}"
| "carried CanceledWriter = {}"
| "carried (SetReaders ps n) = set ps"

definition kept :: "rw_lock \<Rightarrow> waker multiset \<Rightarrow> promise set" where
  "kept l ws = queued l \<union> (\<Union>w\<in>set_mset ws. carried w)"

definition accounted :: "rw_system \<Rightarrow> bool" where
  "accounted s \<longleftrightarrow> Waiting s \<subseteq> Granted s \<union> Canceled s \<union> kept (rw s) (Wakers s)"

lemma kept_simps: "kept l (ws + vs) = kept l ws \<union> kept l vs" "kept l (add_mset w ws) = carried w \<union> kept l ws"
  by (auto simp: kept_def)

lemma WakeNext_kept: "WakeNext l = Inr (l', new) \<Longrightarrow> queued l \<subseteq> kept l' (mset new)"
  by (auto simp: WakeNext_def kept_def queued_def split: list.splits if_splits)

lemma ReleaseReaders_kept: "ReleaseReaders l n = Inr (l', new) \<Longrightarrow> queued l \<subseteq> kept l' (mset new)"
  using WakeNext_kept [of "l\<lparr>ActiveReaderCount := ActiveReaderCount l - n\<rparr>" l' new]
  by (auto simp: ReleaseReaders_def Let_def kept_def queued_def split: if_splits)

lemma ReleaseWriter_kept: "ReleaseWriter l = Inr (l', new) \<Longrightarrow> queued l \<subseteq> kept l' (mset new)"
  using WakeNext_kept [of "l\<lparr>HasActiveWriter := False\<rparr>" l' new]
  by (auto simp: ReleaseWriter_def queued_def)

lemma resume_kept:
  assumes "resume (\<lambda>p. p \<in> C) l w = Inr (l', new)"
  shows "queued l \<union> carried w \<subseteq> granted_by C w \<union> C \<union> kept l' (mset new)"
proof (cases w)
  case (SetWriter p)
  then show ?thesis using assms by (auto simp: resume_def kept_def)
next
  case CanceledWriter
  then show ?thesis
    using assms WakeNext_kept [of "l\<lparr>HasActiveWriter := False\<rparr>" l' new] by (auto simp: resume_def queued_def)
next
  case (SetReaders ps n)
  then show ?thesis
    using assms ReleaseReaders_kept [of l n l' new] by (cases ps) (auto simp: resume_def kept_def split: if_splits)
qed

lemma accounted_client:
  assumes "client_step s t" "accounted s"
  shows "accounted t"
  using assms(1)
proof cases
  case (release_reader l new)
  with assms(2) ReleaseReaders_kept [of "rw s" 1 l new] show ?thesis
    by (auto simp: accounted_def kept_simps ReleaseReader_def) (auto simp: kept_def)
next
  case (release_writer l new)
  with assms(2) ReleaseWriter_kept [of "rw s" l new] show ?thesis
    by (auto simp: accounted_def kept_simps) (auto simp: kept_def)
qed (use assms(2) in \<open>auto simp: accounted_def kept_def queued_def AcquireReader_def AcquireWriter_def split: if_splits\<close>)

lemma accounted_wake:
  assumes "wake_step s t" "accounted s"
  shows "accounted t"
  using assms(1)
proof cases
  case (wake w ws l new granted)
  with assms(2) resume_kept [OF wake(3)] show ?thesis by (simp add: accounted_def kept_def) blast
qed

interpretation rw_requests: invariant_system rw_start rw_step accounted
proof
  show "accounted rw_start" by (simp add: accounted_def rw_start_def)
qed (auto simp: rw_step_def intro: accounted_client accounted_wake)

lemma rw_reachable_accounted: "rw_reachable s \<Longrightarrow> accounted s"
  by (simp add: rw_reachable_def rw_requests.reachable_inv)

section \<open>Wakers finish\<close>

fun waker_work :: "waker \<Rightarrow> nat" where
  "waker_work (SetWriter p) = 2"
| "waker_work CanceledWriter = 1"
| "waker_work (SetReaders ps n) = 1 + 2 * length ps"

definition lock_work :: "rw_lock \<Rightarrow> nat" where
  "lock_work l = 3 * length (ReaderPromiseQueue l) + 3 * length (WriterPromiseQueue l)"

definition system_work :: "rw_system \<Rightarrow> nat" where
  "system_work s = lock_work (rw s) + (\<Sum>w\<in>#Wakers s. waker_work w)"

lemma WakeNext_work: "WakeNext l = Inr (l', new) \<Longrightarrow> lock_work l' + (\<Sum>w\<in>#mset new. waker_work w) \<le> lock_work l"
  by (cases "ReaderPromiseQueue l") (auto simp: WakeNext_def lock_work_def split: list.splits if_splits)

lemma ReleaseReaders_work:
  "ReleaseReaders l n = Inr (l', new) \<Longrightarrow> lock_work l' + (\<Sum>w\<in>#mset new. waker_work w) \<le> lock_work l"
  using WakeNext_work [of "l\<lparr>ActiveReaderCount := ActiveReaderCount l - n\<rparr>" l' new]
  by (auto simp: ReleaseReaders_def Let_def lock_work_def split: if_splits)

lemma resume_work:
  assumes "resume canceled l w = Inr (l', new)"
  shows "lock_work l' + (\<Sum>v\<in>#mset new. waker_work v) < lock_work l + waker_work w"
proof (cases w)
  case CanceledWriter
  then show ?thesis
    using assms WakeNext_work [of "l\<lparr>HasActiveWriter := False\<rparr>" l' new] by (auto simp: resume_def lock_work_def)
next
  case (SetReaders ps n)
  then show ?thesis
    using assms ReleaseReaders_work [of l n l' new] by (cases ps) (auto simp: resume_def split: if_splits)
qed (use assms in \<open>auto simp: resume_def\<close>)

lemma wake_step_work:
  assumes "wake_step s t"
  shows "system_work t < system_work s"
  using assms
proof cases
  case (wake w ws l new granted)
  with resume_work [OF wake(3)] show ?thesis by (simp add: system_work_def)
qed

lemma wake_step_enabled:
  assumes "rw_ok s" "Wakers s \<noteq> {#}"
  shows "\<exists>t. wake_step s t"
proof -
  obtain w ws where w: "Wakers s = add_mset w ws" using assms(2) by (metis multiset_cases)
  from resume_ok [OF assms(1) w] obtain l new where "resume (\<lambda>p. p \<in> Canceled s) (rw s) w = Inr (l, new)"
    by (auto simp: hands_over_def)
  with w show ?thesis by (blast intro: wake_step.wake)
qed

lemma wakers_finish:
  assumes "rw_reachable s"
  shows "\<exists>t. wake_step\<^sup>*\<^sup>* s t \<and> Wakers t = {#}"
  using assms
proof (induction "system_work s" arbitrary: s rule: less_induct)
  case less
  show ?case
  proof (cases "Wakers s = {#}")
    case False
    then obtain t where t: "wake_step s t" using wake_step_enabled rw_reachable_ok less.prems by blast
    then show ?thesis
      using less.hyps [OF wake_step_work [OF t]] less.prems by (meson by_waker converse_rtranclp_into_rtranclp)
  qed blast
qed

lemma wakers_reachable: "wake_step\<^sup>*\<^sup>* s t \<Longrightarrow> rw_reachable s \<Longrightarrow> rw_reachable t"
  by (induction rule: rtranclp_induct) (auto intro: by_waker)

text \<open>A run: a writer takes the lock, a reader has to wait, the writer leaves.\<close>

definition sample_held :: rw_system where
  "sample_held = rw_start\<lparr>rw := rw_init\<lparr>HasActiveWriter := True\<rparr>, NextPromise := 1, Writers := 1\<rparr>"

definition sample_woken :: rw_system where
  "sample_woken = rw_start\<lparr>rw := rw_init\<lparr>ActiveReaderCount := 1\<rparr>, NextPromise := 2, Waiting := {1},
     Wakers := {#SetReaders [1] 0#}\<rparr>"

lemmas sample_defs = sample_held_def sample_woken_def rw_start_def rw_init_def AcquireReader_def AcquireWriter_def
  ReleaseWriter_def WakeNext_def numeral_2_eq_2

lemma sample_held_reachable: "rw_reachable sample_held"
  using by_client [OF rw_reachable_intros(1) acquire_writer [of rw_start "rw_init\<lparr>HasActiveWriter := True\<rparr>" True]]
  by (simp add: sample_defs)

lemma sample_woken_reachable: "rw_reachable sample_woken"
proof -
  let ?l = "(rw sample_held)\<lparr>ReaderPromiseQueue := [1]\<rparr>"
  let ?s = "sample_held\<lparr>rw := ?l, NextPromise := 2, Waiting := {1}\<rparr>"
  have "rw_reachable ?s"
    using by_client [OF sample_held_reachable acquire_reader [of sample_held ?l False]] by (simp add: sample_defs)
  from by_client [OF this release_writer [of ?s "rw_init\<lparr>ActiveReaderCount := 1\<rparr>" "[SetReaders [1] 0]"]]
  show ?thesis by (simp add: sample_defs)
qed

section \<open>Properties\<close>

text \<open>C3. Mutual exclusion, for every interleaving of any number of threads: at most one writer
  lock is held, and then no reader lock. No check of the lock ever fails as long as clients
  release only locks they hold.\<close>

theorem rw_lock_exclusion:
  assumes "rw_reachable s"
  shows "Writers s \<le> 1 \<and> (Writers s = 1 \<longrightarrow> Readers s = 0) \<and>
    (0 < Readers s \<longrightarrow> (\<exists>r. ReleaseReader (rw s) = Inr r)) \<and>
    (0 < Writers s \<longrightarrow> (\<exists>r. ReleaseWriter (rw s) = Inr r)) \<and>
    (\<forall>w\<in>#Wakers s. \<exists>r. resume (\<lambda>p. p \<in> Canceled s) (rw s) w = Inr r)"
proof -
  have ok: "rw_ok s" by (rule rw_reachable_ok [OF assms])
  have "\<exists>r. resume (\<lambda>p. p \<in> Canceled s) (rw s) w = Inr r" if "w \<in># Wakers s" for w
    using resume_ok [OF ok, of w "Wakers s - {#w#}"] that by (auto simp: hands_over_def)
  moreover have "Writers s \<le> 1 \<and> (Writers s = 1 \<longrightarrow> Readers s = 0)"
    using ok by (auto simp: rw_ok_def shares_def lock_ok_def split: if_splits)
  ultimately show ?thesis
    using ReleaseReader_ok [OF ok] ReleaseWriter_ok [OF ok] by (auto simp: hands_over_def)
qed

theorem rw_lock_exclusion_witness:
  "rw_reachable sample_held \<and> Writers sample_held = 1 \<and> Readers sample_held = 0 \<and> (\<exists>r. ReleaseWriter (rw sample_held) = Inr r)"
  using rw_lock_exclusion [OF sample_held_reachable] sample_held_reachable by (simp add: sample_held_def)

text \<open>C19. Threads inside \<open>WakeNext\<close> always finish: there is no infinite sequence of their steps,
  whatever the clients canceled.\<close>

theorem wake_steps_terminate: "wfp (\<lambda>t s. wake_step s t)"
  using wfp_if_convertible_to_nat [of "\<lambda>t s. wake_step s t" system_work] wake_step_work by blast

text \<open>C10. No wakeup is lost: from every reachable state the threads inside \<open>WakeNext\<close> run to an end,
  and when they are done and no lock is held, every request that had to wait has been granted or
  was canceled, and nobody waits in a queue.\<close>

theorem rw_lock_answers_all:
  assumes "rw_reachable s"
  shows "(\<exists>t. wake_step\<^sup>*\<^sup>* s t \<and> Wakers t = {#}) \<and>
    (\<forall>t. wake_step\<^sup>*\<^sup>* s t \<and> Wakers t = {#} \<and> Readers t = 0 \<and> Writers t = 0 \<longrightarrow>
      Waiting t \<subseteq> Granted t \<union> Canceled t \<and> ReaderPromiseQueue (rw t) = [] \<and> WriterPromiseQueue (rw t) = [])"
proof (intro conjI allI impI)
  show "\<exists>t. wake_step\<^sup>*\<^sup>* s t \<and> Wakers t = {#}" by (rule wakers_finish [OF assms])
  fix t assume t: "wake_step\<^sup>*\<^sup>* s t \<and> Wakers t = {#} \<and> Readers t = 0 \<and> Writers t = 0"
  then have r: "rw_reachable t" using wakers_reachable assms by blast
  show q: "ReaderPromiseQueue (rw t) = []" "WriterPromiseQueue (rw t) = []"
    using rw_reachable_ok [OF r] t by (auto simp: rw_ok_def shares_def lock_ok_def split: if_splits)
  show "Waiting t \<subseteq> Granted t \<union> Canceled t"
    using rw_reachable_accounted [OF r] t q by (simp add: accounted_def kept_def queued_def)
qed

theorem rw_lock_answers_all_witness:
  "rw_reachable sample_woken \<and> Waiting sample_woken = {1} \<and> Wakers sample_woken \<noteq> {#} \<and>
   (\<exists>t. wake_step\<^sup>*\<^sup>* sample_woken t \<and> Wakers t = {#})"
  using rw_lock_answers_all [OF sample_woken_reachable] sample_woken_reachable by (simp add: sample_woken_def)

end
