(* ===== verification/YPath.thy ===== *)
theory YPath
  imports Prelude "HOL-Library.Sublist"
begin

text \<open>
  Paths: the tokens and the tokenizer of YPath and the helpers built on them
  (\<open>token.cpp\<close>, \<open>tokenizer.cpp\<close>, \<open>helpers.cpp\<close> and \<open>helpers-inl.h\<close> of
  \<open>yt/yt/core/ypath\<close>). Paths are strings of bytes. A tokenizer holds views into its path; they are
  strings here, and moving a pointer forward is dropping characters. The state of a tokenizer
  whose \<open>Advance\<close> threw is not modelled.
\<close>

section \<open>Tokens and literals\<close>

datatype ETokenType = Literal | Slash | Ampersand | At | Asterisk | StartOfStream | EndOfStream | Range

definition IsSpecialCharacter :: "char \<Rightarrow> bool" where
  "IsSpecialCharacter ch \<longleftrightarrow>
     ch = CHR 0x5C \<or> ch = CHR ''/'' \<or> ch = CHR ''@'' \<or> ch = CHR ''*'' \<or> ch = CHR ''&'' \<or> ch = CHR ''['' \<or> ch = CHR ''{''"

definition IntToHexLowercase :: string where
  "IntToHexLowercase = ''0123456789abcdef''"

definition append_literal_char :: "char \<Rightarrow> string" where
  "append_literal_char ch =
     (let code = of_char ch :: nat in
      if IsSpecialCharacter ch then [CHR 0x5C, ch]
      else if code < 32 \<or> code > 127
      then [CHR 0x5C, CHR ''x'', IntToHexLowercase ! (code div 16), IntToHexLowercase ! (code mod 16)]
      else [ch])"

fun AppendYPathLiteral :: "string \<Rightarrow> string \<Rightarrow> string" where
  "AppendYPathLiteral builder [] = builder"
| "AppendYPathLiteral builder (ch # rest) = AppendYPathLiteral (builder @ append_literal_char ch) rest"

definition ToYPathLiteral :: "string \<Rightarrow> string" where
  "ToYPathLiteral v = AppendYPathLiteral [] v"

definition IsSpecialListKey :: "string \<Rightarrow> bool" where
  "IsSpecialListKey key \<longleftrightarrow>
     key = ''begin'' \<or> key = ''end'' \<or> prefix ''before:'' key \<or> prefix ''after:'' key"

text \<open>The first character of an empty token is read out of range.\<close>

definition ExtractListIndex :: "string \<Rightarrow> string res" where
  "ExtractListIndex token =
     (case token of
        [] \<Rightarrow> Inl (Undefined ''token[0]'')
      | ch # _ \<Rightarrow>
          if (of_char CHR ''0'' :: nat) \<le> of_char ch \<and> (of_char ch :: nat) \<le> of_char CHR ''9'' then Inr token
          else (case dropWhile (\<lambda>c. c \<noteq> CHR '':'') token of [] \<Rightarrow> Inr token | _ # after \<Rightarrow> Inr after))"

definition TryAdjustListIndex :: "int \<Rightarrow> int \<Rightarrow> int option" where
  "TryAdjustListIndex index cnt =
     (let adjustedIndex = (if index \<ge> 0 then index else index + cnt) in
      if adjustedIndex < 0 \<or> adjustedIndex \<ge> cnt then None else Some adjustedIndex)"

section \<open>The tokenizer\<close>

record tokenizer =
  Path :: string
  Type :: ETokenType
  PreviousType :: ETokenType
  Token :: string
  Input :: string
  LiteralValue :: string

definition Reset :: "string \<Rightarrow> tokenizer" where
  "Reset path = \<lparr>Path = path, Type = StartOfStream, PreviousType = StartOfStream, Token = [], Input = path, LiteralValue = []\<rparr>"

definition SetType :: "tokenizer \<Rightarrow> ETokenType \<Rightarrow> tokenizer" where
  "SetType t ty = t\<lparr>PreviousType := Type t, Type := ty\<rparr>"

definition ThrowMalformedEscapeSequence :: "'a res" where
  "ThrowMalformedEscapeSequence = Inl (Thrown ''Malformed escape sequence in YPath'')"

definition ParseHexDigit :: "char \<Rightarrow> nat res" where
  "ParseHexDigit ch =
     (let code = of_char ch :: nat in
      if of_char CHR ''0'' \<le> code \<and> code \<le> of_char CHR ''9'' then Inr (code - of_char CHR ''0'')
      else if of_char CHR ''a'' \<le> code \<and> code \<le> of_char CHR ''f'' then Inr (code - of_char CHR ''a'' + 10)
      else if of_char CHR ''A'' \<le> code \<and> code \<le> of_char CHR ''F'' then Inr (code - of_char CHR ''A'' + 10)
      else ThrowMalformedEscapeSequence)"

text \<open>Given the text after the backslash, the number of characters read with the backslash and the
  character they stand for.\<close>

definition AdvanceEscaped :: "string \<Rightarrow> (nat \<times> char) res" where
  "AdvanceEscaped current =
     (case current of
        [] \<Rightarrow> Inl (Thrown ''Unexpected end-of-string in YPath while parsing escape sequence'')
      | ch # rest \<Rightarrow>
          if IsSpecialCharacter ch then Inr (2, ch)
          else if ch = CHR ''x'' then
            (case rest of
               h # l # _ \<Rightarrow> rbind (ParseHexDigit h) (\<lambda>hi. rbind (ParseHexDigit l) (\<lambda>lo. Inr (4, char_of (hi * 16 + lo))))
             | _ \<Rightarrow> ThrowMalformedEscapeSequence)
          else ThrowMalformedEscapeSequence)"

definition is_range_start :: "char \<Rightarrow> bool" where
  "is_range_start ch \<longleftrightarrow> ch = CHR ''['' \<or> ch = CHR ''{''"

definition punctuation :: "char \<Rightarrow> ETokenType option" where
  "punctuation ch =
     (if ch = CHR ''/'' then Some Slash else if ch = CHR ''@'' then Some At
      else if ch = CHR ''&'' then Some Ampersand else if ch = CHR ''*'' then Some Asterisk else None)"

text \<open>The loop of \<open>Advance\<close>: the text between the start of the input and the current position, the
  text from there on, and the literal so far. The result is the type, the token and the literal.\<close>

function advance_loop :: "string \<Rightarrow> string \<Rightarrow> string \<Rightarrow> (ETokenType \<times> string \<times> string) res" where
  "advance_loop consumed [] literal = Inr (Literal, consumed, literal)"
| "advance_loop consumed (ch # rest) literal =
     (if is_range_start ch then
        Inr (if consumed = [] then (Range, ch # rest, literal) else (Literal, consumed, literal))
      else case punctuation ch of
        Some ty \<Rightarrow> Inr (if consumed = [] then (ty, [ch], literal) else (Literal, consumed, literal))
      | None \<Rightarrow>
          if ch = CHR 0x5C then
            rbind (AdvanceEscaped rest) (\<lambda>(n, c).
              advance_loop (consumed @ take n (ch # rest)) (drop (n - 1) rest) (literal @ [c]))
          else advance_loop (consumed @ [ch]) rest (literal @ [ch]))"
  by pat_completeness auto
termination
  by (relation "measure (\<lambda>(_, current, _). length current)") auto

definition Advance :: "tokenizer \<Rightarrow> tokenizer res" where
  "Advance t =
     (let t = t\<lparr>Input := drop (length (Token t)) (Input t), LiteralValue := []\<rparr> in
      if Input t = [] then Inr ((SetType t EndOfStream)\<lparr>Token := []\<rparr>)
      else
        (let t = SetType t Literal in
         rbind (advance_loop [] (Input t) []) (\<lambda>(ty, token, literal).
           let t = (if ty = Literal then t else SetType t ty)
           in Inr (t\<lparr>Token := token, LiteralValue := literal\<rparr>))))"

definition GetPrefix :: "tokenizer \<Rightarrow> string" where
  "GetPrefix t = take (length (Path t) - length (Input t)) (Path t)"

definition GetPrefixPlusToken :: "tokenizer \<Rightarrow> string" where
  "GetPrefixPlusToken t = take (length (Path t) - length (Input t) + length (Token t)) (Path t)"

definition GetSuffix :: "tokenizer \<Rightarrow> string" where
  "GetSuffix t = drop (length (Token t)) (Input t)"

definition Expect :: "tokenizer \<Rightarrow> ETokenType \<Rightarrow> unit res" where
  "Expect t expectedType =
     (if expectedType = Type t then Inr ()
      else if Type t = EndOfStream then
        (if PreviousType t = Slash
         then Inl (Thrown ''Expected token in YPath but found end-of-string; please note that YPath cannot normally end with a slash'')
         else Inl (Thrown ''Expected token in YPath but found end-of-string''))
      else Inl (Thrown ''Expected token in YPath but found another token''))"

definition Skip :: "tokenizer \<Rightarrow> ETokenType \<Rightarrow> (tokenizer \<times> bool) res" where
  "Skip t expectedType =
     (if Type t = expectedType then rbind (Advance t) (\<lambda>t. Inr (t, True)) else Inr (t, False))"

section \<open>What one step reads\<close>

text \<open>The characters that end a literal.\<close>

definition ends_literal :: "string \<Rightarrow> bool" where
  "ends_literal s \<longleftrightarrow> s = [] \<or> is_range_start (hd s) \<or> punctuation (hd s) \<noteq> None"

lemma AdvanceEscaped_length: "AdvanceEscaped s = Inr (n, c) \<Longrightarrow> 2 \<le> n \<and> n \<le> Suc (length s)"
  by (auto simp: AdvanceEscaped_def ThrowMalformedEscapeSequence_def split: list.splits if_splits)

lemma ends_literal_simps [simp]:
  "ends_literal []" "ends_literal (c # s) \<longleftrightarrow> is_range_start c \<or> punctuation c \<noteq> None"
  by (simp_all add: ends_literal_def)

lemma advance_loop_literal:
  "advance_loop consumed s literal = Inr (ty, token, literal') \<Longrightarrow> consumed \<noteq> [] \<Longrightarrow>
   ty = Literal \<and> (\<exists>rest. consumed @ s = token @ rest \<and> ends_literal rest) \<and> length consumed \<le> length token \<and>
   length literal \<le> length literal'"
proof (induction consumed s literal rule: advance_loop.induct)
  case (2 consumed ch rest literal)
  show ?case
  proof (cases "is_range_start ch \<or> punctuation ch \<noteq> None")
    case True
    then show ?thesis using 2(3,4) by (auto split: option.splits if_splits)
  next
    case plain: False
    show ?thesis
    proof (cases "ch = CHR 0x5C")
      case True
      with 2(3) plain obtain n c where e: "AdvanceEscaped rest = Inr (n, c)"
        "advance_loop (consumed @ take n (ch # rest)) (drop (n - 1) rest) (literal @ [c]) = Inr (ty, token, literal')"
        by auto
      have n: "2 \<le> n" using AdvanceEscaped_length [OF e(1)] by simp
      then have "take n (ch # rest) @ drop (n - 1) rest = ch # rest" by (cases n) auto
      with 2(1) [OF _ _ True e(1) refl e(2)] plain n 2(4) show ?thesis by auto
    next
      case False
      with 2(2) [OF _ _ False] 2(3) plain show ?thesis by fastforce
    qed
  qed
qed auto

text \<open>The first token of a non-empty input.\<close>

lemma advance_loop_first:
  assumes "advance_loop [] s [] = Inr (ty, token, literal)" "s \<noteq> []"
  shows "token \<noteq> []" "\<exists>rest. s = token @ rest \<and>
    (case ty of Literal \<Rightarrow> literal \<noteq> [] \<and> \<not> ends_literal s \<and> ends_literal rest
     | Range \<Rightarrow> is_range_start (hd s) \<and> rest = [] \<and> literal = []
     | _ \<Rightarrow> \<not> is_range_start (hd s) \<and> punctuation (hd s) = Some ty \<and> token = [hd s] \<and> literal = [])"
proof -
  obtain ch cs where s: "s = ch # cs" using assms(2) by (cases s) auto
  have "token \<noteq> [] \<and> (\<exists>rest. s = token @ rest \<and>
    (case ty of Literal \<Rightarrow> literal \<noteq> [] \<and> \<not> ends_literal s \<and> ends_literal rest
     | Range \<Rightarrow> is_range_start (hd s) \<and> rest = [] \<and> literal = []
     | _ \<Rightarrow> \<not> is_range_start (hd s) \<and> punctuation (hd s) = Some ty \<and> token = [hd s] \<and> literal = []))"
  proof (cases "is_range_start ch \<or> punctuation ch \<noteq> None")
    case True
    then show ?thesis
      using assms(1) s by (auto simp: punctuation_def split: option.splits if_splits)
  next
    case plain: False
    show ?thesis
    proof (cases "ch = CHR 0x5C")
      case True
      with assms(1) plain s obtain n c where e: "AdvanceEscaped cs = Inr (n, c)"
        "advance_loop (take n (ch # cs)) (drop (n - 1) cs) [c] = Inr (ty, token, literal)"
        by auto
      have n: "2 \<le> n" using AdvanceEscaped_length [OF e(1)] by simp
      then have all: "take n (ch # cs) @ drop (n - 1) cs = ch # cs" and ne: "take n (ch # cs) \<noteq> []" by (cases n; auto)+
      note l = advance_loop_literal [OF e(2) ne]
      then have "token \<noteq> []" "literal \<noteq> []" using ne by auto
      with l all plain s show ?thesis by auto
    next
      case False
      with assms(1) plain s have "advance_loop [ch] cs [ch] = Inr (ty, token, literal)" by simp
      note l = advance_loop_literal [OF this]
      then have "token \<noteq> []" "literal \<noteq> []" by auto
      with l plain s show ?thesis by auto
    qed
  qed
  then show "token \<noteq> []" "\<exists>rest. s = token @ rest \<and>
    (case ty of Literal \<Rightarrow> literal \<noteq> [] \<and> \<not> ends_literal s \<and> ends_literal rest
     | Range \<Rightarrow> is_range_start (hd s) \<and> rest = [] \<and> literal = []
     | _ \<Rightarrow> \<not> is_range_start (hd s) \<and> punctuation (hd s) = Some ty \<and> token = [hd s] \<and> literal = [])"
    by blast+
qed

lemma Advance_suffix:
  assumes "Advance t = Inr t'"
  shows "GetSuffix t = [] \<Longrightarrow> Type t' = EndOfStream"
    and "GetSuffix t \<noteq> [] \<Longrightarrow> Type t' \<noteq> EndOfStream \<and> Type t' \<noteq> StartOfStream \<and> Token t' \<noteq> [] \<and> GetSuffix t = Token t' @ GetSuffix t'"
    and "Path t' = Path t" "Input t' = GetSuffix t"
proof -
  show "Path t' = Path t" "Input t' = GetSuffix t"
    using assms by (auto simp: Advance_def GetSuffix_def SetType_def Let_def split: if_splits)
  show "Type t' = EndOfStream" if "GetSuffix t = []"
    using assms that by (auto simp: Advance_def GetSuffix_def SetType_def Let_def)
  assume ne: "GetSuffix t \<noteq> []"
  with assms obtain ty token literal where l: "advance_loop [] (GetSuffix t) [] = Inr (ty, token, literal)"
    "Type t' = ty" "Token t' = token"
    by (auto simp: Advance_def GetSuffix_def SetType_def Let_def split: if_splits)
  have "ty \<noteq> EndOfStream" "ty \<noteq> StartOfStream"
    using advance_loop_first(2) [OF l(1) ne] by (auto simp: punctuation_def split: if_splits)
  moreover have "GetSuffix t' = drop (length token) (GetSuffix t)"
    using \<open>Input t' = GetSuffix t\<close> l(3) by (simp add: GetSuffix_def [of t'])
  ultimately show
    "Type t' \<noteq> EndOfStream \<and> Type t' \<noteq> StartOfStream \<and> Token t' \<noteq> [] \<and> GetSuffix t = Token t' @ GetSuffix t'"
    using advance_loop_first [OF l(1) ne] l(2,3) by auto
qed

lemma Advance_shortens:
  assumes "Advance t = Inr t'" "Type t' \<noteq> EndOfStream"
  shows "length (GetSuffix t') < length (GetSuffix t)"
proof (cases "GetSuffix t = []")
  case False
  with Advance_suffix(2) [OF assms(1)] have "GetSuffix t = Token t' @ GetSuffix t'" "Token t' \<noteq> []" by auto
  then show ?thesis by simp
qed (use Advance_suffix(1) [OF assms(1)] assms(2) in simp)

section \<open>Loops over tokens\<close>

function has_prefix_loop :: "tokenizer \<Rightarrow> tokenizer \<Rightarrow> bool res" where
  "has_prefix_loop fullTokenizer prefixTokenizer =
     rbind (Advance prefixTokenizer) (\<lambda>p.
       if Type p = EndOfStream then Inr True
       else rbind (Advance fullTokenizer) (\<lambda>f.
         if Type f = EndOfStream then Inr False
         else if Token p \<noteq> Token f then Inr False
         else has_prefix_loop f p))"
  by pat_completeness auto
termination
  by (relation "measure (\<lambda>(_, p). length (GetSuffix p))") (auto intro: Advance_shortens)

declare has_prefix_loop.simps [simp del]

definition HasPrefix :: "string \<Rightarrow> string \<Rightarrow> bool res" where
  "HasPrefix fullPath prefixPath = has_prefix_loop (Reset fullPath) (Reset prefixPath)"

function escape_loop :: "tokenizer \<Rightarrow> string \<Rightarrow> string res" where
  "escape_loop t builder =
     rbind (Advance t) (\<lambda>t.
       if Type t = EndOfStream then Inr builder
       else if Type t = Literal then escape_loop t (AppendYPathLiteral builder (LiteralValue t))
       else escape_loop t (builder @ Token t))"
  by pat_completeness auto
termination
  by (relation "measure (\<lambda>(t, _). length (GetSuffix t))") (auto intro: Advance_shortens)

declare escape_loop.simps [simp del]

definition TryEscapeNonAsciiYPathLiterals :: "string \<Rightarrow> string res" where
  "TryEscapeNonAsciiYPathLiterals unparsedYPath =
     (if unparsedYPath = [] then Inr unparsedYPath else escape_loop (Reset unparsedYPath) [])"

definition strip_slash :: "string \<Rightarrow> string" where
  "strip_slash pre = (if pre \<noteq> [] \<and> last pre = CHR ''/'' then butlast pre else pre)"

text \<open>The loops below test the type before they advance.\<close>

definition tokens_left :: "tokenizer \<Rightarrow> nat" where
  "tokens_left t = 2 * length (GetSuffix t) + (if Type t = EndOfStream then 0 else 1)"

lemma Advance_tokens_left:
  assumes "Type t \<noteq> EndOfStream" "Advance t = Inr t'"
  shows "tokens_left t' < tokens_left t"
proof (cases "GetSuffix t = []")
  case True
  with Advance_suffix(1,4) [OF assms(2)] assms(1) show ?thesis by (simp add: tokens_left_def GetSuffix_def [of t'])
next
  case False
  with Advance_shortens [OF assms(2)] Advance_suffix(2) [OF assms(2)] assms(1) show ?thesis
    by (simp add: tokens_left_def)
qed

text \<open>Falling out of the loop is not supposed to happen.\<close>

function dir_name_loop :: "tokenizer \<Rightarrow> (string \<times> string) res" where
  "dir_name_loop t =
     (if Type t = EndOfStream then Inl (Undefined ''Y_UNREACHABLE'')
      else if GetSuffix t = [] then Inr (strip_slash (GetPrefix t), Token t)
      else rbind (Advance t) dir_name_loop)"
  by pat_completeness auto
termination
  by (relation "measure tokens_left") (auto intro: Advance_tokens_left)

definition DirNameAndBaseName :: "string \<Rightarrow> (string \<times> string) res" where
  "DirNameAndBaseName path = (if path = [] then Inr ([], []) else dir_name_loop (Reset path))"

function attributes_loop :: "tokenizer \<Rightarrow> bool res" where
  "attributes_loop t =
     (if Type t = EndOfStream then Inr False
      else if Type t = At then Inr True
      else rbind (Advance t) attributes_loop)"
  by pat_completeness auto
termination
  by (relation "measure tokens_left") (auto intro: Advance_tokens_left)

definition IsPathPointingToAttributes :: "string \<Rightarrow> bool res" where
  "IsPathPointingToAttributes path = attributes_loop (Reset path)"

definition CheckPathDoesNotPointToAttributes :: "string \<Rightarrow> unit res" where
  "CheckPathDoesNotPointToAttributes path =
     rbind (IsPathPointingToAttributes path) (\<lambda>b.
       throw_if b ''Requested path should not point to attributes (i.e. contain @)'')"

function strip_loop :: "tokenizer \<Rightarrow> string res" where
  "strip_loop t =
     (if Type t = EndOfStream then Inr (Path t)
      else if Type t = At then Inr (strip_slash (GetPrefix t))
      else rbind (Advance t) strip_loop)"
  by pat_completeness auto
termination
  by (relation "measure tokens_left") (auto intro: Advance_tokens_left)

declare dir_name_loop.simps [simp del] attributes_loop.simps [simp del] strip_loop.simps [simp del]

definition StripAttributes :: "string \<Rightarrow> string res" where
  "StripAttributes path = (if path = [] then Inr [] else strip_loop (Reset path))"

definition TryComputeYPathSuffix :: "string \<Rightarrow> string \<Rightarrow> string option" where
  "TryComputeYPathSuffix path pre =
     (if \<not> prefix pre path then None
      else if length path = length pre then Some []
      else if path ! length pre \<noteq> CHR ''/'' then None
      else Some (drop (length pre) path))"

fun YPathJoinImpl :: "string \<Rightarrow> string list \<Rightarrow> string" where
  "YPathJoinImpl builder [] = builder"
| "YPathJoinImpl builder (firstLiteral # literals) =
     YPathJoinImpl (AppendYPathLiteral (builder @ ''/'') firstLiteral) literals"

definition YPathJoin :: "string \<Rightarrow> string list \<Rightarrow> string" where
  "YPathJoin path literals = YPathJoinImpl path literals"

section \<open>The sequence of tokens\<close>

function tokens :: "string \<Rightarrow> (ETokenType \<times> string \<times> string) list res" where
  "tokens s =
     (if s = [] then Inr []
      else rbind (advance_loop [] s []) (\<lambda>(ty, token, literal).
        rbind (tokens (drop (length token) s)) (\<lambda>ts. Inr ((ty, token, literal) # ts))))"
  by pat_completeness auto
termination
  by (relation "measure length") (use advance_loop_first(1) in fastforce)+

declare tokens.simps [simp del]

lemma tokens_Nil [simp]: "tokens [] = Inr []"
  by (subst tokens.simps) simp

lemma tokens_Advance:
  assumes "GetSuffix t = s" "s \<noteq> []"
  shows "case Advance t of
      Inl e \<Rightarrow> tokens s = Inl e
    | Inr t' \<Rightarrow> tokens s = rbind (tokens (GetSuffix t')) (\<lambda>ts. Inr ((Type t', Token t', LiteralValue t') # ts))"
proof (cases "advance_loop [] s []")
  case (Inl e)
  then show ?thesis
    using assms by (subst tokens.simps) (simp add: Advance_def GetSuffix_def SetType_def Let_def)
next
  case (Inr r)
  obtain ty token literal where r: "r = (ty, token, literal)" by (metis prod_cases3)
  show ?thesis
    using assms Inr r by (subst tokens.simps) (simp add: Advance_def GetSuffix_def SetType_def Let_def)
qed

abbreviation token_text :: "ETokenType \<times> string \<times> string \<Rightarrow> string" where
  "token_text \<equiv> \<lambda>(ty, token, literal). token"

lemma tokens_Cons:
  assumes "tokens s = Inr ts" "s \<noteq> []"
  obtains ty token literal rest ts' where "advance_loop [] s [] = Inr (ty, token, literal)" "s = token @ rest"
    "token \<noteq> []" "tokens rest = Inr ts'" "ts = (ty, token, literal) # ts'"
proof -
  from assms obtain ty token literal ts' where a: "advance_loop [] s [] = Inr (ty, token, literal)"
    "tokens (drop (length token) s) = Inr ts'" "ts = (ty, token, literal) # ts'"
    by (subst (asm) tokens.simps) auto
  with advance_loop_first [OF a(1) assms(2)] that show ?thesis by auto
qed

lemma tokens_concat:
  "tokens s = Inr ts \<Longrightarrow> concat (map token_text ts) = s \<and> (\<forall>t\<in>set ts. token_text t \<noteq> [])"
proof (induction "length s" arbitrary: s ts rule: less_induct)
  case less
  show ?case
  proof (cases "s = []")
    case False
    from tokens_Cons [OF less.prems False] obtain ty token literal rest ts' where
      "s = token @ rest" "token \<noteq> []" "tokens rest = Inr ts'" "ts = (ty, token, literal) # ts'" by metis
    with less.hyps [of rest ts'] show ?thesis by simp
  qed (use less.prems in simp)
qed

lemma AdvanceEscaped_append: "AdvanceEscaped s = Inr r \<Longrightarrow> AdvanceEscaped (s @ rest) = Inr r"
  by (auto simp: AdvanceEscaped_def ThrowMalformedEscapeSequence_def split: list.splits if_splits)

lemma advance_loop_append:
  "advance_loop consumed s literal = Inr (ty, token, literal') \<Longrightarrow> ty \<noteq> Range \<Longrightarrow> ends_literal rest \<Longrightarrow>
   consumed \<noteq> [] \<or> s \<noteq> [] \<Longrightarrow> advance_loop consumed (s @ rest) literal = Inr (ty, token, literal')"
proof (induction consumed s literal rule: advance_loop.induct)
  case (1 consumed literal)
  then show ?case by (cases rest) auto
next
  case (2 consumed ch cs literal)
  show ?case
  proof (cases "is_range_start ch \<or> punctuation ch \<noteq> None")
    case True
    then show ?thesis using 2(3,4) by (auto split: option.splits if_splits)
  next
    case plain: False
    show ?thesis
    proof (cases "ch = CHR 0x5C")
      case True
      with 2(3) plain obtain n c where e: "AdvanceEscaped cs = Inr (n, c)"
        "advance_loop (consumed @ take n (ch # cs)) (drop (n - 1) cs) (literal @ [c]) = Inr (ty, token, literal')"
        by auto
      have n: "2 \<le> n" "n \<le> Suc (length cs)" using AdvanceEscaped_length [OF e(1)] by simp_all
      then have "take n (ch # cs @ rest) = take n (ch # cs)" "drop (n - 1) (cs @ rest) = drop (n - 1) cs @ rest"
        "take n (ch # cs) \<noteq> []" by (cases n; auto)+
      with 2(1) [OF _ _ True e(1) refl e(2)] plain True 2(4,5) AdvanceEscaped_append [OF e(1), of rest] show ?thesis by auto
    next
      case False
      with 2(2) [OF _ _ False] 2(3,4,5) plain show ?thesis by simp
    qed
  qed
qed

lemma tokens_append:
  "tokens s = Inr ts \<Longrightarrow> \<forall>t\<in>set ts. fst t \<noteq> Range \<Longrightarrow> ends_literal rest \<Longrightarrow>
   tokens (s @ rest) = rbind (tokens rest) (\<lambda>ts'. Inr (ts @ ts'))"
proof (induction "length s" arbitrary: s ts rule: less_induct)
  case less
  show ?case
  proof (cases "s = []")
    case True
    with less.prems show ?thesis by (cases "tokens rest") auto
  next
    case False
    from tokens_Cons [OF less.prems(1) False] obtain ty token literal r ts' where
      a: "advance_loop [] s [] = Inr (ty, token, literal)" "s = token @ r" "token \<noteq> []" "tokens r = Inr ts'"
        "ts = (ty, token, literal) # ts'" by metis
    then have "advance_loop [] (s @ rest) [] = Inr (ty, token, literal)"
      using advance_loop_append [OF a(1)] less.prems(2,3) False by simp
    moreover have "tokens (r @ rest) = rbind (tokens rest) (\<lambda>ts''. Inr (ts' @ ts''))"
      using less a by simp
    ultimately show ?thesis
      using a False by (subst tokens.simps) (cases "tokens rest"; simp)
  qed
qed

section \<open>Literals\<close>

lemma AppendYPathLiteral_eq: "AppendYPathLiteral builder v = builder @ concat (map append_literal_char v)"
  by (induction builder v rule: AppendYPathLiteral.induct) simp_all

lemma ToYPathLiteral_simps [simp]:
  "ToYPathLiteral [] = []" "ToYPathLiteral (c # v) = append_literal_char c @ ToYPathLiteral v"
  by (simp_all add: ToYPathLiteral_def AppendYPathLiteral_eq)

lemma hex_roundtrip: "n < 16 \<Longrightarrow> ParseHexDigit (IntToHexLowercase ! n) = Inr n"
proof -
  have "\<forall>n\<in>set [0..<16]. ParseHexDigit (IntToHexLowercase ! n) = Inr n" by code_simp
  then show "n < 16 \<Longrightarrow> ParseHexDigit (IntToHexLowercase ! n) = Inr n" by simp
qed

lemma char_code_less: "(of_char c :: nat) < 256"
  by (simp add: of_char_def)

lemma advance_loop_literal_char:
  "advance_loop consumed (append_literal_char c @ rest) literal =
   advance_loop (consumed @ append_literal_char c) rest (literal @ [c])"
proof (cases "IsSpecialCharacter c")
  case True
  have "\<not> is_range_start CHR 0x5C" "punctuation CHR 0x5C = None" by (simp_all add: is_range_start_def punctuation_def)
  with True show ?thesis
    by (simp add: append_literal_char_def AdvanceEscaped_def numeral_2_eq_2)
next
  case plain: False
  let ?code = "of_char c :: nat"
  show ?thesis
  proof (cases "?code < 32 \<or> ?code > 127")
    case True
    have "\<not> is_range_start CHR 0x5C" "punctuation CHR 0x5C = None" "\<not> IsSpecialCharacter CHR ''x''"
      by (simp_all add: is_range_start_def punctuation_def IsSpecialCharacter_def)
    moreover have "?code div 16 < 16" "?code mod 16 < 16" using char_code_less [of c] by (simp_all add: less_mult_imp_div_less)
    moreover have "char_of (?code div 16 * 16 + ?code mod 16) = c" by simp
    ultimately show ?thesis
      using True plain by (simp add: append_literal_char_def AdvanceEscaped_def hex_roundtrip Let_def)
  next
    case False
    have "\<not> is_range_start c" "punctuation c = None" "c \<noteq> CHR 0x5C"
      using plain by (auto simp: is_range_start_def punctuation_def IsSpecialCharacter_def)
    with False plain show ?thesis by (simp add: append_literal_char_def Let_def)
  qed
qed

lemma advance_loop_literal_text:
  "advance_loop consumed (ToYPathLiteral v @ rest) literal =
   advance_loop (consumed @ ToYPathLiteral v) rest (literal @ v)"
  by (induction v arbitrary: consumed literal) (simp_all add: advance_loop_literal_char)

lemma tokens_literal:
  assumes "v \<noteq> []" "ends_literal rest"
  shows "tokens (ToYPathLiteral v @ rest) = rbind (tokens rest) (\<lambda>ts. Inr ((Literal, ToYPathLiteral v, v) # ts))"
proof -
  have ne: "ToYPathLiteral v \<noteq> []" using assms(1) by (cases v) (auto simp: append_literal_char_def Let_def)
  then have "advance_loop [] (ToYPathLiteral v @ rest) [] = Inr (Literal, ToYPathLiteral v, v)"
    using assms(2) advance_loop_literal_text [of "[]" v rest "[]"] by (cases rest) auto
  with ne show ?thesis by (subst tokens.simps) simp
qed

lemma tokens_slash: "tokens (CHR ''/'' # s) = rbind (tokens s) (\<lambda>ts. Inr ((Slash, ''/'', []) # ts))"
  by (subst tokens.simps) (simp add: is_range_start_def punctuation_def)

text \<open>The tokens of a joined path.\<close>

fun literal_tokens :: "string list \<Rightarrow> (ETokenType \<times> string \<times> string) list" where
  "literal_tokens [] = []"
| "literal_tokens (v # vs) = (Slash, ''/'', []) # (Literal, ToYPathLiteral v, v) # literal_tokens vs"

lemma YPathJoinImpl_eq: "YPathJoinImpl builder vs = builder @ concat (map (\<lambda>v. CHR ''/'' # ToYPathLiteral v) vs)"
  by (induction builder vs rule: YPathJoinImpl.induct) (simp_all add: AppendYPathLiteral_eq ToYPathLiteral_def)

lemma ends_literal_joined: "ends_literal (concat (map (\<lambda>v. CHR ''/'' # f v) vs))"
  by (cases vs) (simp_all add: punctuation_def)

lemma tokens_joined:
  "\<forall>v\<in>set vs. v \<noteq> [] \<Longrightarrow> tokens (concat (map (\<lambda>v. CHR ''/'' # ToYPathLiteral v) vs)) = Inr (literal_tokens vs)"
  by (induction vs) (simp_all add: tokens_slash tokens_literal ends_literal_joined)

lemma literal_tokens_values: "map (snd \<circ> snd) (filter (\<lambda>t. fst t = Literal) (literal_tokens vs)) = vs"
  by (induction vs) simp_all

lemma literal_tokens_no_range: "\<forall>t\<in>set (literal_tokens vs). fst t \<noteq> Range"
  by (induction vs) auto

section \<open>The loops over a path\<close>

lemma Reset_suffix [simp]: "GetSuffix (Reset s) = s" "Type (Reset s) = StartOfStream" "Path (Reset s) = s"
  "Input (Reset s) = s" "Token (Reset s) = []"
  by (simp_all add: GetSuffix_def Reset_def)

lemma Advance_end: "GetSuffix t = [] \<Longrightarrow> \<exists>t'. Advance t = Inr t' \<and> Type t' = EndOfStream"
  by (simp add: Advance_def GetSuffix_def SetType_def Let_def)

lemma Advance_token:
  assumes "tokens (GetSuffix t) = Inr (x # ts)"
  obtains t' where "Advance t = Inr t'" "x = (Type t', Token t', LiteralValue t')" "tokens (GetSuffix t') = Inr ts"
    "Type t' \<noteq> EndOfStream" "Type t' \<noteq> StartOfStream"
proof -
  have ne: "GetSuffix t \<noteq> []" using assms by auto
  show ?thesis
  proof (cases "Advance t")
    case (Inl e)
    with tokens_Advance [OF refl ne] assms show ?thesis by simp
  next
    case (Inr t')
    with tokens_Advance [OF refl ne] assms
    have "rbind (tokens (GetSuffix t')) (\<lambda>ts. Inr ((Type t', Token t', LiteralValue t') # ts)) = Inr (x # ts)"
      by (simp del: rbind_eq_Inr)
    then have "x = (Type t', Token t', LiteralValue t')" "tokens (GetSuffix t') = Inr ts" by auto
    with that [OF Inr] Advance_suffix(2) [OF Inr ne] show ?thesis by simp
  qed
qed

lemma has_prefix_tokens:
  "tokens (GetSuffix f) = Inr fs \<Longrightarrow> tokens (GetSuffix p) = Inr ps \<Longrightarrow>
   has_prefix_loop f p = Inr (prefix (map token_text ps) (map token_text fs))"
proof (induction ps arbitrary: f p fs)
  case Nil
  then have "GetSuffix p = []" using tokens_concat [of "GetSuffix p" "[]"] by simp
  then obtain p' where "Advance p = Inr p'" "Type p' = EndOfStream" using Advance_end by blast
  then show ?case by (subst has_prefix_loop.simps) simp
next
  case (Cons x ps)
  obtain p' where p: "Advance p = Inr p'" "x = (Type p', Token p', LiteralValue p')" "tokens (GetSuffix p') = Inr ps"
    "Type p' \<noteq> EndOfStream" using Advance_token [OF Cons.prems(2)] by metis
  show ?case
  proof (cases fs)
    case Nil
    then have "GetSuffix f = []" using tokens_concat [of "GetSuffix f" "[]"] Cons.prems(1) by simp
    then obtain f' where "Advance f = Inr f'" "Type f' = EndOfStream" using Advance_end by blast
    with p Nil show ?thesis by (subst has_prefix_loop.simps) simp
  next
    case (Cons y gs)
    obtain f' where f: "Advance f = Inr f'" "y = (Type f', Token f', LiteralValue f')" "tokens (GetSuffix f') = Inr gs"
      "Type f' \<noteq> EndOfStream" using Advance_token [of f y gs] Cons.prems(1) Cons by metis
    show ?thesis
      using p f Cons Cons.IH [OF f(3) p(3)] by (subst has_prefix_loop.simps) auto
  qed
qed

definition render :: "ETokenType \<times> string \<times> string \<Rightarrow> string" where
  "render x = (case x of (ty, token, literal) \<Rightarrow> if ty = Literal then ToYPathLiteral literal else token)"

definition normal :: "ETokenType \<times> string \<times> string \<Rightarrow> ETokenType \<times> string \<times> string" where
  "normal x = (case x of (ty, token, literal) \<Rightarrow> (ty, render x, literal))"

lemma render_simps [simp]:
  "render (ty, token, literal) = (if ty = Literal then ToYPathLiteral literal else token)"
  "normal (ty, token, literal) = (ty, render (ty, token, literal), literal)"
  by (simp_all add: render_def normal_def)

lemma escape_loop_tokens:
  "tokens (GetSuffix t) = Inr ts \<Longrightarrow> escape_loop t builder = Inr (builder @ concat (map render ts))"
proof (induction ts arbitrary: t builder)
  case Nil
  then have "GetSuffix t = []" using tokens_concat [of "GetSuffix t" "[]"] by simp
  then obtain t' where "Advance t = Inr t'" "Type t' = EndOfStream" using Advance_end by blast
  then show ?case by (subst escape_loop.simps) simp
next
  case (Cons x ts)
  obtain t' where t: "Advance t = Inr t'" "x = (Type t', Token t', LiteralValue t')" "tokens (GetSuffix t') = Inr ts"
    "Type t' \<noteq> EndOfStream" using Advance_token [OF Cons.prems] by metis
  show ?case
    using t Cons.IH [OF t(3)]
    by (subst escape_loop.simps) (simp add: AppendYPathLiteral_eq ToYPathLiteral_def)
qed

lemma escape_loop_error: "tokens (GetSuffix t) = Inl e \<Longrightarrow> escape_loop t builder = Inl e"
proof (induction "length (GetSuffix t)" arbitrary: t builder rule: less_induct)
  case less
  then have ne: "GetSuffix t \<noteq> []" by auto
  show ?case
  proof (cases "Advance t")
    case (Inl e')
    with tokens_Advance [OF refl ne] less.prems show ?thesis by (subst escape_loop.simps) simp
  next
    case (Inr t')
    then have "tokens (GetSuffix t') = Inl e"
      using tokens_Advance [OF refl ne] less.prems by (cases "tokens (GetSuffix t')") auto
    moreover have "Type t' \<noteq> EndOfStream" using Advance_suffix(2) [OF Inr ne] by simp
    ultimately show ?thesis
      using less.hyps [of t'] Advance_shortens [OF Inr] Inr by (subst escape_loop.simps) simp
  qed
qed

lemma tokens_punctuation:
  "punctuation c = Some ty \<Longrightarrow> \<not> is_range_start c \<Longrightarrow>
   tokens (c # s) = rbind (tokens s) (\<lambda>ts. Inr ((ty, [c], []) # ts))"
  by (subst tokens.simps) simp

lemma ends_literal_rendered:
  assumes "tokens s = Inr ts" "ends_literal s"
  shows "ends_literal (concat (map render ts))"
proof (cases "s = []")
  case False
  from tokens_Cons [OF assms(1) False] obtain ty token literal rest ts' where
    a: "advance_loop [] s [] = Inr (ty, token, literal)" "s = token @ rest" "token \<noteq> []" "ts = (ty, token, literal) # ts'"
    by metis
  have "ty \<noteq> Literal" using advance_loop_first(2) [OF a(1) False] assms(2) by auto
  with a assms(2) show ?thesis by (cases token) auto
qed (use assms in simp)

lemma tokens_rendered: "tokens s = Inr ts \<Longrightarrow> tokens (concat (map render ts)) = Inr (map normal ts)"
proof (induction "length s" arbitrary: s ts rule: less_induct)
  case less
  show ?case
  proof (cases "s = []")
    case False
    from tokens_Cons [OF less.prems False] obtain ty token literal rest ts' where
      a: "advance_loop [] s [] = Inr (ty, token, literal)" "s = token @ rest" "token \<noteq> []" "tokens rest = Inr ts'"
        "ts = (ty, token, literal) # ts'" by metis
    have IH: "tokens (concat (map render ts')) = Inr (map normal ts')" using less.hyps [of rest ts'] a by simp
    note first = advance_loop_first(2) [OF a(1) False]
    obtain c cs where c: "token = c # cs" using a(3) by (cases token) auto
    show ?thesis
    proof (cases ty)
      case Literal
      with first a have "literal \<noteq> []" "ends_literal rest" by auto
      with Literal a IH ends_literal_rendered [OF a(4)] show ?thesis
        by (simp add: tokens_literal)
    next
      case Range
      with first a have "rest = []" by auto
      with Range a less.prems show ?thesis by simp
    qed (use first a IH c in \<open>auto simp: tokens_punctuation\<close>)
  qed (use less.prems in simp)
qed

text \<open>A tokenizer's prefix is what it has passed.\<close>

definition passed :: "tokenizer \<Rightarrow> string" where
  "passed t = GetPrefix t @ take (length (Token t)) (Input t)"

definition inside :: "tokenizer \<Rightarrow> bool" where
  "inside t \<longleftrightarrow> Path t = GetPrefix t @ Input t"

lemma Advance_inside:
  assumes "Advance t = Inr t'" "inside t"
  shows "inside t'" "GetPrefix t' = passed t" "GetSuffix t \<noteq> [] \<Longrightarrow> passed t' = passed t @ Token t'"
proof -
  have p: "Path t = passed t @ GetSuffix t"
    using assms(2) by (simp add: inside_def passed_def GetSuffix_def)
  have "Path t' = passed t @ Input t'" using Advance_suffix(3,4) [OF assms(1)] p by simp
  then show "GetPrefix t' = passed t" "inside t'" by (simp_all add: GetPrefix_def inside_def)
  assume "GetSuffix t \<noteq> []"
  with Advance_suffix(2,4) [OF assms(1)] have "take (length (Token t')) (Input t') = Token t'" by simp
  then show "passed t' = passed t @ Token t'" by (simp add: passed_def \<open>GetPrefix t' = passed t\<close>)
qed

lemma Reset_inside: "inside (Reset s)" "passed (Reset s) = []"
  by (simp_all add: inside_def passed_def GetPrefix_def)

lemma dir_name_tokens:
  "tokens (GetSuffix t) = Inr ts \<Longrightarrow> ts \<noteq> [] \<Longrightarrow> inside t \<Longrightarrow> Type t \<noteq> EndOfStream \<Longrightarrow>
   dir_name_loop t = Inr (strip_slash (passed t @ concat (map token_text (butlast ts))), token_text (last ts))"
proof (induction ts arbitrary: t)
  case (Cons x ts)
  have ne: "GetSuffix t \<noteq> []" using Cons.prems(1) by auto
  obtain t' where t: "Advance t = Inr t'" "x = (Type t', Token t', LiteralValue t')" "tokens (GetSuffix t') = Inr ts"
    "Type t' \<noteq> EndOfStream" using Advance_token [OF Cons.prems(1)] by metis
  note inside = Advance_inside [OF t(1) Cons.prems(3)]
  have "dir_name_loop t = dir_name_loop t'" using ne t Cons.prems(4) by (subst dir_name_loop.simps) simp
  also have "\<dots> = Inr (strip_slash (passed t @ concat (map token_text (butlast (x # ts)))), token_text (last (x # ts)))"
  proof (cases "ts = []")
    case True
    then have "GetSuffix t' = []" using tokens_concat [OF t(3)] by simp
    with True t inside show ?thesis by (subst dir_name_loop.simps) simp
  next
    case False
    with Cons.IH [OF t(3) False inside(1) t(4)] t inside(3) [OF ne] show ?thesis by simp
  qed
  finally show ?case .
qed simp

lemma attributes_tokens:
  "tokens (GetSuffix t) = Inr ts \<Longrightarrow> inside t \<Longrightarrow> Type t \<noteq> EndOfStream \<Longrightarrow> Type t \<noteq> At \<Longrightarrow>
   attributes_loop t = Inr (At \<in> fst ` set ts) \<and>
   strip_loop t = Inr (if At \<in> fst ` set ts
     then strip_slash (passed t @ concat (map token_text (takeWhile (\<lambda>x. fst x \<noteq> At) ts))) else Path t)"
proof (induction ts arbitrary: t)
  case Nil
  then have "GetSuffix t = []" using tokens_concat [of "GetSuffix t" "[]"] by simp
  then obtain t' where t: "Advance t = Inr t'" "Type t' = EndOfStream" using Advance_end by blast
  have "attributes_loop t' = Inr False" "strip_loop t' = Inr (Path t)"
    using t Advance_suffix(3) [OF t(1)] by (subst attributes_loop.simps strip_loop.simps; simp)+
  with t Nil.prems show ?case by (subst attributes_loop.simps, subst strip_loop.simps) simp
next
  case (Cons x ts)
  have ne: "GetSuffix t \<noteq> []" using Cons.prems(1) by auto
  obtain t' where t: "Advance t = Inr t'" "x = (Type t', Token t', LiteralValue t')" "tokens (GetSuffix t') = Inr ts"
    "Type t' \<noteq> EndOfStream" using Advance_token [OF Cons.prems(1)] by metis
  note inside = Advance_inside [OF t(1) Cons.prems(2)]
  have step: "attributes_loop t = attributes_loop t'" "strip_loop t = strip_loop t'"
    using t Cons.prems(3,4) by (subst attributes_loop.simps strip_loop.simps; simp)+
  show ?case
  proof (cases "Type t' = At")
    case True
    then have "attributes_loop t' = Inr True" "strip_loop t' = Inr (strip_slash (GetPrefix t'))"
      by (subst attributes_loop.simps strip_loop.simps; simp)+
    with True step t inside show ?thesis by simp
  next
    case False
    with Cons.IH [OF t(3) inside(1) t(4) False] step t inside(3) [OF ne] Advance_suffix(3) [OF t(1)] show ?thesis by auto
  qed
qed

lemma normal_idempotent: "render (normal x) = render x" "normal (normal x) = normal x"
  by (cases x; simp)+

lemma ToYPathLiteral_printable: "c \<in> set (ToYPathLiteral v) \<Longrightarrow> 32 \<le> (of_char c :: nat) \<and> of_char c \<le> (127 :: nat)"
proof (induction v)
  case (Cons d v)
  have special: "32 \<le> (of_char d :: nat) \<and> of_char d \<le> (127 :: nat)" if "IsSpecialCharacter d"
    using that by (auto simp: IsSpecialCharacter_def)
  have "\<forall>n\<in>set [0..<16]. 32 \<le> (of_char (IntToHexLowercase ! n) :: nat) \<and> of_char (IntToHexLowercase ! n) \<le> (127 :: nat)"
    by code_simp
  then have hex: "32 \<le> (of_char (IntToHexLowercase ! n) :: nat) \<and> of_char (IntToHexLowercase ! n) \<le> (127 :: nat)" if "n < 16" for n
    using that by simp
  have "of_char d div 16 < (16::nat)" "of_char d mod 16 < (16::nat)"
    using char_code_less [of d] by (simp_all add: less_mult_imp_div_less)
  with Cons special hex show ?case by (auto simp: append_literal_char_def Let_def split: if_splits)
qed simp

text \<open>The type is set to a literal first and corrected afterwards, so the previous type of every
  other token is a literal.\<close>

lemma previous_type_overwritten:
  "Advance t = Inr t' \<Longrightarrow> Type t' \<noteq> Literal \<Longrightarrow> Type t' \<noteq> EndOfStream \<Longrightarrow> PreviousType t' = Literal"
  by (auto simp: Advance_def SetType_def Let_def split: if_splits)

text \<open>An escaped slash before an attribute is taken for a separator: what is left does not tokenize.\<close>

lemma strip_attributes_breaks_escape:
  "StripAttributes (''/a'' @ [CHR 0x5C] @ ''/@x'') = Inr (''/a'' @ [CHR 0x5C]) \<and>
   (\<exists>e. tokens (''/a'' @ [CHR 0x5C]) = Inl (Thrown e))"
proof -
  have "StripAttributes (''/a'' @ [CHR 0x5C] @ ''/@x'') = Inr (''/a'' @ [CHR 0x5C])" by code_simp
  moreover have "tokens (''/a'' @ [CHR 0x5C]) = Inl (Thrown ''Unexpected end-of-string in YPath while parsing escape sequence'')"
    by code_simp
  ultimately show ?thesis by blast
qed

text \<open>Independently of the code, the path without a final slash is the path without its last token
  when that is a slash. A literal may end in a slash too, which is then escaped.\<close>

definition without_slash :: "(ETokenType \<times> string \<times> string) list \<Rightarrow> (ETokenType \<times> string \<times> string) list" where
  "without_slash ts = (if ts \<noteq> [] \<and> fst (last ts) = Slash then butlast ts else ts)"

definition ends_escaped :: "(ETokenType \<times> string \<times> string) list \<Rightarrow> bool" where
  "ends_escaped ts \<longleftrightarrow> ts \<noteq> [] \<and> fst (last ts) \<noteq> Slash \<and> last (token_text (last ts)) = CHR ''/''"

lemma tokens_slash_text: "tokens s = Inr ts \<Longrightarrow> t \<in> set ts \<Longrightarrow> fst t = Slash \<Longrightarrow> token_text t = ''/''"
proof (induction "length s" arbitrary: s ts rule: less_induct)
  case less
  then have ne: "s \<noteq> []" by auto
  from tokens_Cons [OF less.prems(1) ne] obtain ty token literal rest ts' where
    x: "advance_loop [] s [] = Inr (ty, token, literal)" "s = token @ rest" "token \<noteq> []" "tokens rest = Inr ts'"
      "ts = (ty, token, literal) # ts'" by metis
  show ?case
  proof (cases "t \<in> set ts'")
    case False
    then have "t = (Slash, token, literal)" "ty = Slash" using x(5) less.prems(2,3) by auto
    moreover have "punctuation (hd s) = Some Slash" "token = [hd s]"
      using advance_loop_first(2) [OF x(1) ne] calculation(2) by auto
    ultimately show ?thesis by (auto simp: punctuation_def split: if_splits)
  qed (use less.hyps [of rest ts'] less.prems(3) x in simp)
qed

lemma strip_slash_tokens:
  assumes "tokens path = Inr ts" "set us \<subseteq> set ts" "\<not> ends_escaped us"
  shows "strip_slash (concat (map token_text us)) = concat (map token_text (without_slash us))"
proof (cases us rule: rev_cases)
  case (snoc vs t)
  then have t: "t \<in> set ts" "token_text t \<noteq> []" using assms(2) tokens_concat [OF assms(1)] by auto
  show ?thesis
  proof (cases "fst t = Slash")
    case True
    with tokens_slash_text [OF assms(1) t(1)] snoc show ?thesis by (simp add: strip_slash_def without_slash_def)
  next
    case False
    with assms(3) snoc have "last (token_text t) \<noteq> CHR ''/''" by (simp add: ends_escaped_def)
    with False snoc t(2) show ?thesis by (simp add: strip_slash_def without_slash_def)
  qed
qed (simp add: strip_slash_def without_slash_def)

section \<open>Properties\<close>

text \<open>C18. Joining literals to a path is undone by the tokenizer, for a path that tokenizes and has no
  range token: whatever bytes the non-empty literals contain, the tokens of the joined path are
  those of the path followed by a slash and a literal token with exactly the given value, for each
  of them. A path with a range is excluded because the range token takes in everything that follows.\<close>

theorem ypath_join_roundtrip:
  assumes "tokens path = Inr ts" "Range \<notin> fst ` set ts" "[] \<notin> set literals"
  shows "\<exists>ts'. tokens (YPathJoin path literals) = Inr (ts @ ts') \<and>
    map fst ts' = concat (map (\<lambda>_. [Slash, Literal]) literals) \<and>
    map (snd \<circ> snd) (filter (\<lambda>t. fst t = Literal) ts') = literals"
proof -
  have "\<forall>t\<in>set ts. fst t \<noteq> Range" "\<forall>v\<in>set literals. v \<noteq> []" using assms(2,3) by (metis image_eqI)+
  then have "tokens (YPathJoin path literals) = Inr (ts @ literal_tokens literals)"
    using tokens_append [OF assms(1)] tokens_joined [of literals]
    by (simp add: YPathJoin_def YPathJoinImpl_eq ends_literal_joined)
  moreover have "map fst (literal_tokens literals) = concat (map (\<lambda>_. [Slash, Literal]) literals)"
    by (induction literals) auto
  ultimately show ?thesis using literal_tokens_values [of literals] by blast
qed

theorem ypath_join_roundtrip_witness:
  "\<exists>ts. tokens ''//home'' = Inr ts \<and> Range \<notin> fst ` set ts \<and>
     (\<exists>ts'. tokens (YPathJoin ''//home'' [''a/b'']) = Inr (ts @ ts') \<and>
       map (snd \<circ> snd) (filter (\<lambda>t. fst t = Literal) ts') = [''a/b''])"
proof -
  have t: "tokens ''//home'' = Inr [(Slash, ''/'', []), (Slash, ''/'', []), (Literal, ''home'', ''home'')]" by code_simp
  show ?thesis using ypath_join_roundtrip [OF t, of "[''a/b'']"] t by auto
qed

text \<open>C38. The tokenizer splits every path it accepts into non-empty pieces, so all loops over tokens
  end, and the helpers mean what they say of the tokens: prefix test; presence of attributes; the last
  token as base name and the tokens before it, without a final slash token, as directory (the end of
  the loop is never reached); the tokens before the first \<open>@\<close>, without a final slash token,
  as the path without attributes. The suffix of a path after a prefix is what remains of the string, if
  that is empty or begins with a slash. Excluded from the directory and the stripped path is
  a literal ending in an escaped slash right before the cut: the code removes that slash too and leaves
  a dangling backslash, which is a defect (lemma \<open>strip_attributes_breaks_escape\<close>).\<close>

theorem ypath_helpers_by_tokens:
  assumes "tokens path = Inr ts"
  shows "concat (map token_text ts) = path \<and> [] \<notin> token_text ` set ts \<and>
    (\<forall>p ps. tokens p = Inr ps \<longrightarrow> HasPrefix path p = Inr (prefix (map token_text ps) (map token_text ts))) \<and>
    (\<forall>p q. TryComputeYPathSuffix path p = Some q \<longleftrightarrow> path = p @ q \<and> (q = [] \<or> hd q = CHR ''/'')) \<and>
    IsPathPointingToAttributes path = Inr (At \<in> fst ` set ts) \<and>
    (path \<noteq> [] \<and> \<not> ends_escaped (butlast ts) \<longrightarrow>
      DirNameAndBaseName path = Inr (concat (map token_text (without_slash (butlast ts))), token_text (last ts))) \<and>
    (At \<notin> fst ` set ts \<longrightarrow> StripAttributes path = Inr path) \<and>
    (At \<in> fst ` set ts \<and> \<not> ends_escaped (takeWhile (\<lambda>t. fst t \<noteq> At) ts) \<longrightarrow>
      StripAttributes path = Inr (concat (map token_text (without_slash (takeWhile (\<lambda>t. fst t \<noteq> At) ts)))))"
proof -
  have "HasPrefix path p = Inr (prefix (map token_text ps) (map token_text ts))" if "tokens p = Inr ps" for p ps
    using has_prefix_tokens [of "Reset path" ts "Reset p" ps] assms that by (simp add: HasPrefix_def)
  moreover have "TryComputeYPathSuffix path p = Some q \<longleftrightarrow> path = p @ q \<and> (q = [] \<or> hd q = CHR ''/'')" for p q
    by (auto simp: TryComputeYPathSuffix_def prefix_def nth_append hd_conv_nth)
  moreover have "ts \<noteq> []" if "path \<noteq> []" using tokens_concat [OF assms] that by auto
  moreover have "strip_slash (concat (map token_text us)) = concat (map token_text (without_slash us))"
    if "set us \<subseteq> set ts" "\<not> ends_escaped us" for us using strip_slash_tokens [OF assms that] .
  moreover have "set (butlast ts) \<subseteq> set ts" "set (takeWhile (\<lambda>t. fst t \<noteq> At) ts) \<subseteq> set ts"
    by (auto dest: in_set_butlastD set_takeWhileD)
  moreover note attributes_tokens [of "Reset path" ts] dir_name_tokens [of "Reset path" ts] tokens_concat [OF assms]
  ultimately show ?thesis
    using assms
    by (auto simp: IsPathPointingToAttributes_def DirNameAndBaseName_def StripAttributes_def Reset_inside)
qed

theorem ypath_helpers_by_tokens_witness:
  "\<exists>ts. tokens ''//a/@b'' = Inr ts \<and> DirNameAndBaseName ''//a/@b'' = Inr (''//a/@'', ''b'') \<and>
     StripAttributes ''//a/@b'' = Inr ''//a'' \<and> HasPrefix ''//a/@b'' ''//a'' = Inr True"
proof -
  have t: "tokens ''//a/@b'' = Inr [(Slash, ''/'', []), (Slash, ''/'', []), (Literal, ''a'', ''a''), (Slash, ''/'', []),
      (At, ''@'', []), (Literal, ''b'', ''b'')]" by code_simp
  have "tokens ''//a'' = Inr [(Slash, ''/'', []), (Slash, ''/'', []), (Literal, ''a'', ''a'')]" by code_simp
  with ypath_helpers_by_tokens [OF t] t show ?thesis by (auto simp: without_slash_def ends_escaped_def)
qed

text \<open>C39. Escaping the literals of a path gives an equivalent path: the same tokens with the same
  literal values, where no literal has a byte below 32 or above 127 any more; escaping a
  second time changes nothing, and a path that does not tokenize gives the tokenizer's error. The comment
  in \<open>token.h\<close> announces that all bytes outside \<open>[33, 126]\<close> are escaped; the code is weaker, it leaves
  the bytes 32 and 127 as they are, and the property promises only what the code does.\<close>

theorem escaped_path_equivalent:
  "case tokens path of
     Inl e \<Rightarrow> TryEscapeNonAsciiYPathLiterals path = Inl e
   | Inr ts \<Rightarrow> (\<exists>q qs. TryEscapeNonAsciiYPathLiterals path = Inr q \<and> tokens q = Inr qs \<and>
       map (\<lambda>(ty, token, literal). (ty, literal)) qs = map (\<lambda>(ty, token, literal). (ty, literal)) ts \<and>
       (\<forall>(ty, token, literal)\<in>set qs. ty = Literal \<longrightarrow> (\<forall>c\<in>set token. 32 \<le> (of_char c :: nat) \<and> of_char c \<le> (127 :: nat))) \<and>
       TryEscapeNonAsciiYPathLiterals q = Inr q)"
proof (cases "tokens path")
  case (Inl e)
  then have "path \<noteq> []" by auto
  with Inl escape_loop_error [of "Reset path"] show ?thesis by (simp add: TryEscapeNonAsciiYPathLiterals_def)
next
  case (Inr ts)
  have escape: "TryEscapeNonAsciiYPathLiterals p = Inr (concat (map render us))" if "tokens p = Inr us" for p us
    using escape_loop_tokens [of "Reset p" us "[]"] that by (auto simp: TryEscapeNonAsciiYPathLiterals_def)
  note t = tokens_rendered [OF Inr]
  have "TryEscapeNonAsciiYPathLiterals (concat (map render ts)) = Inr (concat (map render ts))"
    using escape [OF t] by (simp add: normal_idempotent o_def)
  moreover have "map (\<lambda>(ty, token, literal). (ty, literal)) (map normal ts) = map (\<lambda>(ty, token, literal). (ty, literal)) ts"
    by (auto simp: normal_def)
  moreover have "\<forall>(ty, token, literal)\<in>set (map normal ts). ty = Literal \<longrightarrow>
      (\<forall>c\<in>set token. 32 \<le> (of_char c :: nat) \<and> of_char c \<le> (127 :: nat))"
    using ToYPathLiteral_printable by auto
  ultimately show ?thesis using escape [OF Inr] t Inr by auto
qed

theorem escaped_path_equivalent_witness:
  "\<exists>q. TryEscapeNonAsciiYPathLiterals (''/a'' @ [CHR 0xFF]) = Inr q \<and> TryEscapeNonAsciiYPathLiterals q = Inr q \<and>
     q = ''/a'' @ [CHR 0x5C] @ ''xff''"
proof -
  have t: "tokens (''/a'' @ [CHR 0xFF]) = Inr [(Slash, ''/'', []), (Literal, ''a'' @ [CHR 0xFF], ''a'' @ [CHR 0xFF])]" by code_simp
  have "TryEscapeNonAsciiYPathLiterals (''/a'' @ [CHR 0xFF]) = Inr (''/a'' @ [CHR 0x5C] @ ''xff'')" by code_simp
  with escaped_path_equivalent [of "''/a'' @ [CHR 0xFF]"] t show ?thesis by auto
qed

end
