(* ===== verification/YPathStack.thy ===== *)
theory YPathStack
  imports YPath
begin

text \<open>
  The path stack, \<open>TYPathStack\<close> of \<open>yt/yt/core/ypath/stack.cpp\<close>: a stack of keys and list indexes with
  the path it spells. The path is built on the first request and updated from then on. Indexes are
  32-bit; increasing the largest one overflows.
\<close>

section \<open>Numbers\<close>

fun to_digits :: "nat \<Rightarrow> string" where
  "to_digits n = (if n < 10 then [char_of (48 + n)] else to_digits (n div 10) @ [char_of (48 + n mod 10)])"

declare to_digits.simps [simp del]

definition to_string :: "int \<Rightarrow> string" where
  "to_string i = (if i < 0 then CHR ''-'' # to_digits (nat (- i)) else to_digits (nat i))"

section \<open>The stack\<close>

datatype entry = Key string | Index int

record ypath_stack =
  PreviousPathLengths :: "nat list"
  StackPath :: string
  PathMaterialized :: bool
  Items :: "entry list"

definition Reset_stack :: ypath_stack where
  "Reset_stack = \<lparr>PreviousPathLengths = [], StackPath = [], PathMaterialized = False, Items = []\<rparr>"

definition Push_key :: "ypath_stack \<Rightarrow> string \<Rightarrow> ypath_stack" where
  "Push_key s key =
     (let s = (if PathMaterialized s
               then s\<lparr>PreviousPathLengths := PreviousPathLengths s @ [length (StackPath s)],
                      StackPath := StackPath s @ ''/'' @ ToYPathLiteral key\<rparr>
               else s)
      in s\<lparr>Items := Items s @ [Key key]\<rparr>)"

definition Push_index :: "ypath_stack \<Rightarrow> int \<Rightarrow> ypath_stack" where
  "Push_index s index =
     (let s = (if PathMaterialized s
               then s\<lparr>PreviousPathLengths := PreviousPathLengths s @ [length (StackPath s)],
                      StackPath := StackPath s @ ''/'' @ to_string index\<rparr>
               else s)
      in s\<lparr>Items := Items s @ [Index index]\<rparr>)"

definition Pop :: "ypath_stack \<Rightarrow> ypath_stack res" where
  "Pop s =
     rbind (verify (Items s \<noteq> []) ''!Items_.empty()'') (\<lambda>_.
     let s = s\<lparr>Items := butlast (Items s)\<rparr> in
     if PathMaterialized s then
       if PreviousPathLengths s = [] then Inl (Undefined ''back of an empty vector'')
       else Inr (s\<lparr>StackPath := take (last (PreviousPathLengths s)) (StackPath s),
                   PreviousPathLengths := butlast (PreviousPathLengths s)\<rparr>)
     else Inr s)"

definition IncreaseLastIndex :: "ypath_stack \<Rightarrow> ypath_stack res" where
  "IncreaseLastIndex s =
     rbind (verify (Items s \<noteq> []) ''!Items_.empty()'') (\<lambda>_.
     case last (Items s) of
       Key _ \<Rightarrow> Inl (Fatal ''std::holds_alternative<int>(Items_.back())'')
     | Index index \<Rightarrow>
         rbind (Pop s) (\<lambda>s.
           if index + 1 \<ge> 2 ^ 31 then Inl (Undefined ''signed overflow'') else Inr (Push_index s (index + 1))))"

definition IsEmpty_stack :: "ypath_stack \<Rightarrow> bool" where
  "IsEmpty_stack s \<longleftrightarrow> Items s = []"

definition ToString_entry :: "entry \<Rightarrow> string" where
  "ToString_entry e = (case e of Key key \<Rightarrow> key | Index i \<Rightarrow> to_string i)"

text \<open>The loop that builds the path; the path and the lengths start empty.\<close>

fun materialize :: "entry list \<Rightarrow> nat list \<Rightarrow> string \<Rightarrow> nat list \<times> string" where
  "materialize [] lengths path = (lengths, path)"
| "materialize (e # es) lengths path =
     materialize es (lengths @ [length path])
       (path @ ''/'' @ (case e of Key key \<Rightarrow> ToYPathLiteral key | Index i \<Rightarrow> to_string i))"

definition GetPath :: "ypath_stack \<Rightarrow> ypath_stack \<times> string" where
  "GetPath s =
     (let s = (if \<not> PathMaterialized s
               then (case materialize (Items s) (PreviousPathLengths s) (StackPath s) of (lengths, path) \<Rightarrow>
                       s\<lparr>PreviousPathLengths := lengths, StackPath := path, PathMaterialized := True\<rparr>)
               else s)
      in (s, StackPath s))"

definition GetHumanReadablePath :: "ypath_stack \<Rightarrow> ypath_stack \<times> string" where
  "GetHumanReadablePath s = (case GetPath s of (s, path) \<Rightarrow> (s, if path = [] then ''(root)'' else path))"

definition TryGetStringifiedLastPathToken :: "ypath_stack \<Rightarrow> string option" where
  "TryGetStringifiedLastPathToken s = (if Items s = [] then None else Some (ToString_entry (last (Items s))))"

section \<open>Traces\<close>

datatype stack_op = OpPushKey string | OpPushIndex int | OpIncreaseLastIndex | OpPop | OpGetPath | OpReset

definition stack_step :: "stack_op \<Rightarrow> ypath_stack \<Rightarrow> ypath_stack res" where
  "stack_step op s =
     (case op of
        OpPushKey key \<Rightarrow> Inr (Push_key s key)
      | OpPushIndex index \<Rightarrow> Inr (Push_index s index)
      | OpIncreaseLastIndex \<Rightarrow> IncreaseLastIndex s
      | OpPop \<Rightarrow> Pop s
      | OpGetPath \<Rightarrow> Inr (fst (GetPath s))
      | OpReset \<Rightarrow> Inr Reset_stack)"

fun stack_run :: "stack_op list \<Rightarrow> ypath_stack \<Rightarrow> ypath_stack res" where
  "stack_run [] s = Inr s"
| "stack_run (op # ops) s = rbind (stack_step op s) (stack_run ops)"

section \<open>The path and the items\<close>

lemma to_digits_plain: "c \<in> set (to_digits n) \<Longrightarrow> append_literal_char c = [c]"
proof (induction n rule: to_digits.induct)
  case (1 n)
  have "\<forall>d\<in>set [0..<10]. append_literal_char (char_of (48 + d)) = [char_of (48 + d) :: char]" by code_simp
  then have d: "append_literal_char (char_of (48 + d)) = [char_of (48 + d) :: char]" if "d < 10" for d :: nat
    using that by simp
  show ?case
    using 1 d [of n] d [of "n mod 10"] by (subst (asm) (2) to_digits.simps) (auto split: if_splits)
qed

lemma to_string_plain: "ToYPathLiteral (to_string i) = to_string i"
proof -
  have plain: "ToYPathLiteral v = v" if "\<forall>c\<in>set v. append_literal_char c = [c]" for v
    using that by (induction v) simp_all
  have "append_literal_char CHR ''-'' = [CHR ''-'']" by code_simp
  then show ?thesis by (intro plain) (auto simp: to_string_def to_digits_plain)
qed

lemma to_string_nonempty: "to_string i \<noteq> []"
  by (subst to_string_def, subst (1 2) to_digits.simps) auto

definition joined :: "entry list \<Rightarrow> string" where
  "joined es = concat (map (\<lambda>e. CHR ''/'' # ToYPathLiteral (ToString_entry e)) es)"

lemma joined_simps [simp]: "joined [] = []" "joined (es @ [e]) = joined es @ CHR ''/'' # ToYPathLiteral (ToString_entry e)"
  by (simp_all add: joined_def)

definition prefix_lengths :: "entry list \<Rightarrow> nat list" where
  "prefix_lengths es = map (\<lambda>i. length (joined (take i es))) [0..<length es]"

lemma prefix_lengths_snoc: "prefix_lengths (es @ [e]) = prefix_lengths es @ [length (joined es)]"
  by (simp add: prefix_lengths_def)

definition stack_ok :: "ypath_stack \<Rightarrow> bool" where
  "stack_ok s \<longleftrightarrow>
     (if PathMaterialized s then StackPath s = joined (Items s) \<and> PreviousPathLengths s = prefix_lengths (Items s)
      else StackPath s = [] \<and> PreviousPathLengths s = [])"

lemma materialize_joined:
  "materialize es (prefix_lengths front) (joined front) = (prefix_lengths (front @ es), joined (front @ es))"
proof (induction es arbitrary: front)
  case (Cons e es)
  from Cons.IH [of "front @ [e]"] show ?case
    by (cases e) (simp_all add: prefix_lengths_snoc ToString_entry_def to_string_plain)
qed simp

lemma GetPath_joined:
  assumes "stack_ok s"
  shows "stack_ok (fst (GetPath s))" "snd (GetPath s) = joined (Items s)" "Items (fst (GetPath s)) = Items s"
proof -
  have "materialize (Items s) [] [] = (prefix_lengths (Items s), joined (Items s))"
    using materialize_joined [of "Items s" "[]"] by (simp add: prefix_lengths_def)
  with assms show "stack_ok (fst (GetPath s))" "snd (GetPath s) = joined (Items s)" "Items (fst (GetPath s)) = Items s"
    by (auto simp: GetPath_def stack_ok_def Let_def split: if_splits)
qed

lemma Push_ok:
  assumes "stack_ok s"
  shows "stack_ok (Push_key s key)" "stack_ok (Push_index s i)"
  using assms
  by (auto simp: stack_ok_def Push_key_def Push_index_def Let_def prefix_lengths_snoc ToString_entry_def to_string_plain)

lemma Pop_ok:
  assumes "stack_ok s" "Items s \<noteq> []"
  obtains s' where "Pop s = Inr s'" "stack_ok s'" "Items s' = butlast (Items s)"
proof (cases "PathMaterialized s")
  case True
  obtain es e where es: "Items s = es @ [e]" using assms(2) by (metis append_butlast_last_id)
  with True assms that show ?thesis
    by (auto simp: Pop_def stack_ok_def Let_def prefix_lengths_snoc)
qed (use assms that in \<open>auto simp: Pop_def stack_ok_def Let_def\<close>)

lemma Reset_ok: "stack_ok Reset_stack"
  by (simp add: stack_ok_def Reset_stack_def)

lemma stack_step_ok:
  assumes "stack_ok s" "stack_step op s = Inr s'"
  shows "stack_ok s'"
proof (cases op)
  case OpIncreaseLastIndex
  with assms(2) have ne: "Items s \<noteq> []" by (auto simp: stack_step_def IncreaseLastIndex_def)
  obtain s1 where "Pop s = Inr s1" "stack_ok s1" using Pop_ok [OF assms(1) ne] by metis
  with OpIncreaseLastIndex assms(2) ne show ?thesis
    by (auto simp: stack_step_def IncreaseLastIndex_def Push_ok split: entry.splits if_splits)
next
  case OpPop
  with assms(2) have ne: "Items s \<noteq> []" by (auto simp: stack_step_def Pop_def)
  obtain s1 where "Pop s = Inr s1" "stack_ok s1" using Pop_ok [OF assms(1) ne] by metis
  with OpPop assms(2) show ?thesis by (simp add: stack_step_def)
qed (use assms GetPath_joined(1) Push_ok Reset_ok in \<open>auto simp: stack_step_def\<close>)

lemma stack_run_ok: "stack_run ops s = Inr s' \<Longrightarrow> stack_ok s \<Longrightarrow> stack_ok s'"
  by (induction ops arbitrary: s) (auto intro: stack_step_ok)

text \<open>The stack of entries that the operations describe.\<close>

fun entries_step :: "stack_op \<Rightarrow> entry list \<Rightarrow> entry list" where
  "entries_step (OpPushKey key) es = es @ [Key key]"
| "entries_step (OpPushIndex i) es = es @ [Index i]"
| "entries_step OpIncreaseLastIndex es =
     (case last es of Index i \<Rightarrow> butlast es @ [Index (i + 1)] | Key _ \<Rightarrow> es)"
| "entries_step OpPop es = butlast es"
| "entries_step OpGetPath es = es"
| "entries_step OpReset es = []"

lemma stack_step_entries:
  assumes "stack_step op s = Inr s'"
  shows "Items s' = entries_step op (Items s)"
  using assms
  by (cases op) (auto simp: stack_step_def Push_key_def Push_index_def IncreaseLastIndex_def Pop_def GetPath_def
      Reset_stack_def Let_def split: if_splits entry.splits prod.splits)

lemma stack_run_entries: "stack_run ops s = Inr s' \<Longrightarrow> Items s' = fold entries_step ops (Items s)"
  by (induction ops arbitrary: s) (auto simp: stack_step_entries)

section \<open>Properties\<close>

text \<open>C17. The path of a stack is always the path of its items: whenever a sequence of operations
  succeeds, the items are those that the operations describe, however often the path was requested
  in between, and the path is the join of the items as literals; the tokenizer reads the items back,
  provided no key is empty.\<close>

theorem path_stack_spells_items:
  assumes "stack_run ops Reset_stack = Inr s"
  shows "Items s = fold entries_step ops [] \<and>
    snd (GetPath s) = YPathJoin [] (map ToString_entry (Items s)) \<and>
    (Key [] \<notin> set (Items s) \<longrightarrow>
      (\<exists>ts. tokens (snd (GetPath s)) = Inr ts \<and>
        map (snd \<circ> snd) (filter (\<lambda>t. fst t = Literal) ts) = map ToString_entry (Items s)))"
proof -
  have ok: "stack_ok s" using stack_run_ok [OF assms Reset_ok] .
  have path: "snd (GetPath s) = concat (map (\<lambda>v. CHR ''/'' # ToYPathLiteral v) (map ToString_entry (Items s)))"
    using GetPath_joined(2) [OF ok] by (simp add: joined_def o_def)
  have "tokens (snd (GetPath s)) = Inr (literal_tokens (map ToString_entry (Items s)))" if "Key [] \<notin> set (Items s)"
    unfolding path
  proof (rule tokens_joined)
    show "\<forall>v\<in>set (map ToString_entry (Items s)). v \<noteq> []"
      using that to_string_nonempty by (auto simp: ToString_entry_def split: entry.splits)
  qed
  moreover have "Items s = fold entries_step ops []" using stack_run_entries [OF assms] by (simp add: Reset_stack_def)
  ultimately show ?thesis using path literal_tokens_values by (auto simp: YPathJoin_def YPathJoinImpl_eq)
qed

theorem path_stack_spells_items_witness:
  "\<exists>s. stack_run [OpPushKey ''a/b'', OpGetPath, OpPushIndex 7, OpIncreaseLastIndex] Reset_stack = Inr s \<and>
     Items s = [Key ''a/b'', Index 8] \<and> snd (GetPath s) = YPathJoin [] [''a/b'', ''8'']"
proof -
  let ?ops = "[OpPushKey ''a/b'', OpGetPath, OpPushIndex 7, OpIncreaseLastIndex]"
  have "case stack_run ?ops Reset_stack of Inl e \<Rightarrow> False | Inr s \<Rightarrow> True" by code_simp
  then obtain s where s: "stack_run ?ops Reset_stack = Inr s" by (auto split: sum.splits)
  have "to_string 8 = ''8''" by code_simp
  with path_stack_spells_items [OF s] s show ?thesis by (auto simp: ToString_entry_def)
qed

end
