(* ===== verification/YPathTrie.thy ===== *)
theory YPathTrie
  imports YPath "HOL-Library.List_Lexorder" "HOL-Library.Char_ord"
begin

text \<open>
  Tries of paths: \<open>TTrie\<close> and \<open>TTrieView\<close> of \<open>yt/yt/core/ypath/trie.cpp\<close>. A trie of at most one path
  may be flat, the vector of its tokens with two sentinels at the end; otherwise it is a tree of
  nodes, each of which is pointed to by its parent only. A view is a position: the rest of the token
  vector, the tree below a node, or one of the special states. The view that a trie keeps of its own
  root is a pointer into its state, which can go stale.
\<close>

section \<open>Paths\<close>

function tokenize_loop :: "tokenizer \<Rightarrow> string list \<Rightarrow> string list res" where
  "tokenize_loop t tokenizedPath =
     (if Type t = EndOfStream then Inr tokenizedPath
      else rbind (Expect t Slash) (\<lambda>_.
        rbind (Advance t) (\<lambda>t'.
        rbind (Expect t' Literal) (\<lambda>_.
        rbind (Advance t') (\<lambda>t''. tokenize_loop t'' (tokenizedPath @ [Token t']))))))"
  by pat_completeness auto
termination
proof (relation "measure (tokens_left \<circ> fst)")
  fix t :: tokenizer and acc t' t'' u v
  assume "Type t \<noteq> EndOfStream" "Advance t = Inr t'" "Expect t' Literal = Inr v" "Advance t' = Inr t''"
  then have "tokens_left t' < tokens_left t" "Type t' \<noteq> EndOfStream"
    using Advance_tokens_left by (auto simp: Expect_def split: if_splits)
  then have "tokens_left t'' < tokens_left t"
    using Advance_tokens_left \<open>Advance t' = Inr t''\<close> less_trans by blast
  then show "((t'', acc @ [Token t']), t, acc) \<in> measure (tokens_left \<circ> fst)" by simp
qed simp

declare tokenize_loop.simps [simp del]

definition TokenizeTriePath :: "string \<Rightarrow> string list res" where
  "TokenizeTriePath path =
     (let t = Reset path in
      rbind (Expect t StartOfStream) (\<lambda>_. rbind (Advance t) (\<lambda>t. tokenize_loop t [])))"

section \<open>Views\<close>

datatype ETrieNodeType = Outlier | Intermediary | Leaf | AfterLeaf

datatype ETrieNestedPathPolicy = Shorten | Extend

datatype flat_token = Tok string | LeafSentinel | AfterLeafSentinel

datatype trie_node = TrieNode "(string \<times> trie_node) list"

primrec Next :: "trie_node \<Rightarrow> (string \<times> trie_node) list" where
  "Next (TrieNode n) = n"

datatype trie_view =
  TokensView "flat_token list" | OutlierView | NodeView trie_node | NullView | AfterLeafView

text \<open>The token that the view owns is empty unless the step succeeded.\<close>

definition VisitInplace :: "trie_view \<Rightarrow> string \<Rightarrow> trie_view \<times> string" where
  "VisitInplace view token =
     (case view of
        OutlierView \<Rightarrow> (view, [])
      | TokensView nextToken \<Rightarrow>
          (case nextToken of
             AfterLeafSentinel # _ \<Rightarrow> (view, [])
           | LeafSentinel # rest \<Rightarrow> (TokensView rest, [])
           | Tok s # rest \<Rightarrow> if s = token then (TokensView rest, s) else (OutlierView, [])
           | [] \<Rightarrow> (view, []))
      | NullView \<Rightarrow> (view, [])
      | AfterLeafView \<Rightarrow> (view, [])
      | NodeView currentNode \<Rightarrow>
          (case map_of (Next currentNode) token of
             Some nextNode \<Rightarrow> (NodeView nextNode, token)
           | None \<Rightarrow> if Next currentNode = [] then (AfterLeafView, []) else (NullView, [])))"

definition Visit :: "trie_view \<Rightarrow> string \<Rightarrow> trie_view" where
  "Visit view token = fst (VisitInplace view token)"

definition GetType :: "trie_view \<Rightarrow> ETrieNodeType" where
  "GetType view =
     (case view of
        OutlierView \<Rightarrow> Outlier
      | TokensView nextToken \<Rightarrow>
          (case nextToken of
             AfterLeafSentinel # _ \<Rightarrow> AfterLeaf
           | LeafSentinel # _ \<Rightarrow> Leaf
           | _ \<Rightarrow> Intermediary)
      | NullView \<Rightarrow> Outlier
      | AfterLeafView \<Rightarrow> AfterLeaf
      | NodeView currentNode \<Rightarrow> if Next currentNode = [] then Leaf else Intermediary)"

definition VisitPath :: "trie_view \<Rightarrow> string \<Rightarrow> trie_view res" where
  "VisitPath view path = rbind (TokenizeTriePath path) (\<lambda>ts. Inr (foldl Visit view ts))"

text \<open>\<open>GetNestedPaths\<close> visits the unvisited tokens of a fresh traversal frame, which are all tokens.\<close>

fun nested_tokens :: "flat_token list \<Rightarrow> string \<Rightarrow> string list" where
  "nested_tokens (LeafSentinel # rest) path = [path]"
| "nested_tokens (Tok s # rest) path = nested_tokens rest (YPathJoin path [s])"
| "nested_tokens ts path = []"

primrec nested_node :: "trie_node \<Rightarrow> string \<Rightarrow> string list" where
  "nested_node (TrieNode n) path =
     (if n = [] then [path]
      else concat (map (\<lambda>(token, f). f (YPathJoin path [token])) (map (map_prod id nested_node) n)))"

definition GetNestedPaths :: "trie_view \<Rightarrow> string \<Rightarrow> string list" where
  "GetNestedPaths view path =
     (case view of TokensView ts \<Rightarrow> nested_tokens ts path | NodeView n \<Rightarrow> nested_node n path | _ \<Rightarrow> [])"

section \<open>Tries\<close>

text \<open>The children of a node are sorted by token.\<close>

fun emplace :: "string \<Rightarrow> trie_node \<Rightarrow> (string \<times> trie_node) list \<Rightarrow> (string \<times> trie_node) list" where
  "emplace token n [] = [(token, n)]"
| "emplace token n ((k, c) # rest) =
     (if token < k then (token, n) # (k, c) # rest else if token = k then (k, n) # rest else (k, c) # emplace token n rest)"

text \<open>Walking down one path, with the nodes made on the way. The flag says whether a node was made
  already; with the policy \<open>Shorten\<close> the walk stops at a leaf that was there before, and the node it
  ends at loses its children.\<close>

fun add_node_path :: "ETrieNestedPathPolicy \<Rightarrow> bool \<Rightarrow> string list \<Rightarrow> trie_node \<Rightarrow> trie_node" where
  "add_node_path policy createdNode [] current = (if policy = Shorten then TrieNode [] else current)"
| "add_node_path policy createdNode (token # rest) current =
     (if \<not> createdNode \<and> Next current = [] \<and> policy = Shorten then TrieNode []
      else case map_of (Next current) token of
        Some child \<Rightarrow> TrieNode (emplace token (add_node_path policy createdNode rest child) (Next current))
      | None \<Rightarrow> TrieNode (emplace token (add_node_path policy True rest (TrieNode [])) (Next current)))"

text \<open>The state: the tokens of a flat trie, or the root of the tree, if there is one.\<close>

datatype trie_state = FlatState "flat_token list" | NodeState "trie_node option"

datatype root_pointer = RootOutlier | RootTokens | RootNull | RootNode

record trie =
  NestedPathPolicy :: ETrieNestedPathPolicy
  State :: trie_state
  OwnedPaths :: "string list"
  ViewState :: root_pointer

definition add_to_nodes :: "ETrieNestedPathPolicy \<Rightarrow> string list \<Rightarrow> trie_node option \<Rightarrow> trie_node" where
  "add_to_nodes policy tokenizedPath root =
     (case root of
        None \<Rightarrow> add_node_path policy True tokenizedPath (TrieNode [])
      | Some n \<Rightarrow> add_node_path policy False tokenizedPath n)"

fun tokens_of_flat :: "flat_token list \<Rightarrow> string list" where
  "tokens_of_flat (Tok s # rest) = s # tokens_of_flat rest"
| "tokens_of_flat ts = []"

definition AddPathUnsafe :: "trie \<Rightarrow> string list \<Rightarrow> trie" where
  "AddPathUnsafe t tokenizedPath =
     (let policy = NestedPathPolicy t;
          s = (case State t of
                 FlatState ts \<Rightarrow>
                   if ts \<noteq> [] then NodeState (Some (add_to_nodes policy (tokens_of_flat (butlast (butlast ts))) None))
                   else State t
               | NodeState _ \<Rightarrow> State t)
      in t\<lparr>State := (case s of
             FlatState _ \<Rightarrow> FlatState (map Tok tokenizedPath @ [LeafSentinel, AfterLeafSentinel])
           | NodeState root \<Rightarrow> NodeState (Some (add_to_nodes policy tokenizedPath root)))\<rparr>)"

definition UpdateRoot :: "trie \<Rightarrow> trie" where
  "UpdateRoot t = t\<lparr>ViewState :=
     (case State t of
        FlatState ts \<Rightarrow> if ts = [] then RootOutlier else RootTokens
      | NodeState root \<Rightarrow> if root = None then RootNull else RootNode)\<rparr>"

text \<open>The view of the root: following the pointer is only defined while it points into the state.\<close>

definition root_view :: "trie \<Rightarrow> trie_view res" where
  "root_view t =
     (case (ViewState t, State t) of
        (RootOutlier, _) \<Rightarrow> Inr OutlierView
      | (RootNull, _) \<Rightarrow> Inr NullView
      | (RootTokens, FlatState ts) \<Rightarrow> if ts = [] then Inl (Undefined ''dangling view'') else Inr (TokensView ts)
      | (RootNode, NodeState (Some n)) \<Rightarrow> Inr (NodeView n)
      | _ \<Rightarrow> Inl (Undefined ''dangling view''))"

definition empty_state :: "bool \<Rightarrow> trie_state" where
  "empty_state flat = (if flat then FlatState [] else NodeState None)"

fun add_paths :: "trie \<Rightarrow> string list \<Rightarrow> trie res" where
  "add_paths t [] = Inr t"
| "add_paths t (path # rest) = rbind (TokenizeTriePath path) (\<lambda>ts. add_paths (AddPathUnsafe t ts) rest)"

definition TTrie :: "string list \<Rightarrow> bool \<Rightarrow> ETrieNestedPathPolicy \<Rightarrow> trie res" where
  "TTrie paths enableFlattening policy =
     rbind (add_paths \<lparr>NestedPathPolicy = policy, State = empty_state (enableFlattening \<and> length paths < 2),
                       OwnedPaths = paths, ViewState = RootOutlier\<rparr> paths) (\<lambda>t. Inr (UpdateRoot t))"

definition AddPath :: "trie \<Rightarrow> string \<Rightarrow> trie res" where
  "AddPath t path =
     (let t = t\<lparr>OwnedPaths := OwnedPaths t @ [path]\<rparr> in
      rbind (TokenizeTriePath path) (\<lambda>ts. Inr (UpdateRoot (AddPathUnsafe t ts))))"

fun add_all :: "trie \<Rightarrow> string list \<Rightarrow> trie res" where
  "add_all t [] = Inr t"
| "add_all t (path # rest) = rbind (AddPath t path) (\<lambda>t. add_all t rest)"

definition Merge :: "trie \<Rightarrow> trie \<Rightarrow> trie res" where
  "Merge t other = add_all t (OwnedPaths other)"

definition Clear_trie :: "trie \<Rightarrow> bool \<Rightarrow> trie" where
  "Clear_trie t enableFlattening = t\<lparr>OwnedPaths := [], State := empty_state enableFlattening\<rparr>"

definition IsFlat :: "trie \<Rightarrow> bool" where
  "IsFlat t \<longleftrightarrow> (case State t of FlatState _ \<Rightarrow> True | NodeState _ \<Rightarrow> False)"

definition IsEmpty_trie :: "trie \<Rightarrow> bool res" where
  "IsEmpty_trie t = rbind (root_view t) (\<lambda>v. Inr (GetType v = Outlier))"

definition assign_trie :: "trie \<Rightarrow> trie \<Rightarrow> trie res" where
  "assign_trie t other =
     rbind (Merge (Clear_trie t (IsFlat other)) other) (\<lambda>t. Inr (t\<lparr>NestedPathPolicy := NestedPathPolicy other\<rparr>))"

section \<open>The leaves of a tree\<close>

fun is_leaf :: "trie_node \<Rightarrow> string list \<Rightarrow> bool" where
  "is_leaf n [] \<longleftrightarrow> Next n = []"
| "is_leaf n (t # ts) \<longleftrightarrow> (case map_of (Next n) t of None \<Rightarrow> False | Some c \<Rightarrow> is_leaf c ts)"

lemma map_of_emplace [simp]: "map_of (emplace t n next) = (map_of next)(t \<mapsto> n)"
  by (induction t n "next" rule: emplace.induct) auto

lemma emplace_nonempty [simp]: "emplace t n next \<noteq> []"
  by (induction t n "next" rule: emplace.induct) auto

lemma Next_empty: "Next n = [] \<Longrightarrow> is_leaf n ts \<longleftrightarrow> ts = []"
  by (cases ts) auto

lemma has_leaf: "\<exists>ts. is_leaf n ts"
proof (induction n)
  case (TrieNode xs)
  show ?case
  proof (cases xs)
    case Nil
    then have "is_leaf (TrieNode xs) []" by simp
    then show ?thesis by blast
  next
    case (Cons x rest)
    obtain t c where x: "x = (t, c)" by fastforce
    with Cons TrieNode [of x c] obtain ts where "is_leaf c ts" by auto
    then have "is_leaf (TrieNode xs) (t # ts)" using Cons x by simp
    then show ?thesis by blast
  qed
qed

lemma fresh_path: "is_leaf (add_node_path policy True ts (TrieNode [])) ws \<longleftrightarrow> ws = ts"
proof (induction ts arbitrary: ws)
  case Nil
  then show ?case by (cases ws) auto
next
  case (Cons t ts)
  then show ?case by (cases ws) auto
qed

text \<open>What the policies mean for the set of leaves.\<close>

lemma add_shorten:
  "is_leaf (add_node_path Shorten False ts n) ws \<longleftrightarrow>
     (if \<exists>u. prefix u ts \<and> is_leaf n u then is_leaf n ws else ws = ts \<or> is_leaf n ws \<and> \<not> prefix ts ws)"
proof (induction ts arbitrary: n ws)
  case Nil
  then show ?case by (cases ws) (auto simp: Next_empty)
next
  case (Cons t ts)
  show ?case
  proof (cases "Next n = []")
    case True
    then show ?thesis by (cases ws) (auto simp: Next_empty intro: exI [of _ "[]"])
  next
    case False
    have pre: "(\<exists>u. prefix u (t # ts) \<and> is_leaf n u) \<longleftrightarrow>
        (case map_of (Next n) t of None \<Rightarrow> False | Some c \<Rightarrow> \<exists>u. prefix u ts \<and> is_leaf c u)"
      using False by (auto simp: prefix_Cons split: option.splits)
    show ?thesis
    proof (cases ws)
      case Nil
      with False show ?thesis by (auto split: option.splits)
    next
      case (Cons w vs)
      show ?thesis
        using Cons False Cons.IH [of "the (map_of (Next n) t)" vs] fresh_path [of Shorten ts vs]
        unfolding pre by (auto split: option.splits if_splits)
    qed
  qed
qed

lemma add_extend:
  "is_leaf (add_node_path Extend created ts n) ws \<longleftrightarrow>
     (if \<exists>v. is_leaf n (ts @ v) then is_leaf n ws else ws = ts \<or> is_leaf n ws \<and> \<not> prefix ws ts)"
proof (induction ts arbitrary: n ws)
  case Nil
  then show ?case using has_leaf [of n] by simp
next
  case (Cons t ts)
  show ?case
  proof (cases ws)
    case Nil
    then show ?thesis by (auto split: option.splits)
  next
    case (Cons w vs)
    show ?thesis
      using Cons Cons.IH [of "the (map_of (Next n) t)" vs] fresh_path [of Extend ts vs]
      by (auto split: option.splits if_splits)
  qed
qed

section \<open>Classification\<close>

text \<open>What a set of paths, none a proper prefix of another, says of a sequence of tokens.\<close>

definition classify :: "(string list \<Rightarrow> bool) \<Rightarrow> string list \<Rightarrow> ETrieNodeType" where
  "classify A ts =
     (if A ts then Leaf
      else if \<exists>v. A (ts @ v) then Intermediary
      else if \<exists>u. prefix u ts \<and> A u then AfterLeaf
      else Outlier)"

lemma Visit_simps [simp]:
  "Visit (NodeView n) t =
     (case map_of (Next n) t of Some c \<Rightarrow> NodeView c | None \<Rightarrow> if Next n = [] then AfterLeafView else NullView)"
  "Visit (TokensView (Tok s # rest)) t = (if s = t then TokensView rest else OutlierView)"
  "Visit (TokensView (LeafSentinel # rest)) t = TokensView rest"
  "Visit (TokensView (AfterLeafSentinel # rest)) t = TokensView (AfterLeafSentinel # rest)"
  "Visit OutlierView t = OutlierView" "Visit NullView t = NullView" "Visit AfterLeafView t = AfterLeafView"
  by (simp_all add: Visit_def VisitInplace_def split: option.splits)

lemma GetType_special [simp]:
  "GetType (foldl Visit NullView ts) = Outlier" "GetType (foldl Visit OutlierView ts) = Outlier"
  "GetType (foldl Visit AfterLeafView ts) = AfterLeaf"
  by (induction ts) (simp_all add: GetType_def)

lemma classify_empty [simp]: "classify (\<lambda>_. False) ts = Outlier"
  by (simp add: classify_def)

lemma classify_node: "GetType (foldl Visit (NodeView n) ts) = classify (is_leaf n) ts"
proof (induction ts arbitrary: n)
  case Nil
  have "\<exists>v. is_leaf n v" by (rule has_leaf)
  then show ?case by (simp add: GetType_def classify_def)
next
  case (Cons t ts)
  show ?case
  proof (cases "map_of (Next n) t")
    case (Some c)
    then have "Visit (NodeView n) t = NodeView c" by simp
    moreover have "classify (is_leaf n) (t # ts) = classify (is_leaf c) ts"
    proof -
      have "Next n \<noteq> []" using Some by auto
      then have "(\<exists>u. prefix u (t # ts) \<and> is_leaf n u) \<longleftrightarrow> (\<exists>u. prefix u ts \<and> is_leaf c u)"
        using Some by (auto simp: prefix_Cons)
      with Some show ?thesis by (simp add: classify_def)
    qed
    ultimately show ?thesis using Cons.IH by simp
  next
    case None
    show ?thesis
    proof (cases "Next n = []")
      case True
      then have "\<exists>u. prefix u (t # ts) \<and> is_leaf n u" by (intro exI [of _ "[]"]) simp
      with True None show ?thesis by (simp add: classify_def)
    next
      case False
      then have "\<not> (\<exists>u. prefix u (t # ts) \<and> is_leaf n u)" using None by (auto simp: prefix_Cons)
      with False None show ?thesis by (simp add: classify_def)
    qed
  qed
qed

text \<open>A flat trie looks like the tree of its only path.\<close>

abbreviation flat_tokens :: "string list \<Rightarrow> flat_token list" where
  "flat_tokens ps \<equiv> map Tok ps @ [LeafSentinel, AfterLeafSentinel]"

lemma classify_after: "GetType (foldl Visit (TokensView [AfterLeafSentinel]) ts) = AfterLeaf"
  by (induction ts) (simp_all add: GetType_def)

lemma classify_flat: "GetType (foldl Visit (TokensView (flat_tokens ps)) ts) = classify (\<lambda>ws. ws = ps) ts"
proof (induction ts arbitrary: ps)
  case Nil
  then show ?case by (cases ps) (auto simp: GetType_def classify_def)
next
  case (Cons t ts)
  show ?case
  proof (cases ps)
    case Nil
    then show ?thesis by (auto simp: classify_after classify_def)
  next
    case ps: (Cons p qs)
    show ?thesis
    proof (cases "p = t")
      case True
      then have "Visit (TokensView (flat_tokens ps)) t = TokensView (flat_tokens qs)"
        using ps by simp
      moreover have "classify (\<lambda>ws. ws = ps) (t # ts) = classify (\<lambda>ws. ws = qs) ts"
        using ps True by (auto simp: classify_def prefix_Cons)
      ultimately show ?thesis using Cons.IH by simp
    next
      case False
      then show ?thesis
        using ps by (auto simp: classify_def prefix_Cons)
    qed
  qed
qed

section \<open>The paths a trie holds\<close>

fun paths_of :: "trie_state \<Rightarrow> string list \<Rightarrow> bool" where
  "paths_of (FlatState ts) ws \<longleftrightarrow> ts \<noteq> [] \<and> ws = tokens_of_flat ts"
| "paths_of (NodeState None) ws \<longleftrightarrow> False"
| "paths_of (NodeState (Some n)) ws \<longleftrightarrow> is_leaf n ws"

definition state_ok :: "trie_state \<Rightarrow> bool" where
  "state_ok s \<longleftrightarrow> (case s of FlatState ts \<Rightarrow> ts = [] \<or> (\<exists>ps. ts = flat_tokens ps) | NodeState _ \<Rightarrow> True)"

definition add_abs :: "ETrieNestedPathPolicy \<Rightarrow> string list \<Rightarrow> (string list \<Rightarrow> bool) \<Rightarrow> string list \<Rightarrow> bool" where
  "add_abs policy ts A ws \<longleftrightarrow>
     (if policy = Shorten
      then if \<exists>u. prefix u ts \<and> A u then A ws else ws = ts \<or> A ws \<and> \<not> prefix ts ws
      else if \<exists>v. A (ts @ v) then A ws else ws = ts \<or> A ws \<and> \<not> prefix ws ts)"

lemma tokens_of_flat_tokens [simp]: "tokens_of_flat (flat_tokens ps) = ps"
  by (induction ps) simp_all

lemma butlast_flat_tokens [simp]: "tokens_of_flat (butlast (butlast (flat_tokens ps))) = ps"
  by (induction ps) (simp_all add: butlast_append)

lemma add_to_nodes_paths:
  "is_leaf (add_to_nodes policy ts root) = add_abs policy ts (paths_of (NodeState root))"
proof (cases root)
  case None
  then show ?thesis by (auto simp: add_to_nodes_def add_abs_def fresh_path fun_eq_iff)
next
  case (Some n)
  then show ?thesis
    by (cases policy) (auto simp: add_to_nodes_def add_abs_def add_shorten add_extend fun_eq_iff)
qed

lemma AddPathUnsafe_paths:
  assumes "state_ok (State t)"
  shows "paths_of (State (AddPathUnsafe t ts)) = add_abs (NestedPathPolicy t) ts (paths_of (State t))"
    "state_ok (State (AddPathUnsafe t ts))" "NestedPathPolicy (AddPathUnsafe t ts) = NestedPathPolicy t"
proof -
  show "NestedPathPolicy (AddPathUnsafe t ts) = NestedPathPolicy t" by (simp add: AddPathUnsafe_def Let_def)
  show "state_ok (State (AddPathUnsafe t ts))"
    by (auto simp: AddPathUnsafe_def Let_def state_ok_def split: trie_state.splits)
  show "paths_of (State (AddPathUnsafe t ts)) = add_abs (NestedPathPolicy t) ts (paths_of (State t))"
  proof (cases "State t")
    case (FlatState fs)
    show ?thesis
    proof (cases "fs = []")
      case True
      with FlatState show ?thesis by (auto simp: AddPathUnsafe_def Let_def add_abs_def fun_eq_iff)
    next
      case False
      with assms FlatState obtain ps where ps: "fs = flat_tokens ps" by (auto simp: state_ok_def)
      have e: "paths_of (NodeState (Some (add_to_nodes (NestedPathPolicy t) ps None))) = paths_of (State t)"
        using FlatState ps by (auto simp: add_to_nodes_def fresh_path fun_eq_iff)
      have "paths_of (State (AddPathUnsafe t ts)) =
          is_leaf (add_to_nodes (NestedPathPolicy t) ts (Some (add_to_nodes (NestedPathPolicy t) ps None)))"
        using FlatState False ps by (simp add: AddPathUnsafe_def Let_def fun_eq_iff)
      then show ?thesis unfolding add_to_nodes_paths e .
    qed
  next
    case (NodeState root)
    then show ?thesis by (simp add: AddPathUnsafe_def Let_def fun_eq_iff add_to_nodes_paths)
  qed
qed

lemma root_view_classifies:
  assumes "state_ok (State t)"
  shows "\<exists>v. root_view (UpdateRoot t) = Inr v \<and> (\<forall>ts. GetType (foldl Visit v ts) = classify (paths_of (State t)) ts)"
proof (cases "State t")
  case (FlatState fs)
  show ?thesis
  proof (cases "fs = []")
    case True
    then have "paths_of (FlatState fs) = (\<lambda>_. False)" by (simp add: fun_eq_iff)
    with FlatState True show ?thesis by (simp add: root_view_def UpdateRoot_def)
  next
    case False
    with assms FlatState obtain ps where ps: "fs = flat_tokens ps" by (auto simp: state_ok_def)
    with FlatState have "paths_of (State t) = (\<lambda>ws. ws = ps)" by (auto simp: fun_eq_iff)
    with FlatState ps classify_flat [of ps] show ?thesis by (simp add: root_view_def UpdateRoot_def)
  qed
next
  case (NodeState root)
  show ?thesis
  proof (cases root)
    case None
    then have "paths_of (NodeState root) = (\<lambda>_. False)" by (simp add: fun_eq_iff)
    with NodeState None show ?thesis by (simp add: root_view_def UpdateRoot_def)
  next
    case (Some n)
    then have "paths_of (NodeState root) = is_leaf n" by (simp add: fun_eq_iff)
    with NodeState Some show ?thesis by (simp add: root_view_def UpdateRoot_def classify_node)
  qed
qed

lemma add_paths_paths:
  assumes "map TokenizeTriePath paths = map Inr tss" "state_ok (State t)"
  shows "\<exists>t'. add_paths t paths = Inr t' \<and> state_ok (State t') \<and>
    paths_of (State t') = fold (add_abs (NestedPathPolicy t)) tss (paths_of (State t))"
  using assms
proof (induction paths arbitrary: t tss)
  case (Cons p paths)
  then obtain ts rest where tss: "tss = ts # rest" "TokenizeTriePath p = Inr ts" "map TokenizeTriePath paths = map Inr rest"
    by (cases tss) auto
  from Cons.IH [OF tss(3) AddPathUnsafe_paths(2) [OF Cons.prems(2), of ts]] tss show ?case
    by (simp add: AddPathUnsafe_paths [OF Cons.prems(2)])
qed simp

section \<open>Shortest and longest paths\<close>

definition leaf_of :: "ETrieNestedPathPolicy \<Rightarrow> string list set \<Rightarrow> string list \<Rightarrow> bool" where
  "leaf_of policy P ws \<longleftrightarrow> ws \<in> P \<and>
     (\<forall>p\<in>P. (if policy = Shorten then prefix p ws else prefix ws p) \<longrightarrow> p = ws)"

lemma shortest_below: "p \<in> P \<Longrightarrow> \<exists>u. prefix u p \<and> leaf_of Shorten P u"
proof (induction "length p" arbitrary: p rule: less_induct)
  case less
  show ?case
  proof (cases "\<exists>q\<in>P. strict_prefix q p")
    case True
    then obtain q where q: "q \<in> P" "strict_prefix q p" by blast
    with less.hyps [of q] obtain u where "prefix u q" "leaf_of Shorten P u" using prefix_length_less by blast
    with q show ?thesis by (meson prefix_order.dual_order.strict_implies_order prefix_order.order_trans)
  next
    case False
    with less.prems show ?thesis by (auto simp: leaf_of_def strict_prefix_def)
  qed
qed

lemma longest_above:
  assumes "finite P" "p \<in> P"
  shows "\<exists>u. prefix p u \<and> leaf_of Extend P u"
proof -
  let ?L = "length ` {q \<in> P. prefix p q}"
  have "finite ?L" "?L \<noteq> {}" using assms by auto
  then have "Max ?L \<in> ?L" "\<forall>q\<in>{q \<in> P. prefix p q}. length q \<le> Max ?L" by auto
  then obtain u where u: "u \<in> P" "prefix p u" "\<forall>q\<in>{q \<in> P. prefix p q}. length q \<le> length u" by auto
  have "q = u" if q: "q \<in> P" "prefix u q" for q
  proof -
    have "length q \<le> length u" using u(3) q(1) prefix_order.order_trans [OF u(2) q(2)] by blast
    with q(2) show ?thesis by (auto simp: prefix_def)
  qed
  with u show ?thesis by (auto simp: leaf_of_def)
qed

lemma add_abs_leaf:
  assumes "finite P"
  shows "add_abs policy ts (leaf_of policy P) = leaf_of policy (insert ts P)"
proof (cases policy)
  case Shorten
  have "(\<exists>u. prefix u ts \<and> leaf_of Shorten P u) \<longleftrightarrow> (\<exists>p\<in>P. prefix p ts)"
    using shortest_below by (metis leaf_of_def prefix_order.order_trans)
  then show ?thesis
    using Shorten by (auto simp: add_abs_def leaf_of_def fun_eq_iff dest: prefix_order.order_trans prefix_order.antisym)
next
  case Extend
  have "(\<exists>v. leaf_of Extend P (ts @ v)) \<longleftrightarrow> (\<exists>p\<in>P. prefix ts p)"
    using longest_above [OF assms] by (metis leaf_of_def prefix_def prefix_order.order_trans)
  then show ?thesis
    using Extend by (auto simp: add_abs_def leaf_of_def fun_eq_iff dest: prefix_order.order_trans prefix_order.antisym)
qed

lemma fold_add_abs: "finite P \<Longrightarrow> fold (add_abs policy) tss (leaf_of policy P) = leaf_of policy (P \<union> set tss)"
  by (induction tss arbitrary: P) (simp_all add: add_abs_leaf)

section \<open>Where tries go wrong\<close>

text \<open>Clearing a trie that holds a path leaves its view of the root pointing at what was destroyed.\<close>

lemma cleared_trie_dangles:
  "ViewState t = RootTokens \<or> ViewState t = RootNode \<Longrightarrow>
   IsEmpty_trie (Clear_trie t flat) = Inl (Undefined ''dangling view'')"
  by (auto simp: IsEmpty_trie_def Clear_trie_def root_view_def empty_state_def)

text \<open>Assignment copies the paths under the old policy: an extending trie of \<open>/a\<close> and \<open>/a/b\<close> assigned
  to a shortening one gives a trie in which \<open>/a\<close> is a leaf.\<close>

lemma assigned_trie_old_policy:
  "rbind (TTrie [] False Shorten) (\<lambda>t. rbind (TTrie [''/a'', ''/a/b''] False Extend) (\<lambda>other.
     rbind (root_view other) (\<lambda>v. rbind (assign_trie t other) (\<lambda>t'. rbind (root_view t') (\<lambda>v'.
       Inr (GetType (Visit v ''a''), GetType (Visit v' ''a'')))))))
   = Inr (Intermediary, Leaf)"
  by code_simp

text \<open>The tokens of a trie are in escaped form, and \<open>GetNestedPaths\<close> escapes them again.\<close>

lemma nested_paths_escaped_twice:
  "rbind (TTrie [''/a'' @ [CHR 0x5C] @ ''/b''] True Shorten) (\<lambda>t. rbind (root_view t) (\<lambda>v. Inr (GetNestedPaths v [])))
   = Inr [''/a'' @ [CHR 0x5C, CHR 0x5C, CHR 0x5C] @ ''/b'']"
  by code_simp

section \<open>Properties\<close>

text \<open>C8. A trie classifies every sequence of tokens by the paths it was built from, flat or not: with
  the policy \<open>Shorten\<close> the leaves are the paths that have no other path as a prefix, with \<open>Extend\<close>
  those that are not a prefix of another; proper prefixes of leaves are intermediate, proper
  extensions are after a leaf, and everything else is outside.\<close>

theorem trie_classifies:
  assumes "map TokenizeTriePath paths = map Inr tss"
  shows "\<exists>t v. TTrie paths flat policy = Inr t \<and> root_view t = Inr v \<and>
    (\<forall>ws. GetType (foldl Visit v ws) = classify (leaf_of policy (set tss)) ws)"
proof -
  let ?t = "\<lparr>NestedPathPolicy = policy, State = empty_state (flat \<and> length paths < 2), OwnedPaths = paths, ViewState = RootOutlier\<rparr>"
  have ok: "state_ok (State ?t)" and none: "paths_of (State ?t) = leaf_of policy {}"
    by (auto simp: state_ok_def empty_state_def leaf_of_def fun_eq_iff)
  from add_paths_paths [OF assms ok] obtain t where t: "add_paths ?t paths = Inr t" "state_ok (State t)"
    "paths_of (State t) = leaf_of policy (set tss)"
    unfolding none using fold_add_abs [of "{}" policy tss] by auto
  with root_view_classifies [OF t(2)] show ?thesis by (auto simp: TTrie_def)
qed

theorem trie_classifies_witness:
  "map TokenizeTriePath [''/a'', ''/a/b'', ''/c''] = map Inr [[''a''], [''a'', ''b''], [''c'']] \<and>
   (\<exists>t v. TTrie [''/a'', ''/a/b'', ''/c''] True Shorten = Inr t \<and> root_view t = Inr v \<and>
     GetType (Visit v ''a'') = Leaf)"
proof -
  have m: "map TokenizeTriePath [''/a'', ''/a/b'', ''/c''] = map Inr [[''a''], [''a'', ''b''], [''c'']]" by code_simp
  obtain t v where t: "TTrie [''/a'', ''/a/b'', ''/c''] True Shorten = Inr t" "root_view t = Inr v"
    "GetType (foldl Visit v [''a'']) = classify (leaf_of Shorten (set [[''a''], [''a'', ''b''], [''c'']])) [''a'']"
    using trie_classifies [OF m] by blast
  have "leaf_of Shorten (set [[''a''], [''a'', ''b''], [''c'']]) [''a'']" by (auto simp: leaf_of_def prefix_Cons)
  with t(3) have "GetType (Visit v ''a'') = Leaf" by (simp add: classify_def)
  with m t show ?thesis by blast
qed

end
