(* ===== verification/IntegerText.thy ===== *)
theory IntegerText
  imports Prelude
begin

text \<open>
  Integers as text: the parser and the formatter of \<open>util/string/cast.cpp\<close> and
  \<open>util/string/cast.h\<close> that \<open>FromString\<close>, \<open>IntFromString\<close>, \<open>ToString\<close> and \<open>IntToString\<close>
  reduce to. All of their instances work on 64 bits and differ in the base, in the
  signedness and in the bounds of the type they are asked for, which are arguments here.

  A parse status other than \<open>PS_OK\<close> is an \<open>Inl\<close>, and \<open>PS_OK\<close> with the target is an \<open>Inr\<close>.
  A signed target is kept as its 64 bits.
\<close>

unbundle bit_operations_syntax

section \<open>Parser\<close>

datatype EParseStatus =
  PS_EMPTY_STRING | PS_PLUS_STRING | PS_MINUS_STRING | PS_BAD_SYMBOL | PS_OVERFLOW

definition LetterToIntMap :: "nat list" where
  "LetterToIntMap = [
    20, 20, 20, 20, 20, 20, 20, 20, 20, 20,
    20, 20, 20, 20, 20, 20, 20, 20, 20, 20,
    20, 20, 20, 20, 20, 20, 20, 20, 20, 20,
    20, 20, 20, 20, 20, 20, 20, 20, 20, 20,
    20, 20, 20, 20, 20, 20, 20, 20, 0, 1,
    2, 3, 4, 5, 6, 7, 8, 9, 20, 20,
    20, 20, 20, 20, 20, 10, 11, 12, 13, 14,
    15, 20, 20, 20, 20, 20, 20, 20, 20, 20,
    20, 20, 20, 20, 20, 20, 20, 20, 20, 20,
    20, 20, 20, 20, 20, 20, 20, 10, 11, 12,
    13, 14, 15]"

text \<open>The row of \<open>SAFE_LENS\<close> for 64 bits, indexed by the base.\<close>

definition SAFE_LENS :: "nat list" where
  "SAFE_LENS = [0, 0, 63, 40, 31, 27, 24, 22, 21, 20, 19, 18, 17, 17, 16, 16, 15]"

text \<open>A character from 128 on is negative, so it is below \<open>'0'\<close> and, converted to an unsigned
  number, beyond the table.\<close>

definition CharToDigit :: "nat \<Rightarrow> char \<Rightarrow> nat option" where
  "CharToDigit base c =
    (if 10 < base
     then (if length LetterToIntMap \<le> of_char c then None
       else if LetterToIntMap ! of_char c < base then Some (LetterToIntMap ! of_char c) else None)
     else (if 48 \<le> (of_char c :: nat) \<and> (of_char c :: nat) < 128 \<and> of_char c - 48 < base
       then Some (of_char c - 48) else None))"

fun parse_pairs :: "nat \<Rightarrow> string \<Rightarrow> u64 \<Rightarrow> string \<times> u64" where
  "parse_pairs base (c1 # c2 # cs) result =
    (case (CharToDigit base c1, CharToDigit base c2) of
       (Some d1, Some d2) \<Rightarrow>
         parse_pairs base cs (result * of_nat (base * base) + of_nat d1 * of_nat base + of_nat d2)
     | _ \<Rightarrow> (c1 # c2 # cs, result))"
| "parse_pairs base cs result = (cs, result)"

fun parse_singles :: "nat \<Rightarrow> string \<Rightarrow> u64 \<Rightarrow> string \<times> u64" where
  "parse_singles base (c # cs) result =
    (case CharToDigit base c of
       Some d \<Rightarrow> parse_singles base cs (result * of_nat base + of_nat d)
     | None \<Rightarrow> (c # cs, result))"
| "parse_singles base [] result = ([], result)"

definition ParseFast :: "nat \<Rightarrow> string \<Rightarrow> u64 option" where
  "ParseFast base cs =
    (case parse_pairs base cs 0 of (rest, result) \<Rightarrow>
     case parse_singles base rest result of (rest', result') \<Rightarrow>
       if rest' = [] then Some result' else None)"

fun ParseSlow_loop :: "nat \<Rightarrow> u64 \<Rightarrow> string \<Rightarrow> u64 \<Rightarrow> EParseStatus + u64" where
  "ParseSlow_loop base limit (c # cs) result =
    (case CharToDigit base c of
       None \<Rightarrow> Inl PS_BAD_SYMBOL
     | Some digit \<Rightarrow>
         if limit div of_nat base < result then Inl PS_OVERFLOW
         else if limit - of_nat digit < result * of_nat base then Inl PS_OVERFLOW
         else ParseSlow_loop base limit cs (result * of_nat base + of_nat digit))"
| "ParseSlow_loop base limit [] result = Inr result"

definition ParseSlow :: "nat \<Rightarrow> string \<Rightarrow> u64 \<Rightarrow> EParseStatus + u64" where
  "ParseSlow base cs limit = ParseSlow_loop base limit cs 0"

definition TBasicIntParser_Parse :: "nat \<Rightarrow> string \<Rightarrow> u64 \<Rightarrow> EParseStatus + u64" where
  "TBasicIntParser_Parse base cs limit =
    (if length cs \<le> SAFE_LENS ! base
     then (case ParseFast base cs of
         Some result \<Rightarrow> if result \<le> limit then Inr result else ParseSlow base cs limit
       | None \<Rightarrow> ParseSlow base cs limit)
     else ParseSlow base cs limit)"

record bounds =
  PositiveMax :: u64
  NegativeMax :: u64

definition NegatePositiveSigned :: "u64 \<Rightarrow> u64" where
  "NegatePositiveSigned v = (if 0 < v then - (v - 1) - 1 else 0)"

definition TIntParser_Parse :: "nat \<Rightarrow> bool \<Rightarrow> bounds \<Rightarrow> string \<Rightarrow> EParseStatus + u64" where
  "TIntParser_Parse base isSigned b s =
    (case s of
       [] \<Rightarrow> Inl PS_EMPTY_STRING
     | c # cs \<Rightarrow>
         if c = CHR ''+''
         then (if cs = [] then Inl PS_PLUS_STRING else TBasicIntParser_Parse base cs (PositiveMax b))
         else if isSigned \<and> c = CHR ''-''
         then (if cs = [] then Inl PS_MINUS_STRING
           else (case TBasicIntParser_Parse base cs (NegativeMax b) of
               Inl e \<Rightarrow> Inl e | Inr result \<Rightarrow> Inr (NegatePositiveSigned result)))
         else TBasicIntParser_Parse base s (PositiveMax b))"

text \<open>\<open>ParseInt\<close> turns a failed parse into an exception.\<close>

definition ParseInt :: "nat \<Rightarrow> bool \<Rightarrow> bounds \<Rightarrow> string \<Rightarrow> u64 res" where
  "ParseInt base isSigned b s =
    (case TIntParser_Parse base isSigned b s of
       Inl PS_EMPTY_STRING \<Rightarrow> Inl (Thrown ''Cannot parse empty string as number'')
     | Inl PS_PLUS_STRING \<Rightarrow> Inl (Thrown ''Cannot parse string + as number'')
     | Inl PS_MINUS_STRING \<Rightarrow> Inl (Thrown ''Cannot parse string - as number'')
     | Inl PS_BAD_SYMBOL \<Rightarrow> Inl (Thrown ''Unexpected symbol'')
     | Inl PS_OVERFLOW \<Rightarrow> Inl (Thrown ''Integer overflow in string'')
     | Inr v \<Rightarrow> Inr v)"

definition llSBounds :: bounds where
  "llSBounds = \<lparr>PositiveMax = 2 ^ 63 - 1, NegativeMax = (2 ^ 64 - 1) - (2 ^ 63 - 1)\<rparr>"

definition llUBounds :: bounds where
  "llUBounds = \<lparr>PositiveMax = 2 ^ 64 - 1, NegativeMax = 0\<rparr>"

section \<open>Formatter\<close>

definition IntToChar :: string where
  "IntToChar = ''0123456789ABCDEF''"

function TBufSizeRec :: "nat \<Rightarrow> nat \<Rightarrow> nat" where
  "TBufSizeRec radix v = (if v = 0 \<or> radix < 2 then 1 else 1 + TBufSizeRec radix (v div radix))"
  by pat_completeness auto
termination
  by (relation "measure snd") auto

declare TBufSizeRec.simps [simp del]

definition bufferSize :: "nat \<Rightarrow> bool \<Rightarrow> nat" where
  "bufferSize radix isSigned =
    (if isSigned then 1 else 0) +
    (if radix = 2 then 64 else TBufSizeRec radix (if isSigned then 2 ^ 63 - 1 else 2 ^ 64 - 1))"

definition digit_char :: "nat \<Rightarrow> u64 \<Rightarrow> char" where
  "digit_char radix r = (if radix \<le> 10 then char_of (unat r + 48) else IntToChar ! unat r)"

fun convert_loop :: "nat \<Rightarrow> nat \<Rightarrow> u64 \<Rightarrow> string \<Rightarrow> u64 \<times> string" where
  "convert_loop radix 0 t written = (t, written)"
| "convert_loop radix (Suc room) t written =
    (if t = 0 then (t, written)
     else let v = t div of_nat radix;
        r = (if radix \<in> {2, 4, 8, 16} then t AND of_nat (radix - 1) else t - of_nat radix * v)
      in convert_loop radix room v (digit_char radix r # written))"

definition ConvertUnsigned :: "nat \<Rightarrow> u64 \<Rightarrow> nat \<Rightarrow> string res" where
  "ConvertUnsigned radix t bufLen =
    (if bufLen = 0 then Inl (Thrown ''zero length'')
     else if t = 0 then Inr ''0''
     else case convert_loop radix bufLen t [] of (t', written) \<Rightarrow>
       if t' = 0 then Inr written else Inl (Thrown ''not enough room in buffer''))"

definition Convert :: "nat \<Rightarrow> bool \<Rightarrow> u64 \<Rightarrow> nat \<Rightarrow> string res" where
  "Convert radix isSigned t bufLen =
    (let bufLen' = min (bufferSize radix isSigned) bufLen
     in if isSigned \<and> sint t < 0
        then (if bufLen' < 2 then Inl (Thrown ''not enough room in buffer'')
          else rbind (ConvertUnsigned radix (- (t + 1) + 1) (bufLen' - 1)) (\<lambda>s. Inr (CHR ''-'' # s)))
        else ConvertUnsigned radix t bufLen')"

definition IntToString :: "nat \<Rightarrow> bool \<Rightarrow> u64 \<Rightarrow> string res" where
  "IntToString radix isSigned t = Convert radix isSigned t 256"

section \<open>The number a text denotes\<close>

definition is_digit :: "nat \<Rightarrow> char \<Rightarrow> bool" where
  "is_digit base c \<longleftrightarrow> CharToDigit base c \<noteq> None"

definition digit_of :: "nat \<Rightarrow> char \<Rightarrow> nat" where
  "digit_of base c = (case CharToDigit base c of Some d \<Rightarrow> d | None \<Rightarrow> 0)"

fun number_from :: "nat \<Rightarrow> nat \<Rightarrow> string \<Rightarrow> nat" where
  "number_from base r [] = r"
| "number_from base r (c # cs) = number_from base (r * base + digit_of base c) cs"

abbreviation number_of :: "nat \<Rightarrow> string \<Rightarrow> nat" where
  "number_of base \<equiv> number_from base 0"

abbreviation all_digits :: "nat \<Rightarrow> string \<Rightarrow> bool" where
  "all_digits base \<equiv> list_all (is_digit base)"

lemma CharToDigit_eq: "CharToDigit base c = (if is_digit base c then Some (digit_of base c) else None)"
  by (auto simp: is_digit_def digit_of_def split: option.splits)

lemma digit_of_less: "is_digit base c \<Longrightarrow> digit_of base c < base"
  by (auto simp: is_digit_def digit_of_def CharToDigit_def split: if_splits)

lemma number_from_append: "number_from base r (xs @ ys) = number_from base (number_from base r xs) ys"
  by (induction xs arbitrary: r) auto

lemma number_from_mono: "r \<le> r' \<Longrightarrow> number_from base r cs \<le> number_from base r' cs"
  by (induction cs arbitrary: r r') (auto intro: mult_le_mono1)

lemma number_from_ge: "1 \<le> base \<Longrightarrow> r \<le> number_from base r cs"
proof (induction cs arbitrary: r)
  case (Cons c cs)
  have "r \<le> r * base + digit_of base c" using Cons.prems by (simp add: trans_le_add1)
  then show ?case using Cons.IH [OF Cons.prems, of "r * base + digit_of base c"] by simp
qed simp

lemma number_from_less: "all_digits base cs \<Longrightarrow> number_from base r cs < (r + 1) * base ^ length cs"
proof (induction cs arbitrary: r)
  case (Cons c cs)
  have "r * base + digit_of base c + 1 \<le> (r + 1) * base" using digit_of_less [of base c] Cons.prems by simp
  then have "(r * base + digit_of base c + 1) * base ^ length cs \<le> (r + 1) * base * base ^ length cs"
    by (rule mult_le_mono1)
  then show ?case using Cons.IH [of "r * base + digit_of base c"] Cons.prems by (simp add: algebra_simps)
qed simp

section \<open>The fast and the slow parser\<close>

lemma parse_pairs_prefix:
  "\<exists>xs. cs = xs @ fst (parse_pairs base cs result) \<and> all_digits base xs \<and>
     (\<forall>r. result = of_nat r \<longrightarrow> snd (parse_pairs base cs result) = of_nat (number_from base r xs))"
proof (induction base cs result rule: parse_pairs.induct)
  case (1 base c1 c2 cs result)
  show ?case
  proof (cases "is_digit base c1 \<and> is_digit base c2")
    case True
    let ?next = "result * of_nat (base * base) + of_nat (digit_of base c1) * of_nat base + of_nat (digit_of base c2)"
    obtain xs where xs: "cs = xs @ fst (parse_pairs base cs ?next)" "all_digits base xs"
      "\<And>r. ?next = of_nat r \<longrightarrow> snd (parse_pairs base cs ?next) = of_nat (number_from base r xs)"
      using 1 [of "Some (digit_of base c1)" "Some (digit_of base c2)" "digit_of base c1" "digit_of base c2"] True
      by (auto simp: CharToDigit_eq)
    have "?next = of_nat ((r * base + digit_of base c1) * base + digit_of base c2)" if "result = of_nat r" for r
      by (simp add: that algebra_simps)
    then have "snd (parse_pairs base cs ?next) = of_nat (number_from base r (c1 # c2 # xs))" if "result = of_nat r" for r
      using xs(3) that by (metis number_from.simps(2))
    then show ?thesis using True xs(1,2) by (intro exI [of _ "c1 # c2 # xs"]) (simp add: CharToDigit_eq)
  qed (auto simp: CharToDigit_eq intro: exI [of _ "[]"])
qed (auto intro: exI [of _ "[]"])

lemma parse_singles_spec:
  "parse_singles base cs (of_nat r) =
    (dropWhile (is_digit base) cs, of_nat (number_from base r (takeWhile (is_digit base) cs)))"
proof (induction cs arbitrary: r)
  case (Cons c cs)
  show ?case using Cons.IH [of "r * base + digit_of base c"] by (simp add: CharToDigit_eq)
qed simp

lemma ParseFast_spec: "ParseFast base cs = (if all_digits base cs then Some (of_nat (number_of base cs)) else None)"
proof -
  obtain rest result where pp: "parse_pairs base cs 0 = (rest, result)" by fastforce
  obtain xs where xs: "cs = xs @ rest" "all_digits base xs"
    and v: "\<forall>r. 0 = (of_nat r :: u64) \<longrightarrow> result = of_nat (number_from base r xs)"
    using parse_pairs_prefix [of cs base 0] unfolding pp fst_conv snd_conv by blast
  have result: "result = of_nat (number_of base xs)" using v [rule_format, of 0] by simp
  have dw: "dropWhile (is_digit base) rest = [] \<longleftrightarrow> all_digits base rest"
    by (simp add: list_all_iff)
  have tw: "takeWhile (is_digit base) rest = rest" if "all_digits base rest"
    using that by (simp add: takeWhile_eq_all_conv list_all_iff)
  have "parse_pairs base (xs @ rest) 0 = (rest, result)" using pp xs(1) by simp
  then show ?thesis
    using xs(2) result unfolding ParseFast_def xs(1)
    by (simp add: parse_singles_spec number_from_append tw dw del: dropWhile_eq_Nil_conv)
qed

lemma SAFE_LENS_safe:
  assumes "2 \<le> base" "base \<le> 16" shows "base ^ (SAFE_LENS ! base) \<le> 2 ^ 64"
proof -
  have "\<forall>b \<in> {2..<17}. b ^ (SAFE_LENS ! b) \<le> (2 ^ 64 :: nat)"
    by (simp add: SAFE_LENS_def atLeastLessThan_nat_numeral)
  then show ?thesis using assms by auto
qed

lemma unat_of_nat_u64: "n < 2 ^ 64 \<Longrightarrow> unat (of_nat n :: u64) = n"
  by (simp add: unat_of_nat)

lemma ParseFast_safe:
  assumes "2 \<le> base" "base \<le> 16" "length cs \<le> SAFE_LENS ! base" "all_digits base cs"
  shows "number_of base cs < 2 ^ 64"
proof -
  have "number_of base cs < base ^ length cs" using number_from_less [OF assms(4), of 0] by simp
  also have "\<dots> \<le> base ^ (SAFE_LENS ! base)" using assms by (intro power_increasing) auto
  finally show ?thesis using SAFE_LENS_safe [OF assms(1,2)] by simp
qed

lemma slow_step:
  assumes b: "2 \<le> base" "base \<le> 16" and l: "15 \<le> limit" and d: "d < base" and r: "r < 2 ^ 64"
  shows "(\<not> limit div of_nat base < (of_nat r :: u64) \<and> \<not> limit - of_nat d < of_nat r * of_nat base) \<longleftrightarrow>
    r * base + d \<le> unat limit"
proof -
  have ub: "unat (of_nat base :: u64) = base" and ud: "unat (of_nat d :: u64) = d" and ur: "unat (of_nat r :: u64) = r"
    using b d r by (auto intro!: unat_of_nat_u64)
  have lim: "15 \<le> unat limit" using l by (simp add: word_le_nat_alt)
  have sub: "unat (limit - of_nat d) = unat limit - d"
    using lim d b ud by (subst unat_sub) (auto simp: word_le_nat_alt)
  have first: "\<not> limit div of_nat base < (of_nat r :: u64) \<longleftrightarrow> r * base \<le> unat limit"
    using b by (simp add: word_less_nat_alt unat_div ub ur not_less less_eq_div_iff_mult_less_eq)
  have "unat (of_nat r * of_nat base :: u64) = r * base" if "r * base \<le> unat limit"
  proof -
    have "r * base < 2 ^ 64" using that unsigned_less [of limit, where ?'a = nat] by simp
    then show ?thesis by (metis of_nat_mult unat_of_nat_u64)
  qed
  then have second: "\<not> limit - of_nat d < (of_nat r * of_nat base :: u64) \<longleftrightarrow> r * base + d \<le> unat limit" if "r * base \<le> unat limit"
    using that lim d b by (simp add: word_less_nat_alt sub not_less) linarith
  show ?thesis using first second by auto
qed

lemma ParseSlow_loop_spec:
  assumes b: "2 \<le> base" "base \<le> 16" and l: "15 \<le> limit"
  shows "r \<le> unat limit \<Longrightarrow>
    (all_digits base cs \<longrightarrow> ParseSlow_loop base limit cs (of_nat r) =
       (if number_from base r cs \<le> unat limit then Inr (of_nat (number_from base r cs)) else Inl PS_OVERFLOW)) \<and>
    (\<not> all_digits base cs \<longrightarrow> (\<exists>e. ParseSlow_loop base limit cs (of_nat r) = Inl e))"
proof (induction cs arbitrary: r)
  case (Cons c cs)
  have r: "r < 2 ^ 64" using Cons.prems unsigned_less [of limit, where ?'a = nat] by simp
  show ?case
  proof (cases "is_digit base c")
    case True
    let ?r = "r * base + digit_of base c"
    note step = slow_step [OF b l digit_of_less [OF True] r]
    show ?thesis
    proof (cases "?r \<le> unat limit")
      case fits: True
      then show ?thesis using Cons.IH [OF fits] step True by (simp add: CharToDigit_eq)
    next
      case False
      have "?r \<le> number_from base ?r cs" using b by (intro number_from_ge) simp
      then show ?thesis using step True False by (auto simp: CharToDigit_eq)
    qed
  qed (simp add: CharToDigit_eq)
qed simp

lemma basic_parse_spec:
  assumes b: "2 \<le> base" "base \<le> 16" and l: "15 \<le> limit"
  shows "(all_digits base cs \<longrightarrow> TBasicIntParser_Parse base cs limit =
       (if number_of base cs \<le> unat limit then Inr (of_nat (number_of base cs)) else Inl PS_OVERFLOW)) \<and>
    (\<not> all_digits base cs \<longrightarrow> (\<exists>e. TBasicIntParser_Parse base cs limit = Inl e))"
proof -
  note slow = ParseSlow_loop_spec [OF b l, of 0 cs]
  have "of_nat (number_of base cs) \<le> limit \<longleftrightarrow> number_of base cs \<le> unat limit"
    if "all_digits base cs" "length cs \<le> SAFE_LENS ! base"
    using ParseFast_safe [OF b that(2,1)] by (simp add: word_le_nat_alt unat_of_nat_u64)
  then show ?thesis using slow
    by (auto simp: TBasicIntParser_Parse_def ParseSlow_def ParseFast_spec)
qed

lemma sign_not_digit:
  "base \<le> 16 \<Longrightarrow> \<not> is_digit base CHR ''+''" "base \<le> 16 \<Longrightarrow> \<not> is_digit base CHR ''-''"
  by (simp_all add: is_digit_def CharToDigit_def LetterToIntMap_def)

lemma NegatePositiveSigned_eq: "NegatePositiveSigned v = - v"
proof (cases "v = 0")
  case False
  then have "0 < v" by (simp add: word_gt_0)
  then show ?thesis by (simp add: NegatePositiveSigned_def)
qed (simp add: NegatePositiveSigned_def)

section \<open>The formatter\<close>

lemma digit_char_digit:
  assumes "2 \<le> base" "base \<le> 16" "d < base"
  shows "is_digit base (digit_char base (of_nat d)) \<and> digit_of base (digit_char base (of_nat d)) = d"
proof (cases "base \<le> 10")
  case True
  then show ?thesis using assms
    by (simp add: is_digit_def digit_of_def CharToDigit_def digit_char_def unat_of_nat_u64)
next
  case False
  have "\<forall>i \<in> {0..<16}. LetterToIntMap ! of_char (IntToChar ! i) = i \<and> of_char (IntToChar ! i) < length LetterToIntMap"
    by (simp add: LetterToIntMap_def IntToChar_def atLeastLessThan_nat_numeral)
  then show ?thesis using assms False
    by (auto simp: is_digit_def digit_of_def CharToDigit_def digit_char_def unat_of_nat_u64 not_le)
qed

lemma radix_remainder:
  assumes "2 \<le> radix" "radix \<le> 16"
  shows "(if radix \<in> {2, 4, 8, 16} then t AND of_nat (radix - 1) else t - of_nat radix * (t div of_nat radix)) =
    (of_nat (unat t mod radix) :: u64)"
proof (cases "radix \<in> {2, 4, 8, 16}")
  case True
  then consider "radix = 2 ^ 1" | "radix = 2 ^ 2" | "radix = 2 ^ 3" | "radix = 2 ^ 4" by auto
  then obtain k where k: "radix = 2 ^ k" by metis
  have "(of_nat (radix - 1) :: u64) = mask k" by (simp add: k mask_eq_exp_minus_1 of_nat_diff)
  then have "t AND of_nat (radix - 1) = take_bit k t" by (simp add: take_bit_eq_mask)
  also have "\<dots> = of_nat (unat t mod radix)"
    by (simp add: k flip: take_bit_eq_mod) (metis of_nat_unat ucast_id unsigned_take_bit_eq)
  finally show ?thesis using True by simp
next
  case False
  have u: "unat (of_nat radix :: u64) = radix" using assms by (intro unat_of_nat_u64) simp
  have "t - of_nat radix * (t div of_nat radix) = t mod of_nat radix"
    by (simp add: minus_mult_div_eq_mod)
  also have "\<dots> = of_nat (unat (t mod of_nat radix))" by simp
  also have "unat (t mod of_nat radix) = unat t mod radix" by (simp only: unat_mod u)
  finally show ?thesis using False by simp
qed

lemma convert_loop_spec:
  assumes r: "2 \<le> radix" "radix \<le> 16"
  shows "unat t < radix ^ room \<Longrightarrow> \<exists>s. convert_loop radix room t written = (0, s @ written) \<and>
    all_digits radix s \<and> number_of radix s = unat t"
proof (induction room arbitrary: t written)
  case 0
  then show ?case by (simp add: unsigned_eq_0_iff)
next
  case (Suc room)
  have u: "unat (t div of_nat radix) = unat t div radix" using r by (simp add: unat_div unat_of_nat_u64)
  have d: "unat t mod radix < radix" using r by simp
  have "unat t div radix < radix ^ room" using Suc.prems r by (simp add: less_mult_imp_div_less mult.commute)
  then obtain s where s: "convert_loop radix room (t div of_nat radix)
      (digit_char radix (of_nat (unat t mod radix)) # written) =
      (0, s @ digit_char radix (of_nat (unat t mod radix)) # written)"
    "all_digits radix s" "number_of radix s = unat t div radix"
    using Suc.IH [of "t div of_nat radix" "digit_char radix (of_nat (unat t mod radix)) # written"] u by auto
  show ?case
  proof (cases "t = 0")
    case False
    show ?thesis
      by (rule exI [of _ "s @ [digit_char radix (of_nat (unat t mod radix))]"])
        (use False s digit_char_digit [OF r d] in
          \<open>simp add: radix_remainder [OF r] number_from_append div_mult_mod_eq del: insert_iff\<close>)
  qed simp
qed

lemma TBufSizeRec_bound:
  assumes "2 \<le> radix" shows "v + 1 \<le> radix ^ (TBufSizeRec radix v - 1)"
proof (induction v rule: less_induct)
  case (less v)
  show ?case
  proof (cases "v = 0")
    case False
    have ge: "1 \<le> TBufSizeRec radix u" for u by (subst TBufSizeRec.simps) simp
    have "v div radix + 1 \<le> radix ^ (TBufSizeRec radix (v div radix) - 1)"
      using less.IH [of "v div radix"] assms False by simp
    then have "(v div radix + 1) * radix \<le> radix ^ (TBufSizeRec radix (v div radix) - 1) * radix"
      by (rule mult_le_mono1)
    also have "\<dots> = radix ^ TBufSizeRec radix (v div radix)"
      using ge [of "v div radix"] by (simp flip: power_Suc2)
    also have "\<dots> = radix ^ (TBufSizeRec radix v - 1)"
      using assms False by (subst (2) TBufSizeRec.simps) simp
    moreover have "v + 1 \<le> (v div radix + 1) * radix"
      using div_mult_mod_eq [of v radix] mod_less_divisor [of radix v] assms unfolding add_mult_distrib by linarith
    ultimately show ?thesis by linarith
  qed (simp add: TBufSizeRec.simps)
qed

lemma TBufSizeRec_room:
  assumes "2 \<le> radix" shows "v + 1 < radix ^ TBufSizeRec radix v"
proof -
  have ge: "1 \<le> TBufSizeRec radix v" by (subst TBufSizeRec.simps) simp
  have "radix ^ (TBufSizeRec radix v - 1) < radix ^ TBufSizeRec radix v"
    using assms ge by (intro power_strict_increasing) auto
  then show ?thesis using TBufSizeRec_bound [OF assms, of v] by linarith
qed

lemma ConvertUnsigned_spec:
  assumes r: "2 \<le> radix" "radix \<le> 16" and room: "unat t < radix ^ bufLen" "0 < bufLen"
  shows "\<exists>s. ConvertUnsigned radix t bufLen = Inr s \<and> s \<noteq> [] \<and> all_digits radix s \<and> number_of radix s = unat t"
proof (cases "t = 0")
  case True
  have "digit_char radix (of_nat 0) = CHR ''0''" by (simp add: digit_char_def IntToChar_def char_of_def bit_Suc_0_iff)
  then show ?thesis using True room digit_char_digit [OF r, of 0] r by (simp add: ConvertUnsigned_def)
next
  case False
  obtain s where "convert_loop radix bufLen t [] = (0, s)" "all_digits radix s" "number_of radix s = unat t"
    using convert_loop_spec [OF r room(1), of "[]"] by auto
  moreover have "s \<noteq> []" using calculation(3) False by (auto simp: unsigned_eq_0_iff)
  ultimately show ?thesis using False room by (simp add: ConvertUnsigned_def)
qed

lemma bufferSize_room:
  assumes r: "2 \<le> radix" "radix \<le> 16"
  shows "(2 ^ 64 :: nat) \<le> radix ^ min (bufferSize radix False) 256" "0 < min (bufferSize radix False) 256"
    "(2 ^ 63 :: nat) < radix ^ (min (bufferSize radix True) 256 - 1)" "2 \<le> min (bufferSize radix True) 256"
proof -
  have big: "(2 ^ 64 :: nat) \<le> radix ^ 256" "(2 ^ 63 :: nat) < radix ^ 255"
    using power_mono [of 2 radix 256] power_mono [of 2 radix 255] r
    by (auto intro: order.trans [of _ "2 ^ 256"] less_le_trans [of _ "2 ^ 255"])
  have ge: "1 \<le> TBufSizeRec radix v" for v by (subst TBufSizeRec.simps) simp
  have "(2 ^ 64 :: nat) \<le> radix ^ bufferSize radix False"
    using TBufSizeRec_room [OF r(1), of "2 ^ 64 - 1"] by (auto simp: bufferSize_def)
  then show "(2 ^ 64 :: nat) \<le> radix ^ min (bufferSize radix False) 256" using big by (simp add: min_def)
  have "(2 ^ 63 :: nat) < radix ^ (bufferSize radix True - 1)"
    using TBufSizeRec_room [OF r(1), of "2 ^ 63 - 1"] by (auto simp: bufferSize_def)
  then show "(2 ^ 63 :: nat) < radix ^ (min (bufferSize radix True) 256 - 1)" using big by (simp add: min_def)
  show "0 < min (bufferSize radix False) 256" "2 \<le> min (bufferSize radix True) 256"
    using ge [of "2 ^ 64 - 1"] ge [of "2 ^ 63 - 1"] by (auto simp: bufferSize_def)
qed

lemma unat_nonnegative:
  assumes "\<not> sint (t :: u64) < 0" shows "unat t < 2 ^ 63"
proof -
  have "uint t = sint t mod 2 ^ 64" by (simp add: uint_sint take_bit_eq_mod)
  then have "uint t < 2 ^ 63" using assms sint_lt [of t] by simp
  then have "int (unat t) < int (2 ^ 63)" by simp
  then show ?thesis by (simp only: of_nat_less_iff)
qed

lemma unat_negated:
  assumes "sint (t :: u64) < 0" shows "unat (- t) \<le> 2 ^ 63"
proof -
  have "uint t = sint t mod 2 ^ 64" by (simp add: uint_sint take_bit_eq_mod)
  also have "\<dots> = (sint t + 2 ^ 64) mod 2 ^ 64" by simp
  also have "\<dots> = sint t + 2 ^ 64" using assms sint_ge [of t] by (intro mod_pos_pos_trivial) simp_all
  finally have "2 ^ 63 \<le> uint t" using sint_ge [of t] by simp
  moreover have "uint (- t) = (2 ^ 64 - uint t) mod 2 ^ 64"
    by (simp add: uint_word_ariths)
  ultimately have "uint (- t) = 2 ^ 64 - uint t" "2 ^ 63 \<le> uint t"
    using unsigned_less [of t, where ?'a = int] mod_pos_pos_trivial [of "2 ^ 64 - uint t" "2 ^ 64"] by auto
  then have "int (unat (- t)) \<le> int (2 ^ 63)" by simp
  then show ?thesis by (simp only: of_nat_le_iff)
qed

section \<open>Properties\<close>

text \<open>C23. The integer parser accepts exactly the numerals of its base that fit. For every base from
  2 to 16 and bounds of at least 15, a string is parsed to a value if and only if it is a non-empty
  string of digits of the base, with an optional plus, or a minus where the type is signed, whose
  number is within the bound of its sign, and the value is that number; a numeral beyond the bound is
  reported as an overflow. The unchecked two-digits-at-a-time path therefore never wraps around.\<close>

theorem integer_parser_exact:
  assumes "2 \<le> base" "base \<le> 16" "15 \<le> PositiveMax b" "isSigned \<Longrightarrow> 15 \<le> NegativeMax b"
  shows "(TIntParser_Parse base isSigned b s = Inr v \<longleftrightarrow>
      (\<exists>cs. cs \<noteq> [] \<and> all_digits base cs \<and>
        ((s = cs \<or> s = CHR ''+'' # cs) \<and> number_of base cs \<le> unat (PositiveMax b) \<and> v = of_nat (number_of base cs) \<or>
         isSigned \<and> s = CHR ''-'' # cs \<and> number_of base cs \<le> unat (NegativeMax b) \<and> v = - of_nat (number_of base cs)))) \<and>
    (s \<noteq> [] \<and> all_digits base s \<and> unat (PositiveMax b) < number_of base s \<longrightarrow>
      TIntParser_Parse base isSigned b s = Inl PS_OVERFLOW)"
proof -
  note pos = basic_parse_spec [OF assms(1-3)]
  have neg: "isSigned \<Longrightarrow> (all_digits base cs \<longrightarrow> TBasicIntParser_Parse base cs (NegativeMax b) =
       (if number_of base cs \<le> unat (NegativeMax b) then Inr (of_nat (number_of base cs)) else Inl PS_OVERFLOW)) \<and>
    (\<not> all_digits base cs \<longrightarrow> (\<exists>e. TBasicIntParser_Parse base cs (NegativeMax b) = Inl e))" for cs
    using basic_parse_spec [OF assms(1,2) assms(4)] by simp
  show ?thesis
  proof (cases s)
    case (Cons c cs)
    consider "c = CHR ''+''" | "c = CHR ''-''" "isSigned" | "c \<noteq> CHR ''+''" "\<not> (isSigned \<and> c = CHR ''-'')" by blast
    then show ?thesis
    proof cases
      case 1
      then show ?thesis using pos [of cs] Cons sign_not_digit [OF assms(2)]
        by (cases "all_digits base cs") (auto simp: TIntParser_Parse_def)
    next
      case 2
      then show ?thesis using neg [of cs] Cons sign_not_digit [OF assms(2)]
        by (cases "all_digits base cs") (auto simp: TIntParser_Parse_def NegatePositiveSigned_eq)
    next
      case 3
      then show ?thesis using pos [of s] Cons
        by (cases "all_digits base s") (auto simp: TIntParser_Parse_def)
    qed
  qed (simp add: TIntParser_Parse_def)
qed

theorem integer_parser_exact_witness:
  "TIntParser_Parse 10 True llSBounds ''-42'' = Inr (- 42) \<and> all_digits 10 ''42'' \<and> number_of 10 ''42'' = 42"
proof -
  have ok: "15 \<le> PositiveMax llSBounds" "15 \<le> NegativeMax llSBounds" by (simp_all add: llSBounds_def)
  have ds: "all_digits 10 ''42''" "number_of 10 ''42'' = 42"
    by (simp_all add: is_digit_def digit_of_def CharToDigit_def)
  have "number_of 10 ''42'' \<le> unat (NegativeMax llSBounds)" using ds by (simp add: llSBounds_def)
  then have "TIntParser_Parse 10 True llSBounds ''-42'' = Inr (- 42)"
    using ok ds by (intro integer_parser_exact [THEN conjunct1, THEN iffD2] exI [of _ "''42''"]) simp_all
  then show ?thesis using ds by blast
qed

text \<open>C24. Printing and parsing integers are inverse: in every base from 2 to 16, every unsigned
  and every signed 64-bit number is printed into the buffer that \<open>IntToString\<close> provides
  without running out of room, and parsed back to the same number.\<close>

theorem integer_text_roundtrip:
  assumes "2 \<le> base" "base \<le> 16"
  shows "(\<exists>s. IntToString base False t = Inr s \<and> ParseInt base False llUBounds s = Inr t) \<and>
    (\<exists>s. IntToString base True t = Inr s \<and> ParseInt base True llSBounds s = Inr t)"
proof
  note room = bufferSize_room [OF assms]
  have ok: "15 \<le> PositiveMax llSBounds" "15 \<le> NegativeMax llSBounds" "15 \<le> PositiveMax llUBounds"
    by (simp_all add: llSBounds_def llUBounds_def)
  have first: "c \<noteq> CHR ''+''" "c \<noteq> CHR ''-''" if "all_digits base (c # cs)" for c cs
    using that sign_not_digit [OF assms(2)] by auto
  have lt: "unat t < 2 ^ 64" using unsigned_less [of t, where ?'a = nat] by simp
  obtain s where s: "IntToString base False t = Inr s" "s \<noteq> []" "all_digits base s" "number_of base s = unat t"
    using ConvertUnsigned_spec [OF assms less_le_trans [OF lt room(1)] room(2)]
    by (auto simp: IntToString_def Convert_def Let_def)
  have "ParseInt base False llUBounds s = Inr t"
    using s(2-4) basic_parse_spec [OF assms ok(3), of s] first lt
    by (cases s) (auto simp: ParseInt_def TIntParser_Parse_def llUBounds_def)
  then show "\<exists>s. IntToString base False t = Inr s \<and> ParseInt base False llUBounds s = Inr t" using s by blast
  show "\<exists>s. IntToString base True t = Inr s \<and> ParseInt base True llSBounds s = Inr t"
  proof (cases "sint t < 0")
    case True
    have m: "unat (- t) \<le> 2 ^ 63" using unat_negated True by simp
    obtain s where s: "ConvertUnsigned base (- t) (min (bufferSize base True) 256 - 1) = Inr s" "s \<noteq> []"
        "all_digits base s" "number_of base s = unat (- t)"
      using ConvertUnsigned_spec [OF assms le_less_trans [OF m room(3)]] room(4) by auto
    have "IntToString base True t = Inr (CHR ''-'' # s)"
      using True s(1) room(4) by (simp add: IntToString_def Convert_def Let_def)
    moreover have "ParseInt base True llSBounds (CHR ''-'' # s) = Inr t"
      using s(2-4) basic_parse_spec [OF assms ok(2), of s] m
      by (auto simp: ParseInt_def TIntParser_Parse_def llSBounds_def NegatePositiveSigned_eq)
    ultimately show ?thesis by blast
  next
    case False
    then have m: "unat t < 2 ^ 63" by (rule unat_nonnegative)
    have "unat t < base ^ min (bufferSize base True) 256"
      by (rule less_le_trans [OF less_trans [OF m room(3)] power_increasing]) (use assms in auto)
    then obtain s where s: "IntToString base True t = Inr s" "s \<noteq> []" "all_digits base s" "number_of base s = unat t"
      using ConvertUnsigned_spec [OF assms, of t "min (bufferSize base True) 256"] room(4) False
      by (auto simp: IntToString_def Convert_def Let_def)
    have "ParseInt base True llSBounds s = Inr t"
      using s(2-4) basic_parse_spec [OF assms ok(1), of s] first m
      by (cases s) (auto simp: ParseInt_def TIntParser_Parse_def llSBounds_def)
    then show ?thesis using s by blast
  qed
qed

theorem integer_text_roundtrip_witness:
  "(\<exists>s. IntToString 16 False 255 = Inr s \<and> ParseInt 16 False llUBounds s = Inr 255) \<and>
   (\<exists>s. IntToString 2 True (- 5) = Inr s \<and> ParseInt 2 True llSBounds s = Inr (- 5))"
  using integer_text_roundtrip [of 16 255] integer_text_roundtrip [of 2 "- 5"] by simp

end
