(* ===== verification/Int128.thy ===== *)
theory Int128
  imports IntegerText
begin

text \<open>
  The 128-bit integers of \<open>library/cpp/int128/int128.h\<close>: a pair of 64-bit halves with
  comparison, addition, subtraction, negation, multiplication, shifts and bitwise operations.

  \<open>TInteger128\<close> is one record for \<open>ui128\<close> and \<open>i128\<close>: both keep the same two halves, and
  the other operators of \<open>i128\<close> repeat the text of those of \<open>ui128\<close>, so one definition stands
  for both; the order, the sign, the absolute value and the right shift have their own. A shift of a half by its width or more is undefined in C++,
  so the shifts return results. The reference is the type of 128-bit words of the library.
\<close>

unbundle bit_operations_syntax

section \<open>Representation\<close>

record TInteger128 =
  High :: u64
  Low :: u64

abbreviation ui128 :: "u64 \<Rightarrow> u64 \<Rightarrow> TInteger128" where
  "ui128 high low \<equiv> \<lparr>High = high, Low = low\<rparr>"

definition GetHigh :: "TInteger128 \<Rightarrow> u64" where
  "GetHigh v = High v"

definition GetLow :: "TInteger128 \<Rightarrow> u64" where
  "GetLow v = Low v"

definition of_ui64 :: "u64 \<Rightarrow> TInteger128" where
  "of_ui64 other = ui128 0 other"

definition of_i64 :: "u64 \<Rightarrow> TInteger128" where
  "of_i64 other = ui128 (if sint other < 0 then 2 ^ 64 - 1 else 0) other"

definition signbit_i128 :: "TInteger128 \<Rightarrow> bool" where
  "signbit_i128 arg \<longleftrightarrow> GetHigh arg AND 0x8000000000000000 \<noteq> 0"

definition max_i128 :: TInteger128 where
  "max_i128 = ui128 (2 ^ 63 - 1) (2 ^ 64 - 1)"

definition min_i128 :: TInteger128 where
  "min_i128 = ui128 (2 ^ 63) 0"

section \<open>Operators\<close>

definition less_ui128 :: "TInteger128 \<Rightarrow> TInteger128 \<Rightarrow> bool" where
  "less_ui128 lhs rhs =
    (if GetHigh lhs \<noteq> GetHigh rhs then GetHigh lhs < GetHigh rhs else GetLow lhs < GetLow rhs)"

definition less_i128 :: "TInteger128 \<Rightarrow> TInteger128 \<Rightarrow> bool" where
  "less_i128 lhs rhs =
    (if lhs = of_i64 0 \<and> rhs = of_i64 0 then False
     else if signbit_i128 lhs \<and> \<not> signbit_i128 rhs then True
     else if \<not> signbit_i128 lhs \<and> signbit_i128 rhs then False
     else if GetHigh lhs \<noteq> GetHigh rhs then GetHigh lhs < GetHigh rhs
     else GetLow lhs < GetLow rhs)"

definition add_128 :: "TInteger128 \<Rightarrow> TInteger128 \<Rightarrow> TInteger128" where
  "add_128 lhs rhs =
    (let result = ui128 (GetHigh lhs + GetHigh rhs) (GetLow lhs + GetLow rhs)
     in if GetLow result < GetLow lhs then ui128 (GetHigh result + 1) (GetLow result) else result)"

definition sub_128 :: "TInteger128 \<Rightarrow> TInteger128 \<Rightarrow> TInteger128" where
  "sub_128 lhs rhs =
    (let result = ui128 (GetHigh lhs - GetHigh rhs) (GetLow lhs - GetLow rhs)
     in if GetLow lhs < GetLow result then ui128 (GetHigh result - 1) (GetLow result) else result)"

definition neg_128 :: "TInteger128 \<Rightarrow> TInteger128" where
  "neg_128 num =
    (let result = ui128 (NOT (GetHigh num)) (NOT (GetLow num) + 1)
     in if GetLow result = 0 then ui128 (GetHigh result + 1) (GetLow result) else result)"

definition abs_i128 :: "TInteger128 \<Rightarrow> TInteger128" where
  "abs_i128 arg = (if signbit_i128 arg then neg_128 arg else arg)"

text \<open>The shifts of the halves, defined for amounts below 64 only.\<close>

definition shl_64 :: "u64 \<Rightarrow> int \<Rightarrow> u64 res" where
  "shl_64 x n = (if 0 \<le> n \<and> n < 64 then Inr (push_bit (nat n) x) else Inl (Undefined ''shift''))"

definition shr_64 :: "u64 \<Rightarrow> int \<Rightarrow> u64 res" where
  "shr_64 x n = (if 0 \<le> n \<and> n < 64 then Inr (drop_bit (nat n) x) else Inl (Undefined ''shift''))"

definition shl_128 :: "TInteger128 \<Rightarrow> int \<Rightarrow> TInteger128 res" where
  "shl_128 lhs n =
    (if n < 64
     then if n \<noteq> 0
       then rbind (shl_64 (GetHigh lhs) n) (\<lambda>h. rbind (shr_64 (GetLow lhs) (64 - n)) (\<lambda>c.
            rbind (shl_64 (GetLow lhs) n) (\<lambda>l. Inr (ui128 (h OR c) l))))
       else Inr lhs
     else rbind (shl_64 (GetLow lhs) (n - 64)) (\<lambda>h. Inr (ui128 h 0)))"

definition shr_128 :: "TInteger128 \<Rightarrow> int \<Rightarrow> TInteger128 res" where
  "shr_128 lhs n =
    (if n < 64
     then if n \<noteq> 0
       then rbind (shr_64 (GetHigh lhs) n) (\<lambda>h. rbind (shr_64 (GetLow lhs) n) (\<lambda>l.
            rbind (shl_64 (GetHigh lhs) (64 - n)) (\<lambda>c. Inr (ui128 h (l OR c)))))
       else Inr lhs
     else rbind (shr_64 (GetHigh lhs) (n - 64)) (\<lambda>l. Inr (ui128 0 l)))"

text \<open>The right shift of \<open>i128\<close> repeats the text of the unsigned one.\<close>

definition shr_i128 :: "TInteger128 \<Rightarrow> int \<Rightarrow> TInteger128 res" where
  "shr_i128 lhs n =
    (if n < 64
     then if n \<noteq> 0
       then rbind (shr_64 (GetHigh lhs) n) (\<lambda>h. rbind (shr_64 (GetLow lhs) n) (\<lambda>l.
            rbind (shl_64 (GetHigh lhs) (64 - n)) (\<lambda>c. Inr (ui128 h (l OR c)))))
       else Inr lhs
     else rbind (shr_64 (GetHigh lhs) (n - 64)) (\<lambda>l. Inr (ui128 0 l)))"

definition not_128 :: "TInteger128 \<Rightarrow> TInteger128" where
  "not_128 num = ui128 (NOT (GetHigh num)) (NOT (GetLow num))"

definition or_128 :: "TInteger128 \<Rightarrow> TInteger128 \<Rightarrow> TInteger128" where
  "or_128 lhs rhs = ui128 (GetHigh lhs OR GetHigh rhs) (GetLow lhs OR GetLow rhs)"

definition and_128 :: "TInteger128 \<Rightarrow> TInteger128 \<Rightarrow> TInteger128" where
  "and_128 lhs rhs = ui128 (GetHigh lhs AND GetHigh rhs) (GetLow lhs AND GetLow rhs)"

definition xor_128 :: "TInteger128 \<Rightarrow> TInteger128 \<Rightarrow> TInteger128" where
  "xor_128 lhs rhs = ui128 (GetHigh lhs XOR GetHigh rhs) (GetLow lhs XOR GetLow rhs)"

text \<open>Multiplication adds the shifted multiplicand for every bit of the multiplier;
  \<open>n\<close> is the number of rounds left of the 128.\<close>

fun mul_loop :: "TInteger128 \<Rightarrow> nat \<Rightarrow> TInteger128 \<Rightarrow> TInteger128 \<Rightarrow> TInteger128 res" where
  "mul_loop lhs 0 t result = Inr result"
| "mul_loop lhs (Suc n) t result =
    rbind (if and_128 t (of_i64 1) \<noteq> of_i64 0
           then rbind (shl_128 lhs (127 - int n)) (\<lambda>s. Inr (add_128 result s))
           else Inr result)
      (\<lambda>result'. rbind (shr_128 t 1) (\<lambda>t'. mul_loop lhs n t' result'))"

definition mul_128 :: "TInteger128 \<Rightarrow> TInteger128 \<Rightarrow> TInteger128 res" where
  "mul_128 lhs rhs =
    (if rhs = of_i64 0 then Inr (of_i64 0)
     else if rhs = of_i64 1 then Inr lhs
     else mul_loop lhs 128 rhs (of_i64 0))"

section \<open>The 128-bit word of a pair of halves\<close>

definition w128 :: "TInteger128 \<Rightarrow> 128 word" where
  "w128 x = word_cat (GetHigh x) (GetLow x)"

definition hi :: "u64 \<Rightarrow> 128 word" where
  "hi h = ucast h * 2 ^ 64"

lemma hi_0 [simp]: "hi 0 = 0" and hi_1 [simp]: "hi 1 = 2 ^ 64"
  by (simp_all add: hi_def)

named_theorems int128_defs \<open>definitions of the operators\<close>

lemmas [int128_defs] = GetHigh_def GetLow_def add_128_def sub_128_def neg_128_def not_128_def or_128_def
  and_128_def xor_128_def

lemma w128_halves: "w128 x = hi (GetHigh x) + ucast (GetLow x)"
  by (simp add: w128_def hi_def word_cat_eq push_bit_eq_mult)

lemma uint_ucast_128 [simp]: "uint (ucast (a :: u64) :: 128 word) = uint a"
  using unsigned_less [of a, where ?'a = int] by (simp add: unsigned_ucast_eq take_bit_eq_mod)

lemma uint_hi: "uint (hi a) = uint a * 2 ^ 64"
  using unsigned_less [of a, where ?'a = int] by (simp add: hi_def uint_word_ariths)

lemma uint_w128: "uint (w128 x) = uint (GetHigh x) * 2 ^ 64 + uint (GetLow x)"
  using unsigned_less [of "GetHigh x", where ?'a = int] unsigned_less [of "GetLow x", where ?'a = int]
  by (simp add: w128_halves uint_hi uint_word_ariths(1))

lemma unat_w128: "unat (w128 x) = unat (GetHigh x) * 2 ^ 64 + unat (GetLow x)"
proof -
  have "int (unat (w128 x)) = int (unat (GetHigh x) * 2 ^ 64 + unat (GetLow x))" by (simp add: uint_w128)
  then show ?thesis by (simp only: of_nat_eq_iff)
qed

lemma w128_inject [simp]: "w128 x = w128 y \<longleftrightarrow> x = y"
proof
  assume "w128 x = w128 y"
  then have e: "unat (GetHigh x) * 2 ^ 64 + unat (GetLow x) = unat (GetHigh y) * 2 ^ 64 + unat (GetLow y)"
    by (simp only: flip: unat_w128)
  have l: "unat (GetLow x) < 2 ^ 64" "unat (GetLow y) < 2 ^ 64"
    using unsigned_less [of "GetLow x", where ?'a = nat] unsigned_less [of "GetLow y", where ?'a = nat] by simp_all
  have "unat (GetHigh x) = unat (GetHigh y)" using arg_cong [OF e, of "\<lambda>n. n div 2 ^ 64"] l by simp
  moreover have "unat (GetLow x) = unat (GetLow y)" using arg_cong [OF e, of "\<lambda>n. n mod 2 ^ 64"] l by simp
  ultimately show "x = y" by (simp add: GetHigh_def GetLow_def word_unat_eq_iff)
qed simp

lemma hi_add: "hi (a + b) = hi a + hi b"
proof (rule word_uint_eqI)
  have "(uint a + uint b) mod 2 ^ 64 * 2 ^ 64 = (uint a * 2 ^ 64 + uint b * 2 ^ 64) mod (2 ^ 64 * 2 ^ 64)"
    by (simp only: mod_mult_mult2 flip: distrib_right)
  then show "uint (hi (a + b)) = uint (hi a + hi b)" by (simp add: uint_hi uint_word_ariths(1))
qed

lemma hi_diff: "hi (a - b) = hi a - hi b"
  using hi_add [of "a - b" b] by (simp add: algebra_simps)

lemma lo_add: "(ucast (a + b :: u64) :: 128 word) = ucast a + ucast b - (if a + b < a then 2 ^ 64 else 0)"
proof -
  have "uint (ucast (a + b :: u64) :: 128 word) = uint (ucast a + ucast b - (if a + b < a then 2 ^ 64 else 0) :: 128 word)"
    using unsigned_less [of a, where ?'a = int] unsigned_less [of b, where ?'a = int]
    by (auto simp: uint_word_ariths word_less_def mod_add_if_z)
  then show ?thesis by (rule word_uint_eqI)
qed

lemma w128_add: "w128 (add_128 x y) = w128 x + w128 y"
  by (simp add: w128_halves int128_defs Let_def hi_add lo_add)

lemma lo_diff: "(ucast (a - b :: u64) :: 128 word) = ucast a - ucast b + (if a < a - b then 2 ^ 64 else 0)"
  using lo_add [of "a - b" b] by (simp add: algebra_simps)

lemma w128_sub: "w128 (sub_128 x y) = w128 x - w128 y"
  by (simp add: w128_halves int128_defs Let_def hi_diff lo_diff)

lemma lo_neg: "(ucast (- a :: u64) :: 128 word) = - ucast a + (if a = 0 then 0 else 2 ^ 64)"
  using lo_add [of "- a" a] by (auto simp: word_gt_0 algebra_simps)

lemma w128_neg: "w128 (neg_128 x) = - w128 x"
  using hi_diff [of 0 "High x"] hi_diff [of "- High x" 1]
  by (simp add: w128_halves int128_defs Let_def lo_neg not_eq_complement)

section \<open>Bits, shifts and products\<close>

lemma bit_w128: "bit (w128 x) n \<longleftrightarrow> (if n < 64 then bit (GetLow x) n else bit (GetHigh x) (n - 64))"
  by (auto simp: w128_def bit_word_cat_iff dest: bit_imp_le_length)

lemma w128_bitwise:
  "w128 (not_128 x) = NOT (w128 x)" "w128 (or_128 x y) = w128 x OR w128 y"
  "w128 (and_128 x y) = w128 x AND w128 y" "w128 (xor_128 x y) = w128 x XOR w128 y"
  by (rule bit_eqI; auto simp: bit_w128 int128_defs bit_simps)+

lemma w128_of_ui64 [simp]: "w128 (of_ui64 a) = ucast a"
  by (simp add: w128_halves of_ui64_def GetHigh_def GetLow_def)

lemma w128_of_i64: "w128 (of_i64 a) = scast a"
proof (rule bit_eqI)
  fix n :: nat
  have "sint a < 0 \<longleftrightarrow> bit a 63" by (simp add: bit_last_iff flip: bit_last_iff)
  moreover have m: "(2 ^ 64 - 1 :: u64) = NOT 0" by simp
  moreover have "n < 64 \<and> 63 \<le> n \<longleftrightarrow> n = 63" by auto
  ultimately show "bit (w128 (of_i64 a)) n = bit (scast a :: 128 word) n" if "possible_bit TYPE(128 word) n"
    using that unfolding of_i64_def m by (auto simp: bit_w128 GetHigh_def GetLow_def bit_simps min_def)
qed

lemma shl_64_Inr [simp]: "0 \<le> n \<Longrightarrow> n < 64 \<Longrightarrow> shl_64 x n = Inr (push_bit (nat n) x)"
  and shr_64_Inr [simp]: "0 \<le> n \<Longrightarrow> n < 64 \<Longrightarrow> shr_64 x n = Inr (drop_bit (nat n) x)"
  by (simp_all add: shl_64_def shr_64_def)

lemma shl_128_spec:
  assumes "0 \<le> n" "n < 128" shows "\<exists>r. shl_128 x n = Inr r \<and> w128 r = push_bit (nat n) (w128 x)"
proof (cases "n < 64")
  case True
  have "w128 (ui128 (push_bit (nat n) (GetHigh x) OR drop_bit (nat (64 - n)) (GetLow x)) (push_bit (nat n) (GetLow x))) =
      push_bit (nat n) (w128 x)"
    using True assms by (intro bit_eqI) (auto simp: bit_w128 int128_defs bit_simps nat_diff_distrib add_ac dest: bit_imp_le_length)
  then show ?thesis using True assms by (auto simp: shl_128_def)
next
  case False
  have "w128 (ui128 (push_bit (nat (n - 64)) (GetLow x)) 0) = push_bit (nat n) (w128 x)"
    using False assms by (intro bit_eqI) (auto simp: bit_w128 int128_defs bit_simps nat_diff_distrib add_ac dest: bit_imp_le_length)
  then show ?thesis using False assms by (auto simp: shl_128_def)
qed

lemma shr_128_spec:
  assumes "0 \<le> n" "n < 128" shows "\<exists>r. shr_128 x n = Inr r \<and> w128 r = drop_bit (nat n) (w128 x)"
proof (cases "n < 64")
  case True
  have "w128 (ui128 (drop_bit (nat n) (GetHigh x)) (drop_bit (nat n) (GetLow x) OR push_bit (nat (64 - n)) (GetHigh x))) =
      drop_bit (nat n) (w128 x)"
    using True assms by (intro bit_eqI) (auto simp: bit_w128 int128_defs bit_simps nat_diff_distrib add_ac dest: bit_imp_le_length)
  then show ?thesis using True assms by (auto simp: shr_128_def)
next
  case False
  have "w128 (ui128 0 (drop_bit (nat (n - 64)) (GetHigh x))) = drop_bit (nat n) (w128 x)"
    using False assms by (intro bit_eqI) (auto simp: bit_w128 int128_defs bit_simps nat_diff_distrib add_ac dest: bit_imp_le_length)
  then show ?thesis using False assms by (auto simp: shr_128_def)
qed

lemma w128_zero_one [simp]: "w128 (of_i64 0) = 0" "w128 (of_i64 1) = 1"
  by (simp_all add: w128_of_i64)

lemma w128_eq_const: "x = of_i64 0 \<longleftrightarrow> w128 x = 0" "x = of_i64 1 \<longleftrightarrow> w128 x = 1"
  by (simp_all flip: w128_zero_one)

lemma digits_less:
  fixes a b c d :: int
  assumes "0 \<le> b" "b < N" "0 \<le> d" "d < N"
  shows "a * N + b < c * N + d \<longleftrightarrow> a < c \<or> a = c \<and> b < d"
proof -
  have "x * N + y < z * N + w" if "x < z" "y < N" "0 \<le> w" for x y z w
  proof -
    have "(x + 1) * N \<le> z * N" using that assms by (intro mult_right_mono) auto
    then show ?thesis using that by (simp add: distrib_right)
  qed
  from this [of a c b d] this [of c a d b] show ?thesis using assms by (cases a c rule: linorder_cases) auto
qed

lemma w128_less: "w128 x < w128 y \<longleftrightarrow> GetHigh x < GetHigh y \<or> GetHigh x = GetHigh y \<and> GetLow x < GetLow y"
proof -
  have l: "uint (GetLow x) < 2 ^ 64" "uint (GetLow y) < 2 ^ 64" "0 \<le> uint (GetLow x)" "0 \<le> uint (GetLow y)"
    using unsigned_less [of "GetLow x", where ?'a = int] unsigned_less [of "GetLow y", where ?'a = int] by simp_all
  then have "uint (GetHigh x) * 2 ^ 64 + uint (GetLow x) < uint (GetHigh y) * 2 ^ 64 + uint (GetLow y) \<longleftrightarrow>
      uint (GetHigh x) < uint (GetHigh y) \<or> uint (GetHigh x) = uint (GetHigh y) \<and> uint (GetLow x) < uint (GetLow y)"
    by (intro digits_less)
  then show ?thesis by (simp only: word_less_def uint_w128 word_uint_eq_iff)
qed

lemma less_ui128_iff: "less_ui128 x y \<longleftrightarrow> w128 x < w128 y"
  by (auto simp: less_ui128_def w128_less)

lemma signbit_bit: "signbit_i128 x \<longleftrightarrow> bit (w128 x) 127"
proof -
  have m: "(0x8000000000000000 :: u64) = push_bit 63 1" by simp
  have "signbit_i128 x \<longleftrightarrow> bit (GetHigh x) 63"
    unfolding signbit_i128_def m by (simp only: bit_iff_and_push_bit_not_eq_0)
  then show ?thesis by (simp add: bit_w128)
qed

lemma signbit_iff: "signbit_i128 x \<longleftrightarrow> sint (w128 x) < 0"
  by (simp add: signbit_bit flip: bit_last_iff)

lemma sint_uint_128: "sint (w :: 128 word) = (if sint w < 0 then uint w - 2 ^ 128 else uint w)"
proof -
  have "uint w = sint w mod 2 ^ 128" by (simp add: uint_sint take_bit_eq_mod)
  moreover have "sint w mod 2 ^ 128 = sint w + 2 ^ 128" if "sint w < 0"
    using mod_pos_pos_trivial [of "sint w + 2 ^ 128" "2 ^ 128"] that sint_ge [of w] by simp
  ultimately show ?thesis using sint_lt [of w] by auto
qed

lemma less_i128_iff: "less_i128 x y \<longleftrightarrow> sint (w128 x) < sint (w128 y)"
proof -
  have less: "less_i128 x y \<longleftrightarrow> signbit_i128 x \<and> \<not> signbit_i128 y \<or> (signbit_i128 x \<longleftrightarrow> signbit_i128 y) \<and> w128 x < w128 y"
    by (auto simp: less_i128_def w128_less)
  show ?thesis
  proof (cases "sint (w128 x) < 0 \<longleftrightarrow> sint (w128 y) < 0")
    case True
    then show ?thesis
      unfolding less signbit_iff word_less_def
      using sint_uint_128 [of "w128 x"] sint_uint_128 [of "w128 y"] by (cases "sint (w128 x) < 0") auto
  next
    case False
    then show ?thesis unfolding less signbit_iff by auto
  qed
qed

lemma mul_loop_spec:
  "n \<le> 128 \<Longrightarrow> \<exists>r. mul_loop lhs n t result = Inr r \<and> w128 r = w128 result + push_bit (128 - n) (w128 lhs) * w128 t"
proof (induction n arbitrary: t result)
  case 0
  have "push_bit 128 (w128 lhs) = 0" by (rule bit_eqI) (simp add: bit_simps)
  then show ?case by simp
next
  case (Suc n)
  let ?p = "push_bit (127 - n) (w128 lhs)"
  obtain s where s: "shl_128 lhs (127 - int n) = Inr s" "w128 s = ?p"
    using shl_128_spec [of "127 - int n" lhs] Suc.prems by (auto simp: nat_diff_distrib)
  obtain t' where t': "shr_128 t 1 = Inr t'" "w128 t' = drop_bit 1 (w128 t)"
    using shr_128_spec [of 1 t] by auto
  have odd: "and_128 t (of_i64 1) \<noteq> of_i64 0 \<longleftrightarrow> odd (w128 t)"
    by (simp add: w128_eq_const w128_bitwise and_one_eq mod2_eq_if)
  have "128 - n = Suc (127 - n)" using Suc.prems by simp
  then have p: "push_bit (128 - n) (w128 lhs) = 2 * ?p" by (simp add: push_bit_eq_mult)
  have "w128 t = 2 * w128 t' + of_bool (odd (w128 t))"
    by (simp add: t'(2) drop_bit_eq_div mult_div_mod_eq flip: mod_2_eq_odd)
  then have "?p * w128 t = ?p * (2 * w128 t' + of_bool (odd (w128 t)))" by (rule arg_cong)
  also have "\<dots> = push_bit (128 - n) (w128 lhs) * w128 t' + (if odd (w128 t) then ?p else 0)"
    by (simp add: p algebra_simps)
  finally show ?case
    using Suc.IH [of t' "if odd (w128 t) then add_128 result s else result"] Suc.prems s t' odd
    by (auto simp: w128_add add_ac split: if_splits)
qed

lemma mul_128_spec: "\<exists>r. mul_128 x y = Inr r \<and> w128 r = w128 x * w128 y"
  using mul_loop_spec [of 128 x y "of_i64 0"] by (auto simp: mul_128_def w128_eq_const)

lemma shl_128_undefined: "\<not> (0 \<le> n \<and> n < 128) \<Longrightarrow> shl_128 x n = Inl (Undefined ''shift'')"
  by (auto simp: shl_128_def shl_64_def)

lemma shr_128_undefined: "\<not> (0 \<le> n \<and> n < 128) \<Longrightarrow> shr_128 x n = Inl (Undefined ''shift'')"
  by (auto simp: shr_128_def shr_64_def)

text \<open>The right shift of \<open>i128\<close> shifts zeros in: a negative number becomes positive, where the
  built-in types keep the sign.\<close>

lemma shr_i128_eq: "shr_i128 = shr_128"
  by (simp add: fun_eq_iff shr_i128_def shr_128_def)

lemma signed_shift_loses_sign:
  assumes "0 < n" "n < 128" shows "\<exists>r. shr_i128 x n = Inr r \<and> \<not> signbit_i128 r"
proof -
  have "\<not> bit (w128 x) (nat n + 127)"
    using bit_imp_le_length [of "w128 x" "nat n + 127"] assms by auto
  then show ?thesis using shr_128_spec [of n x] assms by (auto simp: shr_i128_eq signbit_bit bit_simps)
qed

section \<open>Properties\<close>

text \<open>C21. The 128-bit integers are 128-bit words. The pair of halves denotes a word, one for each
  pair; sums, differences, negation, products and the bitwise operators of pairs denote
  those of the words, with the wrap-around of 128 bits; a shift denotes the shift of the word when the amount is
  from 0 to 127 and is undefined otherwise; and the two orders are those of the unsigned and of the
  signed value.\<close>

theorem int128_refines_words:
  "(w128 x = w128 y \<longleftrightarrow> x = y) \<and>
   w128 (add_128 x y) = w128 x + w128 y \<and> w128 (sub_128 x y) = w128 x - w128 y \<and> w128 (neg_128 x) = - w128 x \<and>
   (\<exists>r. mul_128 x y = Inr r \<and> w128 r = w128 x * w128 y) \<and>
   w128 (not_128 x) = NOT (w128 x) \<and> w128 (or_128 x y) = w128 x OR w128 y \<and>
   w128 (and_128 x y) = w128 x AND w128 y \<and> w128 (xor_128 x y) = w128 x XOR w128 y \<and>
   (if 0 \<le> n \<and> n < 128
    then (\<exists>r. shl_128 x n = Inr r \<and> w128 r = push_bit (nat n) (w128 x)) \<and>
         (\<exists>r. shr_128 x n = Inr r \<and> w128 r = drop_bit (nat n) (w128 x))
    else shl_128 x n = Inl (Undefined ''shift'') \<and> shr_128 x n = Inl (Undefined ''shift'')) \<and>
   (less_ui128 x y \<longleftrightarrow> uint (w128 x) < uint (w128 y)) \<and> (less_i128 x y \<longleftrightarrow> sint (w128 x) < sint (w128 y))"
  by (simp add: w128_add w128_sub w128_neg mul_128_spec w128_bitwise shl_128_spec shr_128_spec shl_128_undefined
    shr_128_undefined less_ui128_iff less_i128_iff word_less_def)

end
