(* ===== verification/Int128Division.thy ===== *)
theory Int128Division
  imports Int128 "HOL-Library.Signed_Division"
begin

text \<open>
  Division of 128-bit integers, \<open>DivMod128\<close> and the operators \<open>/\<close> and \<open>%\<close> of
  \<open>library/cpp/int128/int128.h\<close>: special cases for small and for aligned operands, and the
  bitwise shift-and-subtract loop for the others.

  The two output pointers of \<open>DivMod128\<close> may be null; the flags \<open>quo\<close> and \<open>rem\<close> say which
  are given, and the outputs are options. The shift amount \<open>sr\<close> is a 32-bit unsigned number
  whose subtraction wraps around; \<open>carry\<close>, 0 or 1, is kept at the width of the halves it is
  combined with.

  The loop is shown to keep the invariant of long division, the starting values to be shifts of the
  dividend, and each special case to agree, except for one (\<open>wrong_shift\<close>).
\<close>

unbundle bit_operations_syntax

section \<open>Counting bits\<close>

text \<open>The portable branches of \<open>util/generic/bitops.h\<close>; the other branches call compiler
  intrinsics for the same counts.\<close>

lemma unat_half: "unat (drop_bit 1 v) = unat v div 2"
  for v :: "'a::len word"
  unfolding unat_drop_bit_eq by (simp add: drop_bit_eq_div)

lemma half_less: "v \<noteq> 0 \<Longrightarrow> unat (drop_bit 1 v) < unat v"
  for v :: "'a::len word"
  using unat_half [of v] by (simp add: unat_gt_0)

function bit_count_loop :: "u64 \<Rightarrow> nat \<Rightarrow> nat" where
  "bit_count_loop v result = (if v = 0 then result else bit_count_loop (drop_bit 1 v) (result + 1))"
  by pat_completeness auto
termination
  by (relation "measure (unat \<circ> fst)") (simp_all only: wf_measure in_measure o_apply fst_conv de_Morgan_disj half_less simp_thms)

declare bit_count_loop.simps [simp del]

definition GetValueBitCount :: "u64 \<Rightarrow> nat" where
  "GetValueBitCount v = bit_count_loop (drop_bit 1 v) 1"

definition CountLeadingZeroBits :: "u64 \<Rightarrow> nat" where
  "CountLeadingZeroBits v = (if v = 0 then 64 else 64 - GetValueBitCount v)"

function trailing_loop :: "u64 \<Rightarrow> nat \<Rightarrow> nat" where
  "trailing_loop v result =
    (if v = 0 \<or> v AND 1 \<noteq> 0 then result else trailing_loop (drop_bit 1 v) (result + 1))"
  by pat_completeness auto
termination
  by (relation "measure (unat \<circ> fst)") (simp_all only: wf_measure in_measure o_apply fst_conv de_Morgan_disj half_less simp_thms)

declare trailing_loop.simps [simp del]

definition CountTrailingZeroBits :: "u64 \<Rightarrow> nat" where
  "CountTrailingZeroBits v = trailing_loop v 0"

section \<open>Division\<close>

definition div_mod_64 :: "u64 \<Rightarrow> u64 \<Rightarrow> (u64 \<times> u64) res" where
  "div_mod_64 a b = (if b = 0 then Inl (Undefined ''division by zero'') else Inr (a div b, a mod b))"

type_synonym div_outputs = "TInteger128 option \<times> TInteger128 option"

definition outputs :: "bool \<Rightarrow> bool \<Rightarrow> TInteger128 \<Rightarrow> TInteger128 \<Rightarrow> div_outputs" where
  "outputs quo rem q r = (if quo then Some q else None, if rem then Some r else None)"

text \<open>One round shifts the remainder and the quotient by one bit and subtracts the divisor
  where it fits.\<close>

fun div_loop :: "TInteger128 \<Rightarrow> nat \<Rightarrow> TInteger128 \<Rightarrow> TInteger128 \<Rightarrow> u64 \<Rightarrow> TInteger128 \<times> TInteger128 \<times> u64" where
  "div_loop rhs 0 r q carry = (r, q, carry)"
| "div_loop rhs (Suc sr) r q carry =
    (let r' = ui128 (push_bit 1 (GetHigh r) OR drop_bit 63 (GetLow r)) (push_bit 1 (GetLow r) OR drop_bit 63 (GetHigh q));
         q' = ui128 (push_bit 1 (GetHigh q) OR drop_bit 63 (GetLow q)) (push_bit 1 (GetLow q) OR carry)
     in if \<not> less_ui128 r' rhs then div_loop rhs sr (sub_128 r' rhs) q' 1 else div_loop rhs sr r' q' 0)"

definition div_rest :: "TInteger128 \<Rightarrow> bool \<Rightarrow> bool \<Rightarrow> u32 \<Rightarrow> TInteger128 \<Rightarrow> TInteger128 \<Rightarrow> div_outputs res" where
  "div_rest rhs quo rem sr q r =
    (case div_loop rhs (unat sr) r q 0 of (r', q', carry) \<Rightarrow>
       rbind (shl_128 q' 1) (\<lambda>q''. Inr (outputs quo rem (or_128 q'' (of_ui64 carry)) r')))"

text \<open>The starting values of quotient and remainder, for a shift below, of and above 64.\<close>

definition start_below :: "TInteger128 \<Rightarrow> u32 \<Rightarrow> (TInteger128 \<times> TInteger128) res" where
  "start_below lhs sr =
    rbind (shl_64 (GetLow lhs) (64 - uint sr)) (\<lambda>qh. rbind (shr_64 (GetHigh lhs) (uint sr)) (\<lambda>rh.
    rbind (shl_64 (GetHigh lhs) (64 - uint sr)) (\<lambda>c. rbind (shr_64 (GetLow lhs) (uint sr)) (\<lambda>rl.
    Inr (ui128 qh 0, ui128 rh (c OR rl))))))"

definition start_equal :: "TInteger128 \<Rightarrow> (TInteger128 \<times> TInteger128) res" where
  "start_equal lhs = Inr (ui128 (GetLow lhs) 0, ui128 0 (GetHigh lhs))"

definition start_above :: "TInteger128 \<Rightarrow> u32 \<Rightarrow> (TInteger128 \<times> TInteger128) res" where
  "start_above lhs sr =
    rbind (shl_64 (GetHigh lhs) (128 - uint sr)) (\<lambda>h. rbind (shr_64 (GetLow lhs) (uint sr - 64)) (\<lambda>c.
    rbind (shl_64 (GetLow lhs) (128 - uint sr)) (\<lambda>l. rbind (shr_64 (GetHigh lhs) (uint sr - 64)) (\<lambda>rl.
    Inr (ui128 (h OR c) l, ui128 0 rl)))))"

definition divide_by_low :: "TInteger128 \<Rightarrow> TInteger128 \<Rightarrow> bool \<Rightarrow> bool \<Rightarrow> div_outputs res" where
  "divide_by_low lhs rhs quo rem =
    (let sr = 1 + 64 + of_nat (CountLeadingZeroBits (GetLow rhs)) - of_nat (CountLeadingZeroBits (GetHigh lhs)) :: u32
     in rbind (if sr = 64 then start_equal lhs else if sr < 64 then start_below lhs sr else start_above lhs sr)
       (\<lambda>(q, r). div_rest rhs quo rem sr q r))"

definition DivMod128 :: "TInteger128 \<Rightarrow> TInteger128 \<Rightarrow> bool \<Rightarrow> bool \<Rightarrow> div_outputs res" where
  "DivMod128 lhs rhs quo rem =
    (if \<not> quo \<and> \<not> rem then Inr (None, None)
     else if GetHigh lhs = 0
     then if GetHigh rhs = 0
       then rbind (div_mod_64 (GetLow lhs) (GetLow rhs)) (\<lambda>(q, r). Inr (outputs quo rem (of_ui64 q) (of_ui64 r)))
       else Inr (outputs quo rem (of_i64 0) (of_ui64 (GetLow lhs)))
     else if GetLow rhs = 0
     then if GetHigh rhs = 0
       then rbind (div_mod_64 (GetHigh lhs) (GetLow rhs)) (\<lambda>(q, r). Inr (outputs quo rem (of_ui64 q) (of_ui64 r)))
       else if GetLow lhs = 0
       then rbind (div_mod_64 (GetHigh lhs) (GetHigh rhs)) (\<lambda>(q, r). Inr (outputs quo rem (of_ui64 q) (ui128 r 0)))
       else if GetHigh rhs AND (GetHigh rhs - 1) = 0
       then rbind (shr_64 (GetHigh lhs) (int (CountLeadingZeroBits (GetHigh rhs)))) (\<lambda>q.
         Inr (outputs quo rem (of_ui64 q) (ui128 (GetHigh lhs AND (GetHigh rhs - 1)) (GetLow lhs))))
       else
         (let sr = of_nat (CountLeadingZeroBits (GetHigh rhs)) - of_nat (CountLeadingZeroBits (GetHigh lhs)) :: u32
          in if 62 < sr then Inr (outputs quo rem (of_i64 0) lhs)
             else rbind (start_below lhs (sr + 1)) (\<lambda>(q, r). div_rest rhs quo rem (sr + 1) q r))
     else if GetHigh rhs = 0
     then if GetLow rhs AND (GetLow rhs - 1) = 0
       then if GetLow rhs = 1
         then Inr (outputs quo rem lhs (ui128 0 (GetLow lhs AND (GetLow rhs - 1))))
         else if quo
         then let sr = int (CountTrailingZeroBits (GetLow rhs)) in
           rbind (shr_64 (GetHigh lhs) sr) (\<lambda>qh. rbind (shl_64 (GetHigh lhs) (64 - sr)) (\<lambda>c.
           rbind (shr_64 (GetLow lhs) sr) (\<lambda>ql.
             Inr (outputs quo rem (ui128 qh (c OR ql)) (ui128 0 (GetLow lhs AND (GetLow rhs - 1)))))))
         else divide_by_low lhs rhs quo rem
       else divide_by_low lhs rhs quo rem
     else
       (let sr = of_nat (CountLeadingZeroBits (GetHigh rhs)) - of_nat (CountLeadingZeroBits (GetHigh lhs)) :: u32
        in if 63 < sr then Inr (outputs quo rem (of_i64 0) lhs)
           else rbind (if sr + 1 = 64 then start_equal lhs else start_below lhs (sr + 1))
             (\<lambda>(q, r). div_rest rhs quo rem (sr + 1) q r)))"

text \<open>The operators pass variables that start as zero.\<close>

definition written :: "TInteger128 option \<Rightarrow> TInteger128" where
  "written x = (case x of Some value \<Rightarrow> value | None \<Rightarrow> ui128 0 0)"

definition div_ui128 :: "TInteger128 \<Rightarrow> TInteger128 \<Rightarrow> TInteger128 res" where
  "div_ui128 lhs rhs = rbind (DivMod128 lhs rhs True False) (\<lambda>(q, _). Inr (written q))"

definition mod_ui128 :: "TInteger128 \<Rightarrow> TInteger128 \<Rightarrow> TInteger128 res" where
  "mod_ui128 lhs rhs = rbind (DivMod128 lhs rhs False True) (\<lambda>(_, r). Inr (written r))"

definition div_i128 :: "TInteger128 \<Rightarrow> TInteger128 \<Rightarrow> TInteger128 res" where
  "div_i128 lhs rhs =
    (let a = abs_i128 lhs; b = abs_i128 rhs
     in rbind (DivMod128 a b True False) (\<lambda>(q, _).
       Inr (if signbit_i128 lhs \<noteq> signbit_i128 rhs then neg_128 (written q) else written q)))"

definition mod_i128 :: "TInteger128 \<Rightarrow> TInteger128 \<Rightarrow> TInteger128 res" where
  "mod_i128 lhs rhs =
    (let a = abs_i128 lhs; b = abs_i128 rhs
     in rbind (DivMod128 a b False True) (\<lambda>(_, r).
       Inr (if signbit_i128 lhs then neg_128 (written r) else written r)))"

section \<open>The number of significant bits\<close>

lemma bit_count_loop_bounds:
  "r \<le> bit_count_loop v r \<and> unat v < 2 ^ (bit_count_loop v r - r) \<and>
   (v \<noteq> 0 \<longrightarrow> r < bit_count_loop v r \<and> 2 ^ (bit_count_loop v r - r - 1) \<le> unat v)"
proof (induction v r rule: bit_count_loop.induct)
  case (1 v r)
  show ?case
  proof (cases "v = 0")
    case True
    then show ?thesis by (simp add: bit_count_loop.simps)
  next
    case False
    let ?c = "bit_count_loop (drop_bit 1 v) (r + 1)"
    have c: "bit_count_loop v r = ?c" using False by (subst bit_count_loop.simps) simp
    note half = unat_half [of v]
    note IH = 1 [OF False]
    obtain k where k: "?c = r + 1 + k" using IH le_Suc_ex by blast
    have "unat v div 2 < 2 ^ k" using IH k half by simp
    then have "unat v < 2 ^ (k + 1)" by simp
    moreover have "2 ^ k \<le> unat v"
    proof (cases "drop_bit 1 v = 0")
      case True
      then have "k = 0" using k by (simp add: bit_count_loop.simps)
      then show ?thesis using False by (simp add: unat_gt_0 Suc_le_eq)
    next
      case False
      then have "0 < k" "2 ^ (k - 1) \<le> unat v div 2" using IH k half by simp_all
      then obtain m where m: "k = Suc m" "2 ^ m \<le> unat v div 2" by (cases k) auto
      have "2 * 2 ^ m \<le> unat v" using m(2) by linarith
      then show ?thesis using m(1) by simp
    qed
    ultimately show ?thesis using c k by simp
  qed
qed

lemma CountLeadingZeroBits_bounds:
  assumes "v \<noteq> 0"
  shows "CountLeadingZeroBits v \<le> 63" "unat v < 2 ^ (64 - CountLeadingZeroBits v)"
    "2 ^ (63 - CountLeadingZeroBits v) \<le> unat v"
proof -
  have g: "GetValueBitCount v = bit_count_loop v 0" 
    using assms bit_count_loop.simps [of v 0] by (simp add: GetValueBitCount_def)
  obtain k where k: "GetValueBitCount v = Suc k" "unat v < 2 ^ Suc k" "2 ^ k \<le> unat v"
    using bit_count_loop_bounds [of 0 v] assms unfolding g [symmetric] by (cases "GetValueBitCount v") auto
  have "(2::nat) ^ k < 2 ^ 64" using k(3) unsigned_less [of v, where ?'a = nat] by simp
  then have "k < 64" by (rule power_less_imp_less_exp [rotated]) simp
  then show "CountLeadingZeroBits v \<le> 63" "unat v < 2 ^ (64 - CountLeadingZeroBits v)"
    "2 ^ (63 - CountLeadingZeroBits v) \<le> unat v"
    using assms k by (simp_all add: CountLeadingZeroBits_def)
qed

section \<open>The loop\<close>

lemma w128_shift_in:
  assumes "0 < s" "s < 64"
  shows "w128 (ui128 (push_bit s (GetHigh x) OR drop_bit (64 - s) (GetLow x)) (push_bit s (GetLow x) OR v)) =
    push_bit s (w128 x) OR ucast v"
  using assms by (intro bit_eqI) (auto simp: bit_w128 int128_defs bit_simps add_ac dest: bit_imp_le_length)

lemma unat_shifted:
  assumes "c \<le> 1"
  shows "unat (w128 (ui128 (push_bit 1 (GetHigh x) OR drop_bit 63 (GetLow x)) (push_bit 1 (GetLow x) OR of_nat c))) =
    (2 * unat (w128 x) + c) mod 2 ^ 128"
proof -
  have c: "c = 0 \<or> c = 1" using assms by auto
  then have "push_bit 1 (w128 x) OR of_nat c = push_bit 1 (w128 x) + of_nat c"
    by (auto simp: or_one_eq)
  moreover have "ucast (of_nat c :: u64) = (of_nat c :: 128 word)" using c by auto
  moreover have "unat (2 * w128 x + of_nat c) = (2 * unat (w128 x) + c) mod 2 ^ 128"
    using c by (auto simp: unat_word_ariths mod_simps)
  ultimately show ?thesis using w128_shift_in [of 1 x "of_nat c"] by (simp add: mult.commute)
qed

lemma top_bit: "drop_bit 63 (GetHigh q) = of_nat (of_bool (2 ^ 127 \<le> unat (w128 q)))"
proof -
  have "unat (GetHigh q) div 2 ^ 63 = of_bool (2 ^ 127 \<le> unat (w128 q))"
    using unsigned_less [of "GetHigh q", where ?'a = nat] unsigned_less [of "GetLow q", where ?'a = nat]
    unfolding unat_w128 by simp linarith
  then have "unat (drop_bit 63 (GetHigh q)) = of_bool (2 ^ 127 \<le> unat (w128 q))"
    unfolding unat_drop_bit_eq by (simp add: drop_bit_eq_div)
  then show ?thesis by (metis of_nat_unat ucast_id)
qed

lemma div_step_nat:
  fixes n d R A j :: nat
  assumes n: "n < 2 ^ 128" and R: "R < d" "A * d + R = n div 2 ^ Suc j" and j: "j < 128"
    and Q: "Q = (n mod 2 ^ Suc j) * 2 ^ (127 - j) + A div 2"
  shows "2 * A * d + (2 * R + of_bool (2 ^ 127 \<le> Q)) = n div 2 ^ j"
    "(2 * Q + A mod 2) mod 2 ^ 128 = (n mod 2 ^ j) * 2 ^ (128 - j) + A"
proof -
  define P T M b where "P = (2::nat) ^ j" and "T = (2::nat) ^ (127 - j)" and "M = n mod P" and "b = n div P mod 2"
  have PT: "P * T = 2 ^ 127" "2 * T = 2 ^ (128 - j)" "0 < P" "0 < T"
    using j by (simp_all add: P_def T_def Suc_diff_le flip: power_add power_Suc)
  have top: "n mod 2 ^ Suc j = P * b + M" "n div 2 ^ Suc j = n div P div 2"
    unfolding P_def M_def b_def power_Suc2 by (simp_all only: mod_mult2_eq div_mult2_eq)
  have M: "M < P" "b \<le> 1" using PT(3) by (simp_all add: M_def b_def)
  have "A \<le> A * d" using R(1) by (cases d) simp_all
  then have "A \<le> n div P div 2" using R(2) top(2) by linarith
  moreover have "n < 2 * T * P" using n PT(1) by (simp add: mult.commute)
  then have "n div P < 2 * T" by (rule less_mult_imp_div_less)
  ultimately have A: "A < T" by linarith
  have "M * T + T \<le> P * T" using M(1) by (metis Suc_leI add.commute mult_Suc mult_le_mono1)
  then have low: "M * T + A div 2 < 2 ^ 127" "2 * (M * T) + A < 2 * 2 ^ 127" using A PT(1) by linarith+
  have Q': "Q = b * 2 ^ 127 + (M * T + A div 2)" unfolding Q top(1) PT(1) [symmetric] T_def by (simp add: algebra_simps)
  have b: "of_bool (2 ^ 127 \<le> Q) = b" using M(2) low(1) Q' by (cases b) auto
  show "2 * A * d + (2 * R + of_bool (2 ^ 127 \<le> Q)) = n div 2 ^ j"
  proof -
    have "2 * (A * d + R) + b = n div P" using R(2) top(2) by (simp add: b_def)
    then show ?thesis unfolding b P_def by (simp add: algebra_simps)
  qed
  have "2 * Q + A mod 2 = b * 2 ^ 128 + (2 * (M * T) + A)" unfolding Q' by (simp add: mult_2 [symmetric])
  then have "(2 * Q + A mod 2) mod 2 ^ 128 = 2 * (M * T) + A" using low(2) by simp
  then show "(2 * Q + A mod 2) mod 2 ^ 128 = (n mod 2 ^ j) * 2 ^ (128 - j) + A"
    using PT(2) by (simp add: M_def P_def algebra_simps)
qed

lemma div_loop_spec:
  assumes n: "n < 2 ^ 128" and d: "d = unat (w128 rhs)" and k: "k \<le> 128"
    and r: "unat (w128 r) < d" "A * d + unat (w128 r) = n div 2 ^ k"
    and q: "unat (w128 q) = (n mod 2 ^ k) * 2 ^ (128 - k) + A div 2"
    and c: "carry = of_nat (A mod 2)"
  shows "\<exists>r' q' A'. div_loop rhs k r q carry = (r', q', of_nat (A' mod 2)) \<and>
    A' * d + unat (w128 r') = n \<and> unat (w128 r') < d \<and> unat (w128 q') = A' div 2"
  using k r q c
proof (induction k arbitrary: r q carry A)
  case 0
  then show ?case by auto
next
  case (Suc j)
  define b r1 q1 where "b = (of_bool (2 ^ 127 \<le> unat (w128 q)) :: nat)"
    and "r1 = ui128 (push_bit 1 (GetHigh r) OR drop_bit 63 (GetLow r)) (push_bit 1 (GetLow r) OR drop_bit 63 (GetHigh q))"
    and "q1 = ui128 (push_bit 1 (GetHigh q) OR drop_bit 63 (GetLow q)) (push_bit 1 (GetLow q) OR carry)"
  have j: "j < 128" "j \<le> 128" "128 - Suc j = 127 - j" using Suc.prems(1) by simp_all
  note step = div_step_nat [OF n Suc.prems(2,3) j(1) Suc.prems(4) [unfolded j(3)], folded b_def]
  have b: "b \<le> 1" by (simp add: b_def)
  have "2 * unat (w128 r) + b \<le> n" using step(1) div_le_dividend [of n "2 ^ j"] by linarith
  then have r1: "unat (w128 r1) = 2 * unat (w128 r) + b"
    unfolding r1_def top_bit b_def [symmetric] unat_shifted [OF b] using n by (intro mod_less) linarith
  have q1: "unat (w128 q1) = (n mod 2 ^ j) * 2 ^ (128 - j) + A"
    unfolding q1_def Suc.prems(5) step(2) [symmetric] by (rule unat_shifted) simp
  have loop: "div_loop rhs (Suc j) r q carry =
      (if \<not> less_ui128 r1 rhs then div_loop rhs j (sub_128 r1 rhs) q1 1 else div_loop rhs j r1 q1 0)"
    unfolding r1_def q1_def by (simp only: div_loop.simps Let_def)
  show ?case
  proof (cases "less_ui128 r1 rhs")
    case True
    then have "unat (w128 r1) < d" by (simp add: less_ui128_iff d word_less_nat_alt)
    moreover have "2 * A * d + unat (w128 r1) = n div 2 ^ j" using step(1) r1 by simp
    ultimately show ?thesis using Suc.IH [of r1 "2 * A" q1 0] q1 j(2) True unfolding loop by simp
  next
    case False
    then have le: "d \<le> unat (w128 r1)" by (simp add: less_ui128_iff d word_less_nat_alt)
    then have s: "unat (w128 (sub_128 r1 rhs)) = unat (w128 r1) - d"
      by (simp add: w128_sub d unat_sub word_le_nat_alt)
    have "unat (w128 (sub_128 r1 rhs)) < d" using Suc.prems(2) r1 le s b by linarith
    moreover have "(2 * A + 1) * d + unat (w128 (sub_128 r1 rhs)) = n div 2 ^ j" using step(1) r1 s le by simp
    ultimately show ?thesis using Suc.IH [of "sub_128 r1 rhs" "2 * A + 1" q1 1] q1 j(2) False unfolding loop by simp
  qed
qed

text \<open>A call divides exactly when what it writes are the quotient and the remainder.\<close>

definition exactly :: "TInteger128 \<Rightarrow> TInteger128 \<Rightarrow> bool \<Rightarrow> bool \<Rightarrow> div_outputs res \<Rightarrow> bool" where
  "exactly lhs rhs quo rem res \<longleftrightarrow> (\<exists>q r. res = Inr (outputs quo rem q r) \<and>
     w128 q = w128 lhs div w128 rhs \<and> w128 r = w128 lhs mod w128 rhs)"

lemma exactlyI:
  assumes "unat (w128 q) * unat (w128 rhs) + unat (w128 r) = unat (w128 lhs)" "unat (w128 r) < unat (w128 rhs)"
  shows "exactly lhs rhs quo rem (Inr (outputs quo rem q r))"
proof -
  have "unat (w128 lhs) div unat (w128 rhs) = unat (w128 q)" "unat (w128 lhs) mod unat (w128 rhs) = unat (w128 r)"
    using assms(2) unfolding assms(1) [symmetric] by simp_all
  then have "w128 q = w128 lhs div w128 rhs" "w128 r = w128 lhs mod w128 rhs"
    by (simp_all add: word_unat_eq_iff unat_div_distrib unat_mod_distrib)
  then show ?thesis unfolding exactly_def by blast
qed

lemma div_rest_exact:
  assumes S: "unat S < 128"
    and q: "w128 q = push_bit (128 - unat S) (w128 lhs)" and r: "w128 r = drop_bit (unat S) (w128 lhs)"
    and less: "unat (w128 lhs) div 2 ^ unat S < unat (w128 rhs)"
  shows "exactly lhs rhs quo rem (div_rest rhs quo rem S q r)"
proof -
  let ?n = "unat (w128 lhs)" and ?k = "unat S"
  have k: "?k \<le> 128" using S by simp
  then have k2: "(2::nat) ^ 128 = 2 ^ (128 - ?k) * 2 ^ ?k" by (metis le_add_diff_inverse2 power_add)
  have n: "?n < 2 ^ 128" using unsigned_less [of "w128 lhs", where ?'a = nat] by simp
  have r0: "unat (w128 r) = ?n div 2 ^ ?k" unfolding r unat_drop_bit_eq by (simp add: drop_bit_eq_div)
  have "unat (w128 q) = (?n * 2 ^ (128 - ?k)) mod 2 ^ 128"
    unfolding q unsigned_push_bit_eq by (simp add: take_bit_eq_mod push_bit_eq_mult)
  then have q0: "unat (w128 q) = (?n mod 2 ^ ?k) * 2 ^ (128 - ?k) + 0 div 2"
    unfolding k2 by (simp add: mult_mod_left)
  obtain r' q' A where l: "div_loop rhs ?k r q 0 = (r', q', of_nat (A mod 2))" "A * unat (w128 rhs) + unat (w128 r') = ?n"
      "unat (w128 r') < unat (w128 rhs)" "unat (w128 q') = A div 2"
    using div_loop_spec [OF n refl k, of r rhs 0 q 0] less q0 unfolding r0 by auto
  obtain q'' where s: "shl_128 q' 1 = Inr q''" "w128 q'' = push_bit 1 (w128 q')" using shl_128_spec [of 1 q'] by auto
  have "A \<le> A * unat (w128 rhs)" using l(3) by (cases "unat (w128 rhs)") simp_all
  then have A: "A < 2 ^ 128" using l(2) n by linarith
  have "w128 (or_128 q'' (of_ui64 (of_nat (A mod 2)))) = of_nat A"
  proof -
    have "w128 q' = of_nat (A div 2)" using l(4) by (metis of_nat_unat ucast_id)
    then have "w128 q'' = of_nat (2 * (A div 2))" using s(2) by simp
    moreover have "ucast (of_nat (A mod 2) :: u64) = (of_nat (A mod 2) :: 128 word)" by (cases "even A") (auto simp: odd_iff_mod_2_eq_one)
    ultimately show ?thesis by (cases "even A") (auto simp: w128_bitwise or_one_eq odd_iff_mod_2_eq_one)
  qed
  then have "unat (w128 (or_128 q'' (of_ui64 (of_nat (A mod 2))))) = A" using A by (simp add: unat_of_nat)
  then show ?thesis unfolding div_rest_def l(1) using l(2,3) s(1) by (simp add: exactlyI)
qed

section \<open>Where the loop starts\<close>

definition from_start :: "TInteger128 \<Rightarrow> u32 \<Rightarrow> (TInteger128 \<times> TInteger128) res" where
  "from_start lhs sr = rbind (shl_128 lhs (128 - uint sr)) (\<lambda>q. rbind (shr_128 lhs (uint sr)) (\<lambda>r. Inr (q, r)))"

lemma uint_starts:
  "0 < uint sr \<Longrightarrow> uint sr < 64 \<Longrightarrow> start_below lhs sr = from_start lhs sr"
  "uint sr = 64 \<Longrightarrow> start_equal lhs = from_start lhs sr"
  "64 < uint sr \<Longrightarrow> uint sr < 128 \<Longrightarrow> start_above lhs sr = from_start lhs sr"
  by (simp_all add: from_start_def start_below_def start_equal_def start_above_def shl_128_def shr_128_def or.commute)

lemma starts:
  "0 < unat sr \<Longrightarrow> unat sr < 64 \<Longrightarrow> start_below lhs sr = from_start lhs sr"
  "unat sr = 64 \<Longrightarrow> start_equal lhs = from_start lhs sr"
  "64 < unat sr \<Longrightarrow> unat sr < 128 \<Longrightarrow> start_above lhs sr = from_start lhs sr"
proof -
  have i: "uint sr = int (unat sr)" by simp
  show "0 < unat sr \<Longrightarrow> unat sr < 64 \<Longrightarrow> start_below lhs sr = from_start lhs sr"
    "unat sr = 64 \<Longrightarrow> start_equal lhs = from_start lhs sr"
    "64 < unat sr \<Longrightarrow> unat sr < 128 \<Longrightarrow> start_above lhs sr = from_start lhs sr"
    by (rule uint_starts; unfold i; linarith)+
qed

lemma from_start_exact:
  assumes S: "0 < unat S" "unat S < 128" and less: "unat (w128 lhs) div 2 ^ unat S < unat (w128 rhs)"
  shows "exactly lhs rhs quo rem (rbind (from_start lhs S) (\<lambda>(q, r). div_rest rhs quo rem S q r))"
proof -
  have i: "uint S = int (unat S)" by simp
  have u: "0 < uint S" "uint S < 128" "nat (128 - uint S) = 128 - unat S" "nat (uint S) = unat S"
    unfolding i using S by linarith+
  obtain q where q: "shl_128 lhs (128 - uint S) = Inr q" "w128 q = push_bit (128 - unat S) (w128 lhs)"
    using shl_128_spec [of "128 - uint S" lhs] u by auto
  obtain r where r: "shr_128 lhs (uint S) = Inr r" "w128 r = drop_bit (unat S) (w128 lhs)"
    using shr_128_spec [of "uint S" lhs] u by auto
  show ?thesis using div_rest_exact [OF S(2) q(2) r(2) less] by (simp add: from_start_def q(1) r(1))
qed

lemma value_bounds:
  assumes "GetHigh x \<noteq> 0"
  shows "unat (w128 x) < 2 ^ (128 - CountLeadingZeroBits (GetHigh x))"
    "2 ^ (127 - CountLeadingZeroBits (GetHigh x)) \<le> unat (w128 x)"
proof -
  let ?c = "CountLeadingZeroBits (GetHigh x)"
  note c = CountLeadingZeroBits_bounds [OF assms]
  have e: "128 - ?c = (64 - ?c) + 64" "127 - ?c = (63 - ?c) + 64" using c(1) by simp_all
  have "unat (GetHigh x) * 2 ^ 64 + 2 ^ 64 \<le> 2 ^ (64 - ?c) * 2 ^ 64" using c(2) by simp
  then show "unat (w128 x) < 2 ^ (128 - ?c)"
    using unsigned_less [of "GetLow x", where ?'a = nat] unfolding unat_w128 e power_add by simp
  show "2 ^ (127 - ?c) \<le> unat (w128 x)" unfolding unat_w128 e power_add using c(3) by (simp add: trans_le_add1)
qed

lemma shifted_less:
  fixes n d :: nat
  assumes "n < 2 ^ (b + S)" "2 ^ b \<le> d"
  shows "n div 2 ^ S < d"
  using assms less_mult_imp_div_less [of n "2 ^ b" "2 ^ S"] by (simp add: power_add)

lemma unat_difference:
  assumes "a \<le> 63" "b \<le> 63"
  shows "unat (of_nat a - of_nat b :: u32) = (if b \<le> a then a - b else a + 2 ^ 32 - b)"
proof -
  have "unat (of_nat a :: u32) = a" "unat (of_nat b :: u32) = b" using assms by (simp_all add: unat_of_nat)
  then show ?thesis by (simp add: unat_sub_if')
qed

lemma CountLeadingZeroBits_62:
  assumes "v \<noteq> 0" "v \<noteq> 1" shows "CountLeadingZeroBits v \<le> 62"
proof (rule ccontr)
  assume "\<not> CountLeadingZeroBits v \<le> 62"
  then have "CountLeadingZeroBits v = 63" using CountLeadingZeroBits_bounds(1) [OF assms(1)] by linarith
  then have "unat v < 2" using CountLeadingZeroBits_bounds(2) [OF assms(1)] by simp
  then show False using assms unfolding word_unat_eq_iff by simp
qed

lemma divide_by_low_exact:
  assumes h: "GetHigh lhs \<noteq> 0" "GetHigh rhs = 0" and l: "GetLow rhs \<noteq> 0" "GetLow rhs \<noteq> 1"
  shows "exactly lhs rhs quo rem (divide_by_low lhs rhs quo rem)"
proof -
  let ?c = "CountLeadingZeroBits (GetLow rhs)" and ?e = "CountLeadingZeroBits (GetHigh lhs)"
  define S where "S = (1 + 64 + of_nat ?c - of_nat ?e :: u32)"
  note c = CountLeadingZeroBits_bounds [OF l(1)] and e = CountLeadingZeroBits_bounds [OF h(1)]
  have c62: "?c \<le> 62" by (rule CountLeadingZeroBits_62) (rule l)+
  have "S = of_nat (65 + ?c) - of_nat ?e" by (simp add: S_def)
  moreover have "unat (of_nat (65 + ?c) :: u32) = 65 + ?c" "unat (of_nat ?e :: u32) = ?e"
    using c62 e(1) by (simp_all add: unat_of_nat del: of_nat_add)
  ultimately have S: "unat S = 65 + ?c - ?e" using e(1) by (simp add: unat_sub_if' del: of_nat_add)
  then have range: "0 < unat S" "unat S < 128" using c62 e(1) by simp_all
  have "128 - ?e = (63 - ?c) + unat S" using S c62 e(1) by simp
  then have less: "unat (w128 lhs) div 2 ^ unat S < unat (w128 rhs)"
    using shifted_less [of _ "63 - ?c" "unat S"] value_bounds(1) [OF h(1)] c(3) h(2) by (simp add: unat_w128)
  have "(if S = 64 then start_equal lhs else if S < 64 then start_below lhs S else start_above lhs S) = from_start lhs S"
    using range starts [of S lhs] by (auto simp: word_less_nat_alt word_unat_eq_iff)
  then show ?thesis using from_start_exact [OF range less] unfolding divide_by_low_def Let_def S_def [symmetric] by (simp only:)
qed

lemma exactly_small:
  assumes "unat (w128 lhs) < unat (w128 rhs)"
  shows "exactly lhs rhs quo rem (Inr (outputs quo rem (of_i64 0) lhs))"
  using assms by (intro exactlyI) simp_all

lemma divide_by_high_exact:
  assumes h: "GetHigh lhs \<noteq> 0" "GetHigh rhs \<noteq> 0" and m: "m = 62 \<and> GetHigh rhs \<noteq> 1 \<or> m = 63"
    and sr: "sr = of_nat (CountLeadingZeroBits (GetHigh rhs)) - of_nat (CountLeadingZeroBits (GetHigh lhs))"
    and start: "unat sr \<noteq> 63 \<Longrightarrow> start = start_below lhs (sr + 1)" "m = 63 \<Longrightarrow> unat sr = 63 \<Longrightarrow> start = start_equal lhs"
  shows "exactly lhs rhs quo rem (if m < sr then Inr (outputs quo rem (of_i64 0) lhs)
    else rbind start (\<lambda>(q, r). div_rest rhs quo rem (sr + 1) q r))"
proof -
  let ?c = "CountLeadingZeroBits (GetHigh rhs)" and ?e = "CountLeadingZeroBits (GetHigh lhs)"
  note c = CountLeadingZeroBits_bounds [OF h(2)] and e = CountLeadingZeroBits_bounds [OF h(1)]
  have u: "unat sr = (if ?e \<le> ?c then ?c - ?e else ?c + 2 ^ 32 - ?e)" unfolding sr by (rule unat_difference) (rule c e)+
  show ?thesis
  proof (cases "?e \<le> ?c")
    case False
    then have "128 - ?e \<le> 127 - ?c" using e(1) by simp
    then have "(2::nat) ^ (128 - ?e) \<le> 2 ^ (127 - ?c)" by (rule power_increasing) simp
    then have "unat (w128 lhs) < unat (w128 rhs)" using value_bounds(1) [OF h(1)] value_bounds(2) [OF h(2)] by linarith
    moreover have "m < sr" using False u e(1) m by (auto simp: word_less_nat_alt)
    ultimately show ?thesis by (simp add: exactly_small)
  next
    case True
    have "?c \<le> 62" if "GetHigh rhs \<noteq> 1" using CountLeadingZeroBits_62 [OF h(2) that] .
    then have le: "\<not> m < sr" using True u c(1) m by (auto simp: word_less_nat_alt)
    have S: "unat (sr + 1) = ?c - ?e + 1" using True u c(1) by (simp add: unat_plus_if')
    then have range: "0 < unat (sr + 1)" "unat (sr + 1) < 128" using c(1) by simp_all
    have "128 - ?e = (127 - ?c) + unat (sr + 1)" using S True c(1) by simp
    then have less: "unat (w128 lhs) div 2 ^ unat (sr + 1) < unat (w128 rhs)"
      using shifted_less [of _ "127 - ?c" "unat (sr + 1)"] value_bounds(1) [OF h(1)] value_bounds(2) [OF h(2)] by simp
    have "start = from_start lhs (sr + 1)"
      using start starts [of "sr + 1" lhs] True u c(1) le m unfolding S by (cases "unat sr = 63") (auto simp: word_less_nat_alt)
    then show ?thesis using from_start_exact [OF range less] le by simp
  qed
qed

section \<open>Powers of two\<close>

lemma top_bit_set: "2 ^ k \<le> unat v \<Longrightarrow> unat v < 2 ^ Suc k \<Longrightarrow> bit v k"
  for v :: u64
proof -
  assume v: "2 ^ k \<le> unat v" "unat v < 2 ^ Suc k"
  then have "unat v div 2 ^ k = 1" by (intro div_nat_eqI) simp_all
  then have "bit (unat v) k" by (simp add: bit_iff_odd)
  then show "bit v k" by (simp add: bit_unsigned_iff)
qed

lemma power_of_two:
  assumes v: "v \<noteq> 0" "v AND (v - 1) = 0"
  shows "v = 2 ^ (63 - CountLeadingZeroBits v)" "unat v = 2 ^ (63 - CountLeadingZeroBits v)"
proof -
  let ?k = "63 - CountLeadingZeroBits v"
  note b = CountLeadingZeroBits_bounds [OF v(1)]
  have "64 - CountLeadingZeroBits v = Suc ?k" using b(1) by simp
  then have u: "unat v < 2 ^ Suc ?k" "2 ^ ?k \<le> unat v" using b(2,3) by (simp_all only:)
  have m: "unat (v - 1) = unat v - 1" using v(1) by (simp add: unat_sub_if' word_unat_eq_iff)
  have "\<not> 2 ^ ?k \<le> unat (v - 1)"
  proof
    assume "2 ^ ?k \<le> unat (v - 1)"
    then have "bit (v AND (v - 1)) ?k" using u m top_bit_set [of ?k] by (simp add: bit_and_iff)
    then show False using v(2) by simp
  qed
  then show "unat v = 2 ^ ?k" using u m by linarith
  then show "v = 2 ^ ?k" by (metis of_nat_unat ucast_id of_nat_power of_nat_numeral)
qed

lemma unat_power_64: "k < 64 \<Longrightarrow> unat (2 ^ k :: u64) = 2 ^ k"
proof -
  assume "k < 64"
  then have "(2::nat) ^ k < 2 ^ 64" by (rule power_strict_increasing) simp
  then have "unat (of_nat (2 ^ k) :: u64) = 2 ^ k" by (simp add: unat_of_nat del: of_nat_power)
  then show ?thesis by simp
qed

lemma trailing_loop_power: "k < 64 \<Longrightarrow> trailing_loop (2 ^ k) c = c + k"
proof (induction k arbitrary: c)
  case 0
  show ?case by (subst trailing_loop.simps) simp
next
  case (Suc k)
  have "unat (2 ^ Suc k :: u64) \<noteq> 0" unfolding unat_power_64 [OF Suc.prems] by simp
  then have nz: "(2 ^ Suc k :: u64) \<noteq> 0" by (metis unat_0)
  have "unat (drop_bit 1 (2 ^ Suc k :: u64)) = 2 ^ k" unfolding unat_half unat_power_64 [OF Suc.prems] by simp
  then have "drop_bit 1 (2 ^ Suc k :: u64) = 2 ^ k" using Suc.prems unat_power_64 [of k] by (simp add: word_unat_eq_iff)
  moreover have "(2 ^ Suc k :: u64) AND 1 = 0" by (simp add: and_one_eq even_iff_mod_2_eq_zero [symmetric])
  ultimately show ?case using trailing_loop.simps [of "2 ^ Suc k" c] nz Suc by simp
qed

lemma unat_low_bits:
  assumes "k < 64" shows "unat (v AND (2 ^ k - 1) :: u64) = unat v mod 2 ^ k"
proof -
  have "v AND (2 ^ k - 1) = take_bit k v" by (simp add: take_bit_eq_mask mask_eq_exp_minus_1)
  moreover have "unat (take_bit k v) = unat v mod 2 ^ k" unfolding unsigned_take_bit_eq by (simp add: take_bit_eq_mod)
  ultimately show ?thesis by (simp only:)
qed

lemma low_power_exact:
  assumes "GetHigh rhs = 0" "GetLow rhs \<noteq> 0" "GetLow rhs AND (GetLow rhs - 1) = 0"
  shows "unat (w128 (ui128 0 (GetLow lhs AND (GetLow rhs - 1)))) = unat (w128 lhs) mod unat (w128 rhs)"
proof -
  define k where "k = 63 - CountLeadingZeroBits (GetLow rhs)"
  note p = power_of_two [OF assms(2,3), folded k_def]
  have k: "k < 64" by (simp add: k_def)
  have "(2::nat) ^ k dvd 2 ^ 64" using k by (intro le_imp_power_dvd) simp
  then have "(unat (GetHigh lhs) * 2 ^ 64 + unat (GetLow lhs)) mod 2 ^ k = unat (GetLow lhs) mod 2 ^ k"
    by (metis dvd_mult mod_add_left_eq dvd_eq_mod_eq_0 add_0)
  then show ?thesis using unat_low_bits [OF k, of "GetLow lhs"] assms(1) p
    by (simp add: unat_w128 int128_defs)
qed

lemma exactly_both:
  assumes "unat (w128 q) = unat (w128 lhs) div unat (w128 rhs)" "unat (w128 r) = unat (w128 lhs) mod unat (w128 rhs)" "w128 rhs \<noteq> 0"
  shows "exactly lhs rhs quo rem (Inr (outputs quo rem q r))"
  using assms by (intro exactlyI) (simp_all add: unat_gt_0)

lemma low_power_quotient:
  assumes "GetHigh rhs = 0" "GetLow rhs \<noteq> 0" "GetLow rhs AND (GetLow rhs - 1) = 0" "GetLow rhs \<noteq> 1"
    and r: "unat (w128 r) = unat (w128 lhs) mod unat (w128 rhs)" "w128 rhs \<noteq> 0"
  shows "exactly lhs rhs quo rem (let sr = int (CountTrailingZeroBits (GetLow rhs)) in
      rbind (shr_64 (GetHigh lhs) sr) (\<lambda>qh. rbind (shl_64 (GetHigh lhs) (64 - sr)) (\<lambda>c.
      rbind (shr_64 (GetLow lhs) sr) (\<lambda>ql. Inr (outputs quo rem (ui128 qh (c OR ql)) r)))))"
proof -
  define k where "k = 63 - CountLeadingZeroBits (GetLow rhs)"
  note p = power_of_two [OF assms(2,3), folded k_def]
  have "k \<noteq> 0" using p(1) assms(4) by (cases k) simp_all
  then have k: "0 < k" "k < 64" by (simp_all add: k_def)
  have t: "CountTrailingZeroBits (GetLow rhs) = k" unfolding CountTrailingZeroBits_def p(1)
    using trailing_loop_power [OF k(2), of 0] by simp
  obtain q where q: "shr_128 lhs (int k) = Inr q" "w128 q = drop_bit k (w128 lhs)" using shr_128_spec [of "int k" lhs] k by auto
  have "unat (w128 q) = unat (w128 lhs) div unat (w128 rhs)"
    unfolding q(2) unat_drop_bit_eq using p(2) assms(1) by (simp add: drop_bit_eq_div unat_w128)
  then have "exactly lhs rhs quo rem (Inr (outputs quo rem q r))" using r by (rule exactly_both)
  then show ?thesis using k q(1) unfolding t by (auto simp: shr_128_def or.commute)
qed

lemma unat_of_ui64: "unat (w128 (of_ui64 x)) = unat x"
  by (simp add: unat_w128 of_ui64_def int128_defs)

lemma unat_ucast_128: "unat (ucast (x :: u64) :: 128 word) = unat x"
  using unat_of_ui64 [of x] by simp

definition wrong_shift :: "TInteger128 \<Rightarrow> TInteger128 \<Rightarrow> bool" where
  "wrong_shift lhs rhs \<longleftrightarrow> GetHigh lhs \<noteq> 0 \<and> GetLow lhs \<noteq> 0 \<and> GetLow rhs = 0 \<and> GetHigh rhs \<noteq> 0 \<and>
     GetHigh rhs AND (GetHigh rhs - 1) = 0"

lemma small_lhs_exact:
  assumes "GetHigh lhs = 0" "w128 rhs \<noteq> 0" "quo \<or> rem"
  shows "exactly lhs rhs quo rem (DivMod128 lhs rhs quo rem)"
proof (cases "GetHigh rhs = 0")
  case True
  then have "GetLow rhs \<noteq> 0" using assms(2) by (auto simp: word_unat_eq_iff unat_w128)
  then have "DivMod128 lhs rhs quo rem = Inr (outputs quo rem (of_ui64 (GetLow lhs div GetLow rhs)) (of_ui64 (GetLow lhs mod GetLow rhs)))"
    using assms True by (auto simp: DivMod128_def div_mod_64_def)
  then show ?thesis using assms True by (auto intro!: exactly_both simp: unat_ucast_128 unat_w128 unat_div_distrib unat_mod_distrib)
next
  case False
  then have "unat (w128 lhs) < unat (w128 rhs)"
    using assms(1) by (simp add: word_less_nat_alt [symmetric] w128_less word_neq_0_conv)
  moreover have "of_ui64 (GetLow lhs) = lhs" using assms(1) by (cases lhs) (simp add: of_ui64_def int128_defs)
  ultimately show ?thesis using assms False exactly_small [of lhs rhs] by (auto simp: DivMod128_def)
qed

lemma aligned_exact:
  assumes "GetHigh lhs \<noteq> 0" "GetLow lhs = 0" "GetHigh rhs \<noteq> 0" "GetLow rhs = 0" "quo \<or> rem"
  shows "exactly lhs rhs quo rem (DivMod128 lhs rhs quo rem)"
proof -
  have "DivMod128 lhs rhs quo rem =
      Inr (outputs quo rem (of_ui64 (GetHigh lhs div GetHigh rhs)) (ui128 (GetHigh lhs mod GetHigh rhs) 0))"
    using assms by (auto simp: DivMod128_def div_mod_64_def)
  moreover have "w128 rhs \<noteq> 0" using assms(3) by (auto simp: word_unat_eq_iff unat_w128)
  ultimately show ?thesis using assms
    by (auto intro!: exactly_both simp: unat_ucast_128 unat_w128 GetHigh_def GetLow_def unat_div_distrib unat_mod_distrib mult_mod_left)
qed

lemma low_by_exact:
  assumes h: "GetHigh lhs \<noteq> 0" "GetHigh rhs = 0" and l: "GetLow rhs \<noteq> 0"
  shows "exactly lhs rhs quo rem
    (if GetLow rhs AND (GetLow rhs - 1) = 0
       then if GetLow rhs = 1
         then Inr (outputs quo rem lhs (ui128 0 (GetLow lhs AND (GetLow rhs - 1))))
         else if quo
         then let sr = int (CountTrailingZeroBits (GetLow rhs)) in
           rbind (shr_64 (GetHigh lhs) sr) (\<lambda>qh. rbind (shl_64 (GetHigh lhs) (64 - sr)) (\<lambda>c.
           rbind (shr_64 (GetLow lhs) sr) (\<lambda>ql.
             Inr (outputs quo rem (ui128 qh (c OR ql)) (ui128 0 (GetLow lhs AND (GetLow rhs - 1)))))))
         else divide_by_low lhs rhs quo rem
       else divide_by_low lhs rhs quo rem)"
proof -
  have nz: "w128 rhs \<noteq> 0" using l by (auto simp: word_unat_eq_iff unat_w128)
  have other: "exactly lhs rhs quo rem (divide_by_low lhs rhs quo rem)" if "GetLow rhs \<noteq> 1"
    using divide_by_low_exact [OF h l that] .
  show ?thesis
  proof (cases "GetLow rhs AND (GetLow rhs - 1) = 0")
    case True
    note r = low_power_exact [OF h(2) l True, of lhs]
    show ?thesis
    proof (cases "GetLow rhs = 1")
      case one: True
      then have "unat (w128 rhs) = 1" using h(2) by (simp add: unat_w128)
      then have "exactly lhs rhs quo rem (Inr (outputs quo rem lhs (ui128 0 (GetLow lhs AND (GetLow rhs - 1)))))"
        using r nz by (intro exactly_both) simp_all
      then show ?thesis using True one by simp
    next
      case False
      show ?thesis using low_power_quotient [OF h(2) l True False r nz, of quo rem] other [OF False] True False
        by (cases quo) (simp_all only: if_True if_False simp_thms)
    qed
  next
    case False
    then have "GetLow rhs \<noteq> 1" by auto
    then show ?thesis using other False by simp
  qed
qed

lemma next_is_64: "sr + 1 = 64 \<longleftrightarrow> unat sr = 63" for sr :: u32
proof -
  have "sr + 1 = 64 \<longleftrightarrow> sr = 63" using eq_diff_eq [of sr 64 1] by simp
  then show ?thesis by (simp add: word_unat_eq_iff [of sr 63])
qed

lemma DivMod128_exact:
  assumes "\<not> wrong_shift lhs rhs" "w128 rhs \<noteq> 0" "quo \<or> rem"
  shows "exactly lhs rhs quo rem (DivMod128 lhs rhs quo rem)"
proof (cases "GetHigh lhs = 0")
  case True
  then show ?thesis by (rule small_lhs_exact) (rule assms)+
next
  case h: False
  let ?sr = "of_nat (CountLeadingZeroBits (GetHigh rhs)) - of_nat (CountLeadingZeroBits (GetHigh lhs)) :: u32"
  have nn: "(\<not> quo \<and> \<not> rem) = False" using assms(3) by blast
  have low: "GetLow rhs \<noteq> 0" if "GetHigh rhs = 0" using that assms(2) by (auto simp: word_unat_eq_iff unat_w128)
  consider "GetLow rhs = 0" "GetLow lhs = 0" | "GetLow rhs = 0" "GetLow lhs \<noteq> 0" |
      "GetLow rhs \<noteq> 0" "GetHigh rhs \<noteq> 0" | "GetHigh rhs = 0" by blast
  then show ?thesis
  proof cases
    case 1
    then show ?thesis using h low assms by (intro aligned_exact) auto
  next
    case 2
    then have r: "GetHigh rhs \<noteq> 0" "GetHigh rhs AND (GetHigh rhs - 1) \<noteq> 0" using low assms(1) h by (auto simp: wrong_shift_def)
    then have "GetHigh rhs \<noteq> 1" by auto
    then have "exactly lhs rhs quo rem (if 62 < ?sr then Inr (outputs quo rem (of_i64 0) lhs)
        else rbind (start_below lhs (?sr + 1)) (\<lambda>(q, r). div_rest rhs quo rem (?sr + 1) q r))"
      using h r(1) by (intro divide_by_high_exact) simp_all
    then show ?thesis unfolding DivMod128_def nn Let_def if_False using 2 r h by (simp only: if_True if_False simp_thms)
  next
    case 3
    have "exactly lhs rhs quo rem (if 63 < ?sr then Inr (outputs quo rem (of_i64 0) lhs)
        else rbind (if ?sr + 1 = 64 then start_equal lhs else start_below lhs (?sr + 1)) (\<lambda>(q, r). div_rest rhs quo rem (?sr + 1) q r))"
      by (rule divide_by_high_exact [OF h 3(2) _ refl]) (simp_all only: next_is_64 simp_thms if_True if_False less_irrefl)
    then show ?thesis unfolding DivMod128_def nn Let_def if_False using 3 h by (simp only: if_True if_False simp_thms)
  next
    case 4
    then show ?thesis unfolding DivMod128_def nn if_False using h low low_by_exact [OF h 4 low [OF 4], of quo rem]
      by (simp only: if_True if_False simp_thms)
  qed
qed

lemma wrong_shift_remainder:
  assumes "wrong_shift lhs rhs"
  shows "w128 (ui128 (GetHigh lhs AND (GetHigh rhs - 1)) (GetLow lhs)) = w128 lhs mod w128 rhs"
proof -
  define k where "k = 63 - CountLeadingZeroBits (GetHigh rhs)"
  have h: "GetHigh rhs \<noteq> 0" "GetHigh rhs AND (GetHigh rhs - 1) = 0" "GetLow rhs = 0" using assms by (auto simp: wrong_shift_def)
  note p = power_of_two [OF h(1,2), folded k_def]
  have k: "k < 64" by (simp add: k_def)
  let ?n = "unat (GetHigh lhs) * 2 ^ 64 + unat (GetLow lhs)"
  have n: "?n div 2 ^ 64 = unat (GetHigh lhs)" "?n mod 2 ^ 64 = unat (GetLow lhs)"
    using unsigned_less [of "GetLow lhs", where ?'a = nat] by simp_all
  have "?n mod (2 ^ 64 * 2 ^ k) = 2 ^ 64 * (unat (GetHigh lhs) mod 2 ^ k) + unat (GetLow lhs)"
    unfolding mod_mult2_eq n ..
  then have "unat (w128 lhs) mod unat (w128 rhs) = unat (GetHigh lhs AND (GetHigh rhs - 1)) * 2 ^ 64 + unat (GetLow lhs)"
    unfolding unat_w128 [of lhs] unat_w128 [of rhs] h(3) p(2) using unat_low_bits [OF k, of "GetHigh lhs"] p(1) by (simp add: mult.commute)
  then show ?thesis by (simp add: word_unat_eq_iff unat_mod_distrib unat_w128 GetHigh_def GetLow_def)
qed

definition quotient_written :: "TInteger128 \<Rightarrow> TInteger128 \<Rightarrow> 128 word" where
  "quotient_written lhs rhs =
    (if wrong_shift lhs rhs then ucast (drop_bit (CountLeadingZeroBits (GetHigh rhs)) (GetHigh lhs)) else w128 lhs div w128 rhs)"

lemma DivMod128_spec:
  assumes "w128 rhs \<noteq> 0" "quo \<or> rem"
  shows "\<exists>q r. DivMod128 lhs rhs quo rem = Inr (outputs quo rem q r) \<and>
    w128 q = quotient_written lhs rhs \<and> w128 r = w128 lhs mod w128 rhs"
proof (cases "wrong_shift lhs rhs")
  case False
  then show ?thesis using DivMod128_exact [OF False assms] by (simp add: exactly_def quotient_written_def)
next
  case True
  then have w: "GetHigh lhs \<noteq> 0" "GetLow lhs \<noteq> 0" "GetLow rhs = 0" "GetHigh rhs \<noteq> 0" "GetHigh rhs AND (GetHigh rhs - 1) = 0"
    by (auto simp: wrong_shift_def)
  have "int (CountLeadingZeroBits (GetHigh rhs)) < 64" using CountLeadingZeroBits_bounds(1) [OF w(4)] by simp
  then have "DivMod128 lhs rhs quo rem = Inr (outputs quo rem (of_ui64 (drop_bit (CountLeadingZeroBits (GetHigh rhs)) (GetHigh lhs)))
      (ui128 (GetHigh lhs AND (GetHigh rhs - 1)) (GetLow lhs)))"
    using w assms(2) by (auto simp: DivMod128_def)
  moreover have "w128 (of_ui64 (drop_bit (CountLeadingZeroBits (GetHigh rhs)) (GetHigh lhs))) = quotient_written lhs rhs"
    using True by (simp add: quotient_written_def)
  ultimately show ?thesis using wrong_shift_remainder [OF True] by blast
qed

lemma DivMod128_zero:
  assumes "w128 rhs = 0" "quo \<or> rem"
  shows "DivMod128 lhs rhs quo rem = Inl (Undefined ''division by zero'')"
proof -
  have "unat (w128 rhs) = 0" using assms(1) by simp
  then have "GetHigh rhs = 0" "GetLow rhs = 0" unfolding unat_w128 by (simp_all add: unat_eq_0)
  then show ?thesis using assms(2) by (auto simp: DivMod128_def div_mod_64_def)
qed

section \<open>Signed operands\<close>

lemma uint_abs_i128: "uint (w128 (abs_i128 x)) = \<bar>sint (w128 x)\<bar>"
proof (cases "sint (w128 x) < 0")
  case True
  have "uint (- w128 x) = (- uint (w128 x)) mod 2 ^ 128" by (simp add: uint_word_ariths)
  also have "- uint (w128 x) = - sint (w128 x) + (- 1) * 2 ^ 128" using sint_uint_128 [of "w128 x"] True by simp
  also have "\<dots> mod 2 ^ 128 = (- sint (w128 x)) mod 2 ^ 128" by (rule mod_mult_self1)
  also have "\<dots> = - sint (w128 x)"
    using True sint_greater_eq [of "w128 x"] by (intro mod_pos_pos_trivial) simp_all
  finally show ?thesis using True by (simp add: abs_i128_def signbit_iff w128_neg)
next
  case False
  then show ?thesis using sint_uint_128 [of "w128 x"] by (simp add: abs_i128_def signbit_iff)
qed

lemma word_div_int: "v div w = word_of_int (uint v div uint w)" and word_mod_int: "v mod w = word_of_int (uint v mod uint w)"
  for v w :: "'a::len word"
  by (simp_all add: word_div_def word_mod_def)

lemma signed_quotient:
  "(if signbit_i128 x \<noteq> signbit_i128 y then - (w128 (abs_i128 x) div w128 (abs_i128 y)) else w128 (abs_i128 x) div w128 (abs_i128 y)) =
    word_of_int (sint (w128 x) sdiv sint (w128 y))"
  unfolding signbit_iff word_div_int uint_abs_i128 signed_divide_int_def
  by (auto simp: sgn_if)

lemma signed_remainder:
  "(if signbit_i128 x then - (w128 (abs_i128 x) mod w128 (abs_i128 y)) else w128 (abs_i128 x) mod w128 (abs_i128 y)) =
    word_of_int (sint (w128 x) smod sint (w128 y))"
  unfolding signbit_iff word_mod_int uint_abs_i128 smod_int_alt_def
  by (auto simp: sgn_if)

lemma operators_spec:
  assumes "w128 y \<noteq> 0"
  shows "\<exists>q r. DivMod128 x y True True = Inr (Some q, Some r) \<and> div_ui128 x y = Inr q \<and> mod_ui128 x y = Inr r \<and>
    w128 q = quotient_written x y \<and> w128 r = w128 x mod w128 y"
proof -
  obtain q r where b: "DivMod128 x y True True = Inr (Some q, Some r)" "w128 q = quotient_written x y" "w128 r = w128 x mod w128 y"
    using DivMod128_spec [OF assms, of True True x] by (auto simp: outputs_def)
  moreover obtain q' where "DivMod128 x y True False = Inr (Some q', None)" "w128 q' = quotient_written x y"
    using DivMod128_spec [OF assms, of True False x] by (auto simp: outputs_def)
  moreover obtain r' where "DivMod128 x y False True = Inr (None, Some r')" "w128 r' = w128 x mod w128 y"
    using DivMod128_spec [OF assms, of False True x] by (auto simp: outputs_def)
  moreover have "q' = q" "r' = r" using calculation by (auto simp flip: w128_inject)
  ultimately show ?thesis by (simp add: div_ui128_def mod_ui128_def written_def)
qed

lemma signed_operators_spec:
  assumes "w128 y \<noteq> 0"
  shows "\<exists>q r. div_i128 x y = Inr q \<and> mod_i128 x y = Inr r \<and>
    (\<not> wrong_shift (abs_i128 x) (abs_i128 y) \<longrightarrow> w128 q = word_of_int (sint (w128 x) sdiv sint (w128 y))) \<and>
    w128 r = word_of_int (sint (w128 x) smod sint (w128 y))"
proof -
  have nz: "w128 (abs_i128 y) \<noteq> 0" using assms by (auto simp: abs_i128_def w128_neg)
  obtain q where q: "DivMod128 (abs_i128 x) (abs_i128 y) True False = Inr (Some q, None)"
      "w128 q = quotient_written (abs_i128 x) (abs_i128 y)"
    using DivMod128_spec [OF nz, of True False "abs_i128 x"] by (auto simp: outputs_def)
  obtain r where r: "DivMod128 (abs_i128 x) (abs_i128 y) False True = Inr (None, Some r)"
      "w128 r = w128 (abs_i128 x) mod w128 (abs_i128 y)"
    using DivMod128_spec [OF nz, of False True "abs_i128 x"] by (auto simp: outputs_def)
  show ?thesis using signed_quotient [of x y] signed_remainder [of x y] q r
    by (auto simp: div_i128_def mod_i128_def written_def quotient_written_def w128_neg)
qed

section \<open>Properties\<close>

text \<open>C22. Division of 128-bit integers is exact but for one shortcut. Division by zero is undefined
  for all operators. Otherwise \<open>DivMod128\<close> and the operators return; the remainders are those of the
  unsigned words and, for \<open>i128\<close>, those of the signed values with division that truncates towards
  zero; and so are the quotients, unless the shortcut for a divisor that is a power of two of at
  least 64 zero bits is taken (\<open>wrong_shift\<close>): there the high half of the dividend is shifted by the
  number of leading zeros of the divisor and not of trailing ones.\<close>

theorem division_128_exact:
  "if w128 y = 0
   then div_ui128 x y = Inl (Undefined ''division by zero'') \<and> mod_ui128 x y = Inl (Undefined ''division by zero'') \<and>
     div_i128 x y = Inl (Undefined ''division by zero'') \<and> mod_i128 x y = Inl (Undefined ''division by zero'')
   else
     (\<exists>q r. DivMod128 x y True True = Inr (Some q, Some r) \<and> div_ui128 x y = Inr q \<and> mod_ui128 x y = Inr r \<and>
       w128 q = (if wrong_shift x y then ucast (drop_bit (CountLeadingZeroBits (GetHigh y)) (GetHigh x)) else w128 x div w128 y) \<and>
       w128 r = w128 x mod w128 y) \<and>
     (\<exists>q r. div_i128 x y = Inr q \<and> mod_i128 x y = Inr r \<and>
       (\<not> wrong_shift (abs_i128 x) (abs_i128 y) \<longrightarrow> w128 q = word_of_int (sint (w128 x) sdiv sint (w128 y))) \<and>
       w128 r = word_of_int (sint (w128 x) smod sint (w128 y)))"
proof (cases "w128 y = 0")
  case True
  then have "w128 (abs_i128 y) = 0" by (simp add: abs_i128_def w128_neg)
  then show ?thesis using True by (simp add: div_ui128_def mod_ui128_def div_i128_def mod_i128_def DivMod128_zero)
next
  case False
  then show ?thesis using operators_spec [OF False, of x] signed_operators_spec [OF False, of x]
    by (simp add: quotient_written_def)
qed

theorem division_128_exact_witness:
  "div_ui128 (ui128 2 1) (ui128 1 0) = Inr (ui128 0 0) \<and> mod_ui128 (ui128 2 1) (ui128 1 0) = Inr (ui128 0 1) \<and>
   (\<exists>q. div_i128 (ui128 (- 1) (- 7)) (ui128 0 2) = Inr q \<and> w128 q = - 3)"
proof -
  have p: "w128 (ui128 0 2) = 2" "w128 (ui128 0 7) = 7" by (simp_all add: w128_halves GetHigh_def GetLow_def)
  have "ui128 (- 1) (- 7) = neg_128 (ui128 0 7)" by (simp add: neg_128_def GetHigh_def GetLow_def)
  then have v: "w128 (ui128 (- 1) (- 7)) = - 7" "w128 (ui128 0 2) = 2" using p by (simp_all add: w128_neg)
  have a: "\<not> wrong_shift (abs_i128 (ui128 (- 1) (- 7))) (abs_i128 (ui128 0 2))"
    by (simp add: wrong_shift_def abs_i128_def signbit_iff v GetLow_def)
  have w7: "\<exists>q. div_i128 (ui128 (- 1) (- 7)) (ui128 0 2) = Inr q \<and> w128 q = - 3"
    using division_128_exact [where x = "ui128 (- 1) (- 7)" and y = "ui128 0 2"] a unfolding v
    by (auto simp: signed_divide_int_def)
  have w: "wrong_shift (ui128 2 1) (ui128 1 0)" by (simp add: wrong_shift_def GetHigh_def GetLow_def)
  have c: "drop_bit (CountLeadingZeroBits (GetHigh (ui128 1 0))) (GetHigh (ui128 2 1)) = 0"
    by (simp add: CountLeadingZeroBits_def GetValueBitCount_def bit_count_loop.simps GetHigh_def)
  have e: "w128 (ui128 0 0) = 0" "w128 (ui128 0 1) = 1" "w128 (ui128 1 0) = 2 ^ 64" "w128 (ui128 2 1) = 2 * 2 ^ 64 + 1"
    by (simp_all add: w128_halves GetHigh_def GetLow_def hi_def)
  have m: "(2 * 2 ^ 64 + 1 :: 128 word) mod 2 ^ 64 = 1" by simp
  obtain q r where qr: "div_ui128 (ui128 2 1) (ui128 1 0) = Inr q" "mod_ui128 (ui128 2 1) (ui128 1 0) = Inr r" "w128 q = 0" "w128 r = 1"
    using division_128_exact [where x = "ui128 2 1" and y = "ui128 1 0"] w c m unfolding e by auto
  have "q = ui128 0 0" "r = ui128 0 1" using qr e(1,2) by (auto simp flip: w128_inject)
  then show ?thesis using qr(1,2) w7 by simp
qed

end
