(* ===== verification/Spec2Isabelle.thy ===== *)
theory Spec2Isabelle
  imports Prelude Coding YsonSyntax YsonLexer YsonParser Values Composite CompositeTruncate FarmHash
    Rows ValueHash RowWire RowBuilder KeyBounds Comparator KeyRanges PrefixComparers SortColumns
    ReadLimits ReadSelection ArrayHeap FenwickTree SlidingWindow AsyncRWLock YPath YPathStack YPathTrie
    IntegerText Int128 Int128Division
begin

text \<open>
  Verification of the data layer of the YTsaurus C++ SDK: byte codings, the YSON format,
  unversioned values and rows, keys with their bounds and comparators, read limits, paths, and
  the containers, the lock and the integer arithmetic below them. A value of a table travels
  through most of them. It is written with the varint coding, or as YSON that the pull parser
  reads back token by token; it is held in a row that a builder assembles; rows are compared
  and hashed value by value; prefixes of rows are keys; pairs of key bounds, interpreted by a
  comparator, say which rows an operation touches, and read limits carry them in requests.

  \<^bold>\<open>Conventions.\<close> Theory \<open>Prelude\<close> holds the type of results. An exception is
  \<open>Inl (Thrown _)\<close>, a failed \<open>YT_VERIFY\<close> is \<open>Inl (Fatal _)\<close>, and behaviour that C++
  leaves undefined, such as a read behind the end of a buffer, is \<open>Inl (Undefined _)\<close>; so a
  theorem that an operation returns \<open>Inr\<close> also says that it reads no memory it does not own.
  Buffers and streams are lists of 8-bit words, doubles are their 64-bit patterns, and the
  integers of values, codings, hashes and arithmetic have the width of the source. Loops are
  recursive functions with a measure where the recursion is not structural; no function of the
  development takes fuel. Prelude also holds the two interfaces that several components share:
  \<open>ternary\<close>, a three-way comparison that is a total preorder, and \<open>codec\<close>, a pair of a writer
  and a reader of self-delimiting encodings.

  \<^bold>\<open>Counts without a width.\<close> Lengths of lists and positions in them are natural
  numbers or integers without a bound: the column counts and length differences that
  \<open>CompareValueRanges\<close> and \<open>GetKeySuccessorImpl\<close> keep in an \<open>int\<close>, the indexes and sizes of
  heaps and Fenwick trees, the \<open>ssize_t\<close> sequence numbers of sliding windows, and the \<open>ui32\<close>
  capacities that the row builder doubles. The models agree with the code as long as the data
  stays below these limits. Sizes that are part of a format are kept at their width, with one
  exception: a text string is read whatever its size, while the lexer stores sizes in 32 bits.

  \<^bold>\<open>Coding\<close> models \<open>library/cpp/yt/coding\<close>: zig-zag and varint writers, the unrolled
  reader over a pointer, the byte-wise reader over a stream and the bounded reader. The lemmas
  describe an encoding by its value (\<open>vval\<close>) and give round trips and agreement of the
  readers.

  \<^bold>\<open>YsonSyntax, YsonLexer, YsonParser\<close> model \<open>yt/yt/core/yson\<close>: the syntax checker of
  \<open>syntax_checker-inl.h\<close> with its stack of states, the block stream and lexer of \<open>detail.h\<close>
  and the pull parser of \<open>pull_parser-inl.h\<close> with the token writers. The checker is shown to
  accept exactly the token sequences of a grammar. The locale \<open>stream_reader\<close> states that a
  reader depends only on the bytes that remain and not on how they are cut into blocks; every
  lexer routine is shown to satisfy it, so the parser does. The conversion of the text of a
  number, which the lexer hands to \<open>FromString\<close>, is an argument here (\<open>text_lib\<close>).

  \<^bold>\<open>Values, Composite, CompositeTruncate, FarmHash, Rows, ValueHash\<close> model
  \<open>row_base\<close>, \<open>unversioned_value\<close>, \<open>composite_compare.cpp\<close>, the portable part of
  \<open>contrib/libs/farmhash\<close> and the operations on rows of \<open>unversioned_row.cpp\<close>. Every value has
  a rank (\<open>value_rank\<close>), a list of integer lists, and comparison of values, YSON strings and
  rows is shown to be the lexicographic order of ranks; what key successors, truncation and
  hashing promise is stated over that order. Values of one column are comparable under
  \<open>column_value\<close>: composite columns hold composite values, others do not, and YSON strings are
  complete and hold no maps or attributes, as the code demands.

  \<^bold>\<open>RowWire, RowBuilder\<close> model the wire and stream formats of values and rows and
  the two row builders of \<open>unversioned_row.cpp\<close>. The builder model keeps addresses: appending to
  the string arena may move it, so the theorem that the finished row holds the values that were
  added rests on the pointer fix-up of \<open>AddValue\<close>.

  \<^bold>\<open>KeyBounds, Comparator, KeyRanges, PrefixComparers\<close> model \<open>key.cpp\<close>,
  \<open>key_bound.cpp\<close>, \<open>comparator.cpp\<close> and \<open>comparator-inl.h\<close>. Keys and bounds are shown to be
  points of one linear order (\<open>key_point\<close>, \<open>bound_point\<close>) that orients each column by its sort
  order; the locale \<open>rays\<close> is what a client may rely on, interpreted on the code's \<open>TestKey\<close>.
  A compiler-generated comparer is an argument with its contract as a hypothesis
  (\<open>prefix_contract\<close>), which \<open>ComparePrefix\<close> is shown to satisfy.

  \<^bold>\<open>SortColumns, ReadLimits, ReadSelection\<close> model \<open>column_sort_schema.cpp\<close> and
  \<open>read_limit.cpp\<close>: sort columns, legacy and modern limits and ranges, their messages and nodes,
  and the operations that invert a limit or exchange its direction. ReadSelection says which
  positions of a table a limit admits (\<open>in_lower\<close>, \<open>in_upper\<close>). That meaning is a specification:
  the library only carries limits to the servers, and the order of tablet and row indexes is
  taken from the comment in \<open>ToExactUpperCounterpart\<close>.

  \<^bold>\<open>ArrayHeap, FenwickTree, SlidingWindow\<close> model \<open>heap-inl.h\<close>, \<open>fenwick_tree-inl.h\<close> and
  \<open>sliding_window-inl.h\<close> of \<open>yt/yt/core/misc\<close>. Heaps are arrays with the assignments that
  \<open>onAssign\<close> sees; the locale \<open>heap_order\<close> holds the lemmas for any strict weak order. A Fenwick
  tree is shown to refine the list of its items, over any abelian group. Windows are shown to
  deliver the packets they accept once and in the order of their numbers.

  \<^bold>\<open>AsyncRWLock\<close> models \<open>async_rw_lock.cpp\<close> as a transition system: each critical section is
  a step, and the promises that it fulfils afterwards are set in later steps that interleave
  with other calls. The locale \<open>invariant_system\<close> carries invariants along runs; exclusion,
  the end of every chain of wake-ups and an answer to every request are shown over it.

  \<^bold>\<open>YPath, YPathStack, YPathTrie\<close> model \<open>yt/yt/core/ypath\<close>: literals and their escapes, the
  tokenizer, the path helpers, the path stack with its lazily built text, and the trie that
  classifies paths by the set it was given.

  \<^bold>\<open>IntegerText, Int128, Int128Division\<close> model the integer parser and formatter of
  \<open>util/string/cast.cpp\<close> and the pairs of 64-bit halves of \<open>library/cpp/int128/int128.h\<close>, which are
  shown to compute like 128-bit words; division is shown to be exact in all cases but one.

  \<^bold>\<open>Not modelled.\<close> Networking, RPC, the client API and driver, the file system, the
  query engine, the streaming computation library and the process utilities are input and
  output or concurrency around this layer. Within the components that are modelled, the typed
  shortcuts and the cursor of the pull parser, text output of YSON, logical types, the guards of
  the lock, the traversal frames of the trie, the conversion of 128-bit integers to and from
  text and their function \<open>Divide\<close>, and floating-point text are left out. Printing of values, log messages and the texts of
  errors are left out; which error is raised is kept where the code distinguishes it. Debug-only
  assertions are not part of the models.
\<close>

end
